theory Spec2Isabelle
  imports Main "HOL-Library.Word"
begin

unbundle bit_operations_syntax

section \<open>Pool allocator: mem-poolman.cpp and mem-pool.cpp\<close>

subsection \<open>Outcomes\<close>

text \<open>
  The model is the debug build: \<open>JERRY_ASSERT\<close> and \<open>mem_check_pools\<close> are active and the
  Valgrind macros expand to nothing. A failed assertion and a write through a null pointer
  end the run with a value of \<open>fatal\<close>. A loop that never ends gives \<open>None\<close>.
\<close>

datatype fatal = Assertion_failed | Null_dereference

type_synonym 'a outcome = "(fatal + 'a) option"

definition then_do :: "'a outcome \<Rightarrow> ('a \<Rightarrow> 'b outcome) \<Rightarrow> 'b outcome" where
  "then_do r f = (case r of None \<Rightarrow> None | Some (Inl e) \<Rightarrow> Some (Inl e) | Some (Inr x) \<Rightarrow> f x)"

definition done_with :: "'a \<Rightarrow> 'a outcome" where
  "done_with x = Some (Inr x)"

definition jerry_assert :: "bool \<Rightarrow> unit outcome" where
  "jerry_assert b = (if b then Some (Inr ()) else Some (Inl Assertion_failed))"

subsection \<open>Configuration, chunks and the temporary first-chunk layout\<close>

text \<open>
  Addresses are byte addresses, \<open>0\<close> is \<open>NULL\<close>. \<open>MEM_POOL_SIZE\<close> is a multiple of
  \<open>MEM_POOL_CHUNK_SIZE\<close> that depends on constants of the configuration and on the heap, and
  \<open>MEM_POOL_CHUNKS_NUMBER\<close> is their quotient: the number of chunks and the size of a chunk
  are parameters, and so are \<open>MEM_ALIGNMENT\<close>, \<open>CONFIG_MEM_POOL_MAX_CHUNKS_NUMBER_LOG\<close>, the
  value of \<open>mem_heap_get_chunked_block_data_size ()\<close> and the pointer compression of
  mem-allocator.h, none of which is part of the sources at hand.
\<close>

record mem_config =
  MEM_POOL_CHUNKS_NUMBER :: nat
  MEM_POOL_CHUNK_SIZE :: nat
  MEM_ALIGNMENT :: nat
  mem_compress_pointer :: "nat \<Rightarrow> 16 word"
  mem_decompress_pointer :: "16 word \<Rightarrow> nat"
  CONFIG_MEM_POOL_MAX_CHUNKS_NUMBER_LOG :: nat
  mem_heap_get_chunked_block_data_size :: nat

definition MEM_POOL_SIZE :: "mem_config \<Rightarrow> nat" where
  "MEM_POOL_SIZE cfg = MEM_POOL_CHUNKS_NUMBER cfg * MEM_POOL_CHUNK_SIZE cfg"

definition MEM_CP_NULL :: "16 word" where
  "MEM_CP_NULL = 0"

text \<open>
  Modelled from the spec: the macros \<open>MEM_CP_SET_POINTER\<close>, \<open>MEM_CP_SET_NON_NULL_POINTER\<close> and
  \<open>MEM_CP_GET_POINTER\<close> of mem-allocator.h are missing. A compressed pointer is a 16-bit
  value, \<open>MEM_CP_NULL\<close> stands for \<open>NULL\<close>, every other pointer goes through the
  compression function.
\<close>

definition MEM_CP_SET_POINTER :: "mem_config \<Rightarrow> nat \<Rightarrow> 16 word" where
  "MEM_CP_SET_POINTER cfg p = (if p = 0 then MEM_CP_NULL else mem_compress_pointer cfg p)"

definition MEM_CP_GET_POINTER :: "mem_config \<Rightarrow> 16 word \<Rightarrow> nat" where
  "MEM_CP_GET_POINTER cfg cp = (if cp = MEM_CP_NULL then 0 else mem_decompress_pointer cfg cp)"

text \<open>
  \<open>mem_pool_chunk_t\<close> is \<open>uint64_t\<close>: the allocator reads and writes the first eight bytes
  of a chunk, either as a pointer to the next free chunk (a 64-bit pointer fills the word)
  or, during the compacting pass, through \<open>mem_temp_first_chunk_layout_t\<close> (little endian,
  fields at byte offsets 0, 2, 4, 6 and 7).
\<close>

record mem_temp_first_chunk_layout_t =
  next_first_pool_free_chunk_cp :: "16 word"
  free_chunks_of_the_pool_cp :: "16 word"
  hint_magic_num :: "16 word"
  free_chunks_num :: "8 word"
  layout_id :: "8 word"

definition chunk_as_layout :: "64 word \<Rightarrow> mem_temp_first_chunk_layout_t" where
  "chunk_as_layout w =
     \<lparr> next_first_pool_free_chunk_cp = ucast w,
       free_chunks_of_the_pool_cp = ucast (drop_bit 16 w),
       hint_magic_num = ucast (drop_bit 32 w),
       free_chunks_num = ucast (drop_bit 48 w),
       layout_id = ucast (drop_bit 56 w) \<rparr>"

definition layout_as_chunk :: "mem_temp_first_chunk_layout_t \<Rightarrow> 64 word" where
  "layout_as_chunk l =
     ucast (next_first_pool_free_chunk_cp l)
     OR push_bit 16 (ucast (free_chunks_of_the_pool_cp l))
     OR push_bit 32 (ucast (hint_magic_num l))
     OR push_bit 48 (ucast (free_chunks_num l))
     OR push_bit 56 (ucast (layout_id l))"

definition hint_magic_num_value :: "16 word" where
  "hint_magic_num_value = 0x7e89"

definition number_of_list_of_pools_with_free_first_chunk :: nat where
  "number_of_list_of_pools_with_free_first_chunk = 8"

subsection \<open>State\<close>

text \<open>
  \<open>chunk_mem\<close> holds the first eight bytes of every chunk, \<open>mem_free_chunks_number\<close> and
  \<open>mem_free_chunk_p\<close> are the two globals of mem-poolman.cpp.

  Modelled from the spec: the heap (mem-heap.cpp) is missing. \<open>heap_blocks\<close> lists the
  chunked blocks the heap has handed out and not taken back, oldest first.
\<close>

record mem_pools_state =
  chunk_mem :: "nat \<Rightarrow> 64 word"
  mem_free_chunks_number :: nat
  mem_free_chunk_p :: nat
  heap_blocks :: "nat list"

text \<open>\<open>size_t\<close> arithmetic, 64 bits wide, with the wrap-around written out.\<close>

definition size_t_add :: "nat \<Rightarrow> nat \<Rightarrow> nat" where
  "size_t_add a b = (a + b) mod 2 ^ 64"

definition size_t_sub :: "nat \<Rightarrow> nat \<Rightarrow> nat" where
  "size_t_sub a b = (a + (2 ^ 64 - b mod 2 ^ 64)) mod 2 ^ 64"

definition next_of :: "(nat \<Rightarrow> 64 word) \<Rightarrow> nat \<Rightarrow> nat" where
  "next_of m p = unat (m p)"

definition store_ptr :: "nat \<Rightarrow> nat \<Rightarrow> mem_pools_state \<Rightarrow> mem_pools_state" where
  "store_ptr p v s = s\<lparr>chunk_mem := (chunk_mem s)(p := word_of_nat v)\<rparr>"

definition store_layout ::
  "nat \<Rightarrow> mem_temp_first_chunk_layout_t \<Rightarrow> mem_pools_state \<Rightarrow> mem_pools_state" where
  "store_layout p l s = s\<lparr>chunk_mem := (chunk_mem s)(p := layout_as_chunk l)\<rparr>"

definition load_layout :: "mem_pools_state \<Rightarrow> nat \<Rightarrow> mem_temp_first_chunk_layout_t" where
  "load_layout s p = chunk_as_layout (chunk_mem s p)"

subsection \<open>The heap, as the pool manager uses it\<close>

text \<open>
  Modelled from the spec: \<open>mem_heap_get_chunked_block_start\<close> is the heap's block-start
  query, the base address of the live block that holds the pointer (\<open>NULL\<close> here when no
  live block does). \<open>MEM_POOL_SPACE_START\<close> is the identity.
\<close>

definition mem_heap_get_chunked_block_start :: "mem_config \<Rightarrow> mem_pools_state \<Rightarrow> nat \<Rightarrow> nat" where
  "mem_heap_get_chunked_block_start cfg s p =
     (case find (\<lambda>b. b \<le> p \<and> p < b + MEM_POOL_SIZE cfg) (heap_blocks s) of
        None \<Rightarrow> 0 | Some b \<Rightarrow> b)"

text \<open>Modelled from the spec: \<open>mem_heap_free_block\<close> gives a block back to the heap.\<close>

definition mem_heap_free_block :: "nat \<Rightarrow> mem_pools_state \<Rightarrow> mem_pools_state" where
  "mem_heap_free_block p s = s\<lparr>heap_blocks := remove1 p (heap_blocks s)\<rparr>"

subsection \<open>mem_pools_init, mem_check_pools, mem_pools_free\<close>

definition mem_pools_init :: "mem_pools_state \<Rightarrow> mem_pools_state" where
  "mem_pools_init s = s\<lparr>mem_free_chunks_number := 0, mem_free_chunk_p := 0\<rparr>"

text \<open>The walk of \<open>mem_check_pools\<close>: count the chunks met from \<open>chunk_iter_p\<close> on.\<close>

partial_function (option) met_free_chunks :: "(nat \<Rightarrow> 64 word) \<Rightarrow> nat \<Rightarrow> nat \<Rightarrow> nat option" where
  "met_free_chunks m chunk_iter_p met_free_chunks_number =
     (if chunk_iter_p = 0 then Some met_free_chunks_number
      else met_free_chunks m (next_of m chunk_iter_p) (size_t_add met_free_chunks_number 1))"

declare met_free_chunks.simps [code]

definition mem_check_pools :: "mem_pools_state \<Rightarrow> unit outcome" where
  "mem_check_pools s =
     (case met_free_chunks (chunk_mem s) (mem_free_chunk_p s) 0 of
        None \<Rightarrow> None
      | Some n \<Rightarrow> jerry_assert (n = mem_free_chunks_number s))"

definition mem_pools_free :: "nat \<Rightarrow> mem_pools_state \<Rightarrow> mem_pools_state outcome" where
  "mem_pools_free chunk_p s =
     then_do (mem_check_pools s) (\<lambda>_.
       let s1 = store_ptr chunk_p (mem_free_chunk_p s) s;
           s2 = s1\<lparr>mem_free_chunk_p := chunk_p\<rparr>;
           s3 = s2\<lparr>mem_free_chunks_number := size_t_add (mem_free_chunks_number s2) 1\<rparr>
       in then_do (mem_check_pools s3) (\<lambda>_. done_with s3))"

subsection \<open>mem_pool_init\<close>

text \<open>
  The first loop of \<open>mem_pool_init\<close>. \<open>chunk_index\<close> is a \<open>uint8_t\<close>
  (\<open>mem_pool_chunk_index_t\<close>): with 256 chunks or more in a pool the loop never ends.
\<close>

partial_function (option) mem_pool_init_chain ::
  "mem_config \<Rightarrow> nat \<Rightarrow> 8 word \<Rightarrow> nat \<Rightarrow> mem_pools_state \<Rightarrow> (nat \<times> mem_pools_state) option" where
  "mem_pool_init_chain cfg pool_p chunk_index prev_free_chunk_p s =
     (if unat chunk_index < MEM_POOL_CHUNKS_NUMBER cfg then
        let chunk_p = pool_p + MEM_POOL_CHUNK_SIZE cfg * unat chunk_index;
            s1 = (if prev_free_chunk_p \<noteq> 0 then store_ptr prev_free_chunk_p chunk_p s else s)
        in mem_pool_init_chain cfg pool_p (chunk_index + 1) chunk_p s1
      else Some (prev_free_chunk_p, s))"

declare mem_pool_init_chain.simps [code]

text \<open>The second loop only marks the chunks for Valgrind; it has the same counter.\<close>

partial_function (option) mem_pool_init_noaccess :: "mem_config \<Rightarrow> 8 word \<Rightarrow> unit option" where
  "mem_pool_init_noaccess cfg chunk_index =
     (if unat chunk_index < MEM_POOL_CHUNKS_NUMBER cfg
      then mem_pool_init_noaccess cfg (chunk_index + 1) else Some ())"

declare mem_pool_init_noaccess.simps [code]

text \<open>
  The static assertions of \<open>mem_pool_init\<close> are conditions on the constants that the
  compiler checks; the assertions checked when it runs are part of the model.
\<close>

definition mem_pool_init ::
  "mem_config \<Rightarrow> nat \<Rightarrow> nat \<Rightarrow> mem_pools_state \<Rightarrow> (nat \<times> mem_pools_state) outcome" where
  "mem_pool_init cfg pool_p pool_size s =
     then_do (jerry_assert (pool_p \<noteq> 0)) (\<lambda>_.
     then_do (jerry_assert (pool_p mod MEM_ALIGNMENT cfg = 0)) (\<lambda>_.
     then_do (jerry_assert (MEM_POOL_SIZE cfg
                = MEM_POOL_CHUNKS_NUMBER cfg * MEM_POOL_CHUNK_SIZE cfg)) (\<lambda>_.
     then_do (jerry_assert (MEM_POOL_CHUNKS_NUMBER cfg
                \<le> 2 ^ CONFIG_MEM_POOL_MAX_CHUNKS_NUMBER_LOG cfg)) (\<lambda>_.
     then_do (jerry_assert (pool_size = MEM_POOL_SIZE cfg)) (\<lambda>_.
       let first_chunk_p = pool_p + MEM_POOL_CHUNK_SIZE cfg * 0 in
       case mem_pool_init_chain cfg pool_p 0 0 s of
         None \<Rightarrow> None
       | Some (prev_free_chunk_p, s1) \<Rightarrow>
           if prev_free_chunk_p = 0 then Some (Inl Null_dereference)
           else (case mem_pool_init_noaccess cfg 0 of
                   None \<Rightarrow> None
                 | Some _ \<Rightarrow> done_with (first_chunk_p, store_ptr prev_free_chunk_p 0 s1)))))))"

subsection \<open>mem_pools_alloc\<close>

text \<open>
  Modelled from the spec: \<open>mem_heap_alloc_chunked_block\<close> is missing. The heap answers a
  request with a block (\<open>NULL\<close> when it has none), and it may run the garbage collector
  first, which frees chunks through \<open>mem_pools_free\<close>. The answer is an argument of the
  model.
\<close>

record heap_answer =
  gc_freed :: "nat list"
  new_block :: nat

fun gc_free_chunks :: "nat list \<Rightarrow> mem_pools_state \<Rightarrow> mem_pools_state outcome" where
  "gc_free_chunks [] s = done_with s"
| "gc_free_chunks (c # cs) s = then_do (mem_pools_free c s) (gc_free_chunks cs)"

definition mem_heap_alloc_chunked_block ::
  "heap_answer \<Rightarrow> mem_pools_state \<Rightarrow> (nat \<times> mem_pools_state) outcome" where
  "mem_heap_alloc_chunked_block a s =
     then_do (gc_free_chunks (gc_freed a) s) (\<lambda>s1.
       done_with (new_block a,
         if new_block a = 0 then s1 else s1\<lparr>heap_blocks := heap_blocks s1 @ [new_block a]\<rparr>))"

definition mem_pools_alloc_longpath ::
  "mem_config \<Rightarrow> heap_answer \<Rightarrow> mem_pools_state \<Rightarrow> mem_pools_state outcome" where
  "mem_pools_alloc_longpath cfg a s =
     then_do (mem_check_pools s) (\<lambda>_.
     then_do (jerry_assert (mem_free_chunk_p s = 0)) (\<lambda>_.
     then_do (jerry_assert (mem_free_chunks_number s = 0)) (\<lambda>_.
     then_do (jerry_assert (MEM_POOL_SIZE cfg \<le> mem_heap_get_chunked_block_data_size cfg)) (\<lambda>_.
     then_do (jerry_assert (MEM_POOL_CHUNKS_NUMBER cfg \<ge> 1)) (\<lambda>_.
     then_do (mem_heap_alloc_chunked_block a s) (\<lambda>(pool_state_p, s1).
     then_do (jerry_assert (pool_state_p \<noteq> 0)) (\<lambda>_.
       if mem_free_chunks_number s1 \<noteq> 0
       then done_with (mem_heap_free_block pool_state_p s1)
       else
         then_do (mem_pool_init cfg pool_state_p (MEM_POOL_SIZE cfg) s1)
           (\<lambda>(first_pool_free_chunk_p, s2).
           let s3 = s2\<lparr>mem_free_chunks_number :=
                         size_t_add (mem_free_chunks_number s2) (MEM_POOL_CHUNKS_NUMBER cfg)\<rparr>;
               s4 = s3\<lparr>mem_free_chunk_p := first_pool_free_chunk_p\<rparr>
           in then_do (mem_check_pools s4) (\<lambda>_. done_with s4)))))))))"

definition mem_pools_alloc ::
  "mem_config \<Rightarrow> heap_answer \<Rightarrow> mem_pools_state \<Rightarrow> (nat \<times> mem_pools_state) outcome" where
  "mem_pools_alloc cfg a s =
     then_do (if mem_free_chunk_p s = 0 then mem_pools_alloc_longpath cfg a s else done_with s) (\<lambda>s1.
     then_do (jerry_assert (mem_free_chunks_number s1 \<noteq> 0 \<and> mem_free_chunk_p s1 \<noteq> 0)) (\<lambda>_.
       let s2 = s1\<lparr>mem_free_chunks_number := size_t_sub (mem_free_chunks_number s1) 1\<rparr>;
           chunk_p = mem_free_chunk_p s2;
           s3 = s2\<lparr>mem_free_chunk_p := next_of (chunk_mem s2) chunk_p\<rparr>
       in then_do (mem_check_pools s3) (\<lambda>_. done_with (chunk_p, s3))))"

subsection \<open>mem_pools_remove_empty_pools\<close>

text \<open>
  Unlink \<open>free_chunk_iter_p\<close> from the common list of free chunks: the step both the first
  and the second pass take, with its assertion.
\<close>

definition unlink_free_chunk ::
  "nat \<Rightarrow> nat \<Rightarrow> nat \<Rightarrow> mem_pools_state \<Rightarrow> mem_pools_state outcome" where
  "unlink_free_chunk prev_free_chunk_p free_chunk_iter_p next_free_chunk_p s =
     (if prev_free_chunk_p = 0
      then then_do (jerry_assert (mem_free_chunk_p s = free_chunk_iter_p)) (\<lambda>_.
             done_with (s\<lparr>mem_free_chunk_p := next_free_chunk_p\<rparr>))
      else done_with (store_ptr prev_free_chunk_p next_free_chunk_p s))"

text \<open>
  First pass: the free chunks that are first in their pool leave the common list and
  enter one of the eight lists of first chunks, in the temporary layout.
  \<open>number_of_pools_with_free_first_chunk\<close> is a \<open>uint32_t\<close>, \<open>id\<close> a \<open>uint8_t\<close>.
\<close>

partial_function (option) remove_empty_pools_pass1 ::
  "mem_config \<Rightarrow> mem_pools_state \<Rightarrow> nat list \<Rightarrow> 32 word \<Rightarrow> nat \<Rightarrow> nat \<Rightarrow>
     (fatal + mem_pools_state \<times> nat list \<times> 32 word) option" where
  "remove_empty_pools_pass1 cfg s first_chunk_of_a_pool_list_p number_of_pools_with_free_first_chunk
       free_chunk_iter_p prev_free_chunk_p =
     (if free_chunk_iter_p = 0
      then Some (Inr (s, first_chunk_of_a_pool_list_p, number_of_pools_with_free_first_chunk))
      else
        let pool_p = mem_heap_get_chunked_block_start cfg s free_chunk_iter_p;
            next_free_chunk_p = next_of (chunk_mem s) free_chunk_iter_p
        in if pool_p = free_chunk_iter_p then
             (case unlink_free_chunk prev_free_chunk_p free_chunk_iter_p next_free_chunk_p s of
                None \<Rightarrow> None
              | Some (Inl e) \<Rightarrow> Some (Inl e)
              | Some (Inr s1) \<Rightarrow>
                  let id = (ucast (number_of_pools_with_free_first_chunk
                              mod word_of_nat number_of_list_of_pools_with_free_first_chunk) :: 8 word);
                      new_layout = (load_layout s1 free_chunk_iter_p)
                        \<lparr> next_first_pool_free_chunk_cp :=
                            MEM_CP_SET_POINTER cfg (first_chunk_of_a_pool_list_p ! unat id),
                          free_chunks_of_the_pool_cp := MEM_CP_NULL,
                          free_chunks_num := 1,
                          hint_magic_num := hint_magic_num_value,
                          layout_id := id \<rparr>;
                      s2 = store_layout free_chunk_iter_p new_layout s1
                  in remove_empty_pools_pass1 cfg s2
                       (first_chunk_of_a_pool_list_p[unat id := free_chunk_iter_p])
                       (number_of_pools_with_free_first_chunk + 1)
                       next_free_chunk_p prev_free_chunk_p)
           else remove_empty_pools_pass1 cfg s first_chunk_of_a_pool_list_p
                  number_of_pools_with_free_first_chunk next_free_chunk_p free_chunk_iter_p)"

declare remove_empty_pools_pass1.simps [code]

text \<open>
  The inner loop of the second pass: is \<open>temp_first_chunk_layout_p\<close> on the list of first
  chunks that starts at \<open>first_pool_chunks_iter_p\<close>? What the source does on a match
  follows in \<open>remove_empty_pools_pass2\<close>.
\<close>

partial_function (option) search_first_chunk_list ::
  "mem_config \<Rightarrow> mem_pools_state \<Rightarrow> nat \<Rightarrow> nat \<Rightarrow> bool option" where
  "search_first_chunk_list cfg s first_pool_chunks_iter_p temp_first_chunk_layout_p =
     (if first_pool_chunks_iter_p = 0 then Some False
      else if first_pool_chunks_iter_p = temp_first_chunk_layout_p then Some True
      else search_first_chunk_list cfg s
             (MEM_CP_GET_POINTER cfg
                (next_first_pool_free_chunk_cp (load_layout s first_pool_chunks_iter_p)))
             temp_first_chunk_layout_p)"

declare search_first_chunk_list.simps [code]

text \<open>
  What the second pass does with a free chunk whose pool's first chunk was found on its
  list: count it in the first chunk and move it from the common list to the local list of
  the pool. \<open>MEM_CP_SET_NON_NULL_POINTER\<close> compresses without the null test.
\<close>

definition move_chunk_to_local_list ::
  "mem_config \<Rightarrow> nat \<Rightarrow> nat \<Rightarrow> nat \<Rightarrow> nat \<Rightarrow> mem_pools_state \<Rightarrow> mem_pools_state outcome" where
  "move_chunk_to_local_list cfg temp_first_chunk_layout_p prev_free_chunk_p free_chunk_iter_p
       next_free_chunk_p s =
     (let t = load_layout s temp_first_chunk_layout_p;
          s1 = store_layout temp_first_chunk_layout_p (t\<lparr>free_chunks_num := free_chunks_num t + 1\<rparr>) s
      in then_do (unlink_free_chunk prev_free_chunk_p free_chunk_iter_p next_free_chunk_p s1) (\<lambda>s2.
           let s3 = store_ptr free_chunk_iter_p
                      (MEM_CP_GET_POINTER cfg
                         (free_chunks_of_the_pool_cp (load_layout s2 temp_first_chunk_layout_p))) s2;
               s4 = store_layout temp_first_chunk_layout_p
                      ((load_layout s3 temp_first_chunk_layout_p)
                         \<lparr>free_chunks_of_the_pool_cp := mem_compress_pointer cfg free_chunk_iter_p\<rparr>) s3
           in done_with s4))"

partial_function (option) remove_empty_pools_pass2 ::
  "mem_config \<Rightarrow> nat list \<Rightarrow> mem_pools_state \<Rightarrow> nat \<Rightarrow> nat \<Rightarrow> (fatal + mem_pools_state) option" where
  "remove_empty_pools_pass2 cfg first_chunk_of_a_pool_list_p s free_chunk_iter_p prev_free_chunk_p =
     (if free_chunk_iter_p = 0 then Some (Inr s)
      else
        let pool_p = mem_heap_get_chunked_block_start cfg s free_chunk_iter_p;
            next_free_chunk_p = next_of (chunk_mem s) free_chunk_iter_p;
            first_chunk_of_pool_p = pool_p;
            temp_first_chunk_layout = load_layout s first_chunk_of_pool_p;
            id_to_search_in = layout_id temp_first_chunk_layout
        in if hint_magic_num temp_first_chunk_layout = hint_magic_num_value
              \<and> unat id_to_search_in < number_of_list_of_pools_with_free_first_chunk
           then
             (case search_first_chunk_list cfg s
                     (first_chunk_of_a_pool_list_p ! unat id_to_search_in) first_chunk_of_pool_p of
                None \<Rightarrow> None
              | Some is_chunk_moved_to_local_list \<Rightarrow>
                  if is_chunk_moved_to_local_list then
                    (case move_chunk_to_local_list cfg first_chunk_of_pool_p prev_free_chunk_p
                            free_chunk_iter_p next_free_chunk_p s of
                       None \<Rightarrow> None
                     | Some (Inl e) \<Rightarrow> Some (Inl e)
                     | Some (Inr s1) \<Rightarrow>
                         remove_empty_pools_pass2 cfg first_chunk_of_a_pool_list_p s1
                           next_free_chunk_p prev_free_chunk_p)
                  else remove_empty_pools_pass2 cfg first_chunk_of_a_pool_list_p s
                         next_free_chunk_p free_chunk_iter_p)
           else remove_empty_pools_pass2 cfg first_chunk_of_a_pool_list_p s
                  next_free_chunk_p free_chunk_iter_p)"

declare remove_empty_pools_pass2.simps [code]

text \<open>
  Third pass, innermost loop: from the first chunk of the pool along its local list to the
  chunk whose next pointer is null.
\<close>

partial_function (option) last_chunk_of_pool_list ::
  "mem_pools_state \<Rightarrow> nat \<Rightarrow> (fatal + nat) option" where
  "last_chunk_of_pool_list s pool_chunks_iter_p =
     (if pool_chunks_iter_p = 0 then Some (Inl Assertion_failed)
      else if next_of (chunk_mem s) pool_chunks_iter_p = 0 then Some (Inr pool_chunks_iter_p)
      else last_chunk_of_pool_list s (next_of (chunk_mem s) pool_chunks_iter_p))"

declare last_chunk_of_pool_list.simps [code]

text \<open>Third pass, one list of first chunks: free the pool or give its chunks back.\<close>

partial_function (option) remove_empty_pools_pass3_list ::
  "mem_config \<Rightarrow> mem_pools_state \<Rightarrow> nat \<Rightarrow> (fatal + mem_pools_state) option" where
  "remove_empty_pools_pass3_list cfg s first_pool_chunks_iter_p =
     (if first_pool_chunks_iter_p = 0 then Some (Inr s)
      else
        let l = load_layout s first_pool_chunks_iter_p;
            next_p = MEM_CP_GET_POINTER cfg (next_first_pool_free_chunk_cp l)
        in if unat (free_chunks_num l) = MEM_POOL_CHUNKS_NUMBER cfg then
             let s1 = mem_heap_free_block first_pool_chunks_iter_p s;
                 s2 = s1\<lparr>mem_free_chunks_number :=
                          size_t_sub (mem_free_chunks_number s1) (MEM_POOL_CHUNKS_NUMBER cfg)\<rparr>
             in remove_empty_pools_pass3_list cfg s2 next_p
           else
             let first_chunk_of_pool_p = first_pool_chunks_iter_p;
                 non_first_free_chunk_of_the_pool_p =
                   MEM_CP_GET_POINTER cfg (free_chunks_of_the_pool_cp l);
                 s1 = store_ptr first_chunk_of_pool_p non_first_free_chunk_of_the_pool_p s
             in (case last_chunk_of_pool_list s1 first_chunk_of_pool_p of
                   None \<Rightarrow> None
                 | Some (Inl e) \<Rightarrow> Some (Inl e)
                 | Some (Inr pool_chunks_iter_p) \<Rightarrow>
                     let s2 = store_ptr pool_chunks_iter_p (mem_free_chunk_p s1) s1;
                         s3 = s2\<lparr>mem_free_chunk_p := first_chunk_of_pool_p\<rparr>
                     in remove_empty_pools_pass3_list cfg s3 next_p))"

declare remove_empty_pools_pass3_list.simps [code]

text \<open>Third pass, the loop over \<open>list_id\<close>: the eight lists in turn.\<close>

fun remove_empty_pools_pass3 ::
  "mem_config \<Rightarrow> nat list \<Rightarrow> mem_pools_state \<Rightarrow> mem_pools_state outcome" where
  "remove_empty_pools_pass3 cfg [] s = done_with s"
| "remove_empty_pools_pass3 cfg (first_p # rest) s =
     then_do (remove_empty_pools_pass3_list cfg s first_p) (remove_empty_pools_pass3 cfg rest)"

text \<open>
  The last loop walks the common list once more for Valgrind and changes nothing; it is
  the walk of \<open>mem_check_pools\<close> without the assertion.
\<close>

definition mem_pools_remove_empty_pools :: "mem_config \<Rightarrow> mem_pools_state \<Rightarrow> mem_pools_state outcome" where
  "mem_pools_remove_empty_pools cfg s =
     then_do (remove_empty_pools_pass1 cfg s
                (replicate number_of_list_of_pools_with_free_first_chunk 0) 0
                (mem_free_chunk_p s) 0)
       (\<lambda>(s1, first_chunk_of_a_pool_list_p, number_of_pools_with_free_first_chunk).
          if number_of_pools_with_free_first_chunk = 0 then done_with s1
          else
            then_do (remove_empty_pools_pass2 cfg first_chunk_of_a_pool_list_p s1
                       (mem_free_chunk_p s1) 0) (\<lambda>s2.
            then_do (remove_empty_pools_pass3 cfg first_chunk_of_a_pool_list_p s2) (\<lambda>s3.
              case met_free_chunks (chunk_mem s3) (mem_free_chunk_p s3) 0 of
                None \<Rightarrow> None
              | Some _ \<Rightarrow> done_with s3)))"

definition mem_pools_finalize :: "mem_config \<Rightarrow> mem_pools_state \<Rightarrow> mem_pools_state outcome" where
  "mem_pools_finalize cfg s =
     then_do (mem_pools_remove_empty_pools cfg s) (\<lambda>s1.
     then_do (jerry_assert (mem_free_chunks_number s1 = 0)) (\<lambda>_. done_with s1))"


section \<open>The parser and the byte-code dumper\<close>

subsection \<open>Instructions, scopes and the state of the dumper\<close>

type_synonym vm_idx_t = "8 word"

text \<open>
  A \<open>lit_cpointer_t\<close> is only ever compared with another one, or with \<open>NOT_A_LITERAL\<close>, through
  its \<open>packed_value\<close>.
\<close>

datatype lit_cpointer_t = NOT_A_LITERAL | Literal "16 word"

text \<open>
  The table of all opcodes (\<open>vm-opcodes.inc.h\<close>) is missing: \<open>vm_op_t\<close> has the opcodes
  that the functions below name and those of the instructions of the examples.
\<close>

datatype vm_op_t =
    VM_OP_FUNC_EXPR_N | VM_OP_FUNC_DECL_N | VM_OP_CONSTRUCT_N | VM_OP_CALL_N
  | VM_OP_ARRAY_DECL | VM_OP_OBJ_DECL | VM_OP_META | VM_OP_VAR_DECL | VM_OP_ASSIGNMENT
  | VM_OP_REG_VAR_DECL | VM_OP_ADDITION | VM_OP_RETVAL | VM_OP_RET

text \<open>
  An \<open>op_meta\<close>: the opcode, the three operand bytes \<open>op.data.raw_args\<close> and the three literal
  identifiers \<open>lit_id\<close>. The named fields of \<open>op.data\<close> overlay \<open>raw_args\<close>; their places are
  those at which \<open>dump_varg_header_for_rewrite\<close>, \<open>dump_scope_code_flags_for_rewrite\<close> and
  \<open>dump_reg_var_decl_for_rewrite\<close> write them.
\<close>

record op_meta =
  op_idx :: vm_op_t
  raw_args :: "vm_idx_t list"
  lit_id :: "lit_cpointer_t list"

definition func_expr_n_lhs :: nat where "func_expr_n_lhs = 0"
definition func_expr_n_arg_list :: nat where "func_expr_n_arg_list = 2"
definition func_decl_n_arg_list :: nat where "func_decl_n_arg_list = 1"
definition obj_decl_lhs :: nat where "obj_decl_lhs = 0"
definition obj_decl_list_1 :: nat where "obj_decl_list_1 = 1"
definition obj_decl_list_2 :: nat where "obj_decl_list_2 = 2"
definition reg_var_decl_tmp_regs_num :: nat where "reg_var_decl_tmp_regs_num = 0"
definition reg_var_decl_local_var_regs_num :: nat where "reg_var_decl_local_var_regs_num = 1"
definition reg_var_decl_arg_regs_num :: nat where "reg_var_decl_arg_regs_num = 2"


text \<open>
  The values of the register bounds, of the reserved operand bytes, of the types of \<open>meta\<close>
  instructions and of the flags of a scope are in headers that are missing; they are
  parameters here. The flags are bits of an integer, combined with \<open>|\<close>.
\<close>

record vm_consts =
  VM_REG_GENERAL_FIRST :: vm_idx_t
  VM_REG_GENERAL_LAST :: vm_idx_t
  VM_IDX_EMPTY :: vm_idx_t
  VM_IDX_REWRITE_LITERAL_UID :: vm_idx_t
  VM_IDX_REWRITE_GENERAL_CASE :: vm_idx_t
  VM_OP_ARG_TYPE_VARIABLE :: vm_idx_t
  OPCODE_META_TYPE_VARG :: vm_idx_t
  OPCODE_META_TYPE_FUNCTION_END :: vm_idx_t
  OPCODE_META_TYPE_SCOPE_CODE_FLAGS :: vm_idx_t
  OPCODE_META_TYPE_VARG_PROP_DATA :: vm_idx_t
  OPCODE_META_TYPE_VARG_PROP_GETTER :: vm_idx_t
  OPCODE_META_TYPE_VARG_PROP_SETTER :: vm_idx_t
  OPCODE_SCOPE_CODE_FLAGS_STRICT :: nat
  OPCODE_SCOPE_CODE_FLAGS_NOT_REF_ARGUMENTS_IDENTIFIER :: nat
  OPCODE_SCOPE_CODE_FLAGS_NOT_REF_EVAL_IDENTIFIER :: nat
  OPCODE_SCOPE_CODE_FLAGS_ARGUMENTS_ON_REGISTERS :: nat
  OPCODE_SCOPE_CODE_FLAGS_NO_LEX_ENV :: nat


text \<open>
  Modelled from the spec: the scope tree node is external. It carries the strict-mode flag,
  the type of the scope, the six flags of what the code of the scope contains, its
  instructions, its variables (parameters among them), and the counts of its parameters,
  local variables and child scopes.
\<close>

datatype scope_type_t = SCOPE_TYPE_GLOBAL | SCOPE_TYPE_FUNCTION | SCOPE_TYPE_EVAL

record scope_variable =
  var_lit_id :: lit_cpointer_t
  is_param :: bool

record scopes_tree_int =
  scope_type :: scope_type_t
  strict_mode :: bool
  ref_arguments :: bool
  ref_eval :: bool
  contains_with :: bool
  contains_try :: bool
  contains_delete :: bool
  contains_functions :: bool
  children_num :: nat
  instrs :: "op_meta list"
  variables :: "scope_variable list"
  param_count :: nat
  local_count :: nat

text \<open>
  The state of the dumper that the functions below read and write: the four register
  cursors, the stack of saved register cursors, the stacks of the positions of the headers of
  argument lists and of the \<open>function_end\<close> instructions, and the scope the serializer writes
  to, which is the one on the stack of scopes. Positions of instructions are
  \<open>vm_instr_counter_t\<close>, 16 bits wide: a decrement is written with its wrap-around.
\<close>

record parser_state =
  jsp_reg_next :: vm_idx_t
  jsp_reg_max_for_temps :: vm_idx_t
  jsp_reg_max_for_local_var :: vm_idx_t
  jsp_reg_max_for_args :: vm_idx_t
  jsp_reg_id_stack :: "vm_idx_t list"
  varg_headers :: "nat list"
  function_ends :: "nat list"
  scope :: scopes_tree_int

text \<open>
  A computation of the parser ends with a value, or it does not return to its caller:
  \<open>PARSE_ERROR\<close> records the type of the early error and jumps to the recovery point of
  \<open>parser_parse_program\<close>; a failed \<open>JERRY_ASSERT\<close> and \<open>JERRY_UNREACHABLE\<close> stop the engine.
\<close>

datatype jsp_early_error_t =
  JSP_EARLY_ERROR__NO_ERROR | JSP_EARLY_ERROR_SYNTAX | JSP_EARLY_ERROR_REFERENCE

datatype parser_abort =
  PARSE_ERROR jsp_early_error_t string | JERRY_ASSERT_failed | JERRY_UNREACHABLE_reached

type_synonym 'a parsing = "parser_abort + 'a"

definition and_then :: "'a parsing \<Rightarrow> ('a \<Rightarrow> 'b parsing) \<Rightarrow> 'b parsing" where
  "and_then r f = (case r of Inl e \<Rightarrow> Inl e | Inr x \<Rightarrow> f x)"

definition JERRY_ASSERT :: "bool \<Rightarrow> unit parsing" where
  "JERRY_ASSERT b = (if b then Inr () else Inl JERRY_ASSERT_failed)"


text \<open>
  Modelled from the spec: the serializer and the scope tree are missing. They read and
  overwrite in place the instruction at a position of the current scope; the position has to
  be one of an instruction of the scope.
\<close>

definition scopes_tree_op_meta :: "scopes_tree_int \<Rightarrow> nat \<Rightarrow> op_meta parsing" where
  "scopes_tree_op_meta tree oc =
     (if oc < length (instrs tree) then Inr (instrs tree ! oc) else Inl JERRY_ASSERT_failed)"

definition scopes_tree_set_op_meta :: "scopes_tree_int \<Rightarrow> nat \<Rightarrow> op_meta \<Rightarrow> scopes_tree_int" where
  "scopes_tree_set_op_meta tree oc om = tree\<lparr>instrs := (instrs tree)[oc := om]\<rparr>"


definition serializer_get_op_meta :: "nat \<Rightarrow> parser_state \<Rightarrow> op_meta parsing" where
  "serializer_get_op_meta oc st = scopes_tree_op_meta (scope st) oc"

definition serializer_rewrite_op_meta :: "nat \<Rightarrow> op_meta \<Rightarrow> parser_state \<Rightarrow> parser_state" where
  "serializer_rewrite_op_meta oc om st = st\<lparr>scope := scopes_tree_set_op_meta (scope st) oc om\<rparr>"

text \<open>Modelled from the spec: an operand is a tagged union of five variants.\<close>

datatype jsp_operand_t =
    Empty_operand | Unknown_operand | Idx_const_operand vm_idx_t
  | Reg_operand vm_idx_t | Literal_operand lit_cpointer_t

definition empty_operand :: jsp_operand_t where
  "empty_operand = Empty_operand"

subsection \<open>Registers for intermediate values\<close>

definition jsp_alloc_reg_for_temp :: "vm_consts \<Rightarrow> parser_state \<Rightarrow> (vm_idx_t \<times> parser_state) parsing" where
  "jsp_alloc_reg_for_temp k st =
     and_then (JERRY_ASSERT (jsp_reg_max_for_local_var st = VM_IDX_EMPTY k)) (\<lambda>_.
     and_then (JERRY_ASSERT (jsp_reg_max_for_args st = VM_IDX_EMPTY k)) (\<lambda>_.
       let next_reg = jsp_reg_next st;
           st1 = st\<lparr>jsp_reg_next := jsp_reg_next st + 1\<rparr>
       in if next_reg > VM_REG_GENERAL_LAST k
          then Inl (PARSE_ERROR JSP_EARLY_ERROR_SYNTAX ''Not enough register variables'')
          else
            let st2 = (if jsp_reg_max_for_temps st1 < next_reg
                       then st1\<lparr>jsp_reg_max_for_temps := next_reg\<rparr> else st1)
            in Inr (next_reg, st2)))"

definition tmp_operand :: "vm_consts \<Rightarrow> parser_state \<Rightarrow> (jsp_operand_t \<times> parser_state) parsing" where
  "tmp_operand k st =
     and_then (jsp_alloc_reg_for_temp k st) (\<lambda>(reg, st1). Inr (Reg_operand reg, st1))"

subsection \<open>rewrite_varg_header_set_args_count\<close>

text \<open>
  \<open>args_count\<close> is a \<open>size_t\<close>; the casts to \<open>vm_idx_t\<close> keep its low eight bits.
  \<open>STACK_TOP\<close> of an empty stack fails an assertion. The two definitions before the
  function are the bodies of its groups of cases: the headers of function expressions,
  constructor calls and calls, and those of array and object literals.
\<close>

definition rewrite_call_like_header ::
  "vm_consts \<Rightarrow> nat \<Rightarrow> nat \<Rightarrow> nat list \<Rightarrow> op_meta \<Rightarrow> parser_state
     \<Rightarrow> (jsp_operand_t \<times> parser_state) parsing" where
  "rewrite_call_like_header k args_count header_oc rest om st =
     (if args_count > 255
      then Inl (PARSE_ERROR JSP_EARLY_ERROR_SYNTAX
             ''No more than 255 formal parameters / arguments are currently supported'')
      else
        and_then (tmp_operand k st) (\<lambda>(res, st1).
          case res of
            Reg_operand idx \<Rightarrow>
              let om1 = om\<lparr>raw_args := (raw_args om)[func_expr_n_arg_list := word_of_nat args_count]\<rparr>;
                  om2 = om1\<lparr>raw_args := (raw_args om1)[func_expr_n_lhs := idx]\<rparr>;
                  st2 = serializer_rewrite_op_meta header_oc om2 st1
              in Inr (res, st2\<lparr>varg_headers := rest\<rparr>)
          | _ \<Rightarrow> Inl JERRY_ASSERT_failed))"

definition rewrite_literal_header ::
  "vm_consts \<Rightarrow> nat \<Rightarrow> nat \<Rightarrow> nat list \<Rightarrow> op_meta \<Rightarrow> parser_state
     \<Rightarrow> (jsp_operand_t \<times> parser_state) parsing" where
  "rewrite_literal_header k args_count header_oc rest om st =
     (if args_count > 65535
      then Inl (PARSE_ERROR JSP_EARLY_ERROR_SYNTAX
             ''No more than 65535 formal parameters are currently supported'')
      else
        and_then (tmp_operand k st) (\<lambda>(res, st1).
          case res of
            Reg_operand idx \<Rightarrow>
              let om1 = om\<lparr>raw_args := (raw_args om)[obj_decl_list_1 := word_of_nat (args_count div 256)]\<rparr>;
                  om2 = om1\<lparr>raw_args := (raw_args om1)[obj_decl_list_2 := word_of_nat (args_count mod 256)]\<rparr>;
                  om3 = om2\<lparr>raw_args := (raw_args om2)[obj_decl_lhs := idx]\<rparr>;
                  st2 = serializer_rewrite_op_meta header_oc om3 st1
              in Inr (res, st2\<lparr>varg_headers := rest\<rparr>)
          | _ \<Rightarrow> Inl JERRY_ASSERT_failed))"

definition rewrite_varg_header_set_args_count ::
  "vm_consts \<Rightarrow> nat \<Rightarrow> parser_state \<Rightarrow> (jsp_operand_t \<times> parser_state) parsing" where
  "rewrite_varg_header_set_args_count k args_count st =
     (case varg_headers st of
        [] \<Rightarrow> Inl JERRY_ASSERT_failed
      | header_oc # rest \<Rightarrow>
          and_then (serializer_get_op_meta header_oc st) (\<lambda>om.
            case op_idx om of
              VM_OP_FUNC_EXPR_N \<Rightarrow> rewrite_call_like_header k args_count header_oc rest om st
            | VM_OP_CONSTRUCT_N \<Rightarrow> rewrite_call_like_header k args_count header_oc rest om st
            | VM_OP_CALL_N \<Rightarrow> rewrite_call_like_header k args_count header_oc rest om st
            | VM_OP_FUNC_DECL_N \<Rightarrow>
                if args_count > 255
                then Inl (PARSE_ERROR JSP_EARLY_ERROR_SYNTAX
                       ''No more than 255 formal parameters are currently supported'')
                else
                  let om1 = om\<lparr>raw_args := (raw_args om)[func_decl_n_arg_list := word_of_nat args_count]\<rparr>;
                      st1 = serializer_rewrite_op_meta header_oc om1 st
                  in Inr (empty_operand, st1\<lparr>varg_headers := rest\<rparr>)
            | VM_OP_ARRAY_DECL \<Rightarrow> rewrite_literal_header k args_count header_oc rest om st
            | VM_OP_OBJ_DECL \<Rightarrow> rewrite_literal_header k args_count header_oc rest om st
            | _ \<Rightarrow> Inl JERRY_UNREACHABLE_reached))"


subsection \<open>Moving variables and arguments to registers\<close>








subsection \<open>Rewriting the prelude of a scope\<close>


text \<open>
  \<open>jsp_reg_max_for_local_var\<close> is set to \<open>VM_IDX_EMPTY\<close> before the registers of the
  arguments are counted, so the count of the arguments is taken from
  \<open>jsp_reg_max_for_temps\<close>: the state \<open>st1\<close> is the one the second \<open>if\<close> reads.
\<close>

definition rewrite_reg_var_decl :: "vm_consts \<Rightarrow> nat \<Rightarrow> parser_state \<Rightarrow> parser_state parsing" where
  "rewrite_reg_var_decl k reg_var_decl_oc st =
     and_then (serializer_get_op_meta reg_var_decl_oc st) (\<lambda>opm.
     and_then (JERRY_ASSERT (op_idx opm = VM_OP_REG_VAR_DECL)) (\<lambda>_.
       let opm1 = opm\<lparr>raw_args := (raw_args opm)[reg_var_decl_tmp_regs_num :=
                     jsp_reg_max_for_temps st - VM_REG_GENERAL_FIRST k + 1]\<rparr>
       in
       and_then
         (if jsp_reg_max_for_local_var st \<noteq> VM_IDX_EMPTY k then
            and_then (JERRY_ASSERT (jsp_reg_max_for_local_var st \<ge> jsp_reg_max_for_temps st)) (\<lambda>_.
              Inr (opm1\<lparr>raw_args := (raw_args opm1)[reg_var_decl_local_var_regs_num :=
                          jsp_reg_max_for_local_var st - jsp_reg_max_for_temps st]\<rparr>,
                   st\<lparr>jsp_reg_max_for_local_var := VM_IDX_EMPTY k\<rparr>))
          else
            Inr (opm1\<lparr>raw_args := (raw_args opm1)[reg_var_decl_local_var_regs_num := 0]\<rparr>, st))
         (\<lambda>(opm2, st1).
       and_then
         (if jsp_reg_max_for_args st1 \<noteq> VM_IDX_EMPTY k then
            and_then
              (if jsp_reg_max_for_local_var st1 \<noteq> VM_IDX_EMPTY k then
                 and_then (JERRY_ASSERT (jsp_reg_max_for_args st1 \<ge> jsp_reg_max_for_local_var st1)) (\<lambda>_.
                   Inr (opm2\<lparr>raw_args := (raw_args opm2)[reg_var_decl_arg_regs_num :=
                               jsp_reg_max_for_args st1 - jsp_reg_max_for_local_var st1]\<rparr>))
               else
                 and_then (JERRY_ASSERT (jsp_reg_max_for_args st1 \<ge> jsp_reg_max_for_temps st1)) (\<lambda>_.
                   Inr (opm2\<lparr>raw_args := (raw_args opm2)[reg_var_decl_arg_regs_num :=
                               jsp_reg_max_for_args st1 - jsp_reg_max_for_temps st1]\<rparr>)))
              (\<lambda>opm3. Inr (opm3, st1\<lparr>jsp_reg_max_for_args := VM_IDX_EMPTY k\<rparr>))
          else
            Inr (opm2\<lparr>raw_args := (raw_args opm2)[reg_var_decl_arg_regs_num := 0]\<rparr>, st1))
         (\<lambda>(opm4, st2). Inr (serializer_rewrite_op_meta reg_var_decl_oc opm4 st2)))))"



subsection \<open>The end of parse_source_element_list\<close>













section \<open>Specification-level notions\<close>

subsection \<open>Chains of chunks\<close>

text \<open>
  \<open>chain nxt p xs q\<close>: following \<open>nxt\<close> from \<open>p\<close> visits exactly the chunks \<open>xs\<close>, none of
  them null, and arrives at \<open>q\<close>. The common list of free chunks is a chain from
  \<open>mem_free_chunk_p\<close> to null along the next pointers.
\<close>

primrec chain :: "(nat \<Rightarrow> nat) \<Rightarrow> nat \<Rightarrow> nat list \<Rightarrow> nat \<Rightarrow> bool" where
  "chain nxt p [] q \<longleftrightarrow> p = q"
| "chain nxt p (x # xs) q \<longleftrightarrow> p = x \<and> x \<noteq> 0 \<and> chain nxt (nxt x) xs q"

definition free_list :: "mem_pools_state \<Rightarrow> nat list \<Rightarrow> bool" where
  "free_list s xs \<longleftrightarrow> chain (next_of (chunk_mem s)) (mem_free_chunk_p s) xs 0"

subsection \<open>Pools and their chunks\<close>

definition chunk_addrs :: "mem_config \<Rightarrow> nat \<Rightarrow> nat list" where
  "chunk_addrs cfg p = map (\<lambda>i. p + MEM_POOL_CHUNK_SIZE cfg * i) [0..<MEM_POOL_CHUNKS_NUMBER cfg]"

definition cp_ok :: "mem_config \<Rightarrow> nat \<Rightarrow> bool" where
  "cp_ok cfg a \<longleftrightarrow> mem_compress_pointer cfg a \<noteq> MEM_CP_NULL
     \<and> mem_decompress_pointer cfg (mem_compress_pointer cfg a) = a"

definition block_ok :: "mem_config \<Rightarrow> nat \<Rightarrow> bool" where
  "block_ok cfg p \<longleftrightarrow> p \<noteq> 0 \<and> (\<forall>a\<in>set (chunk_addrs cfg p). a < 2 ^ 64 \<and> cp_ok cfg a)"

definition blocks_apart :: "mem_config \<Rightarrow> nat \<Rightarrow> nat \<Rightarrow> bool" where
  "blocks_apart cfg p q \<longleftrightarrow> p + MEM_POOL_SIZE cfg \<le> q \<or> q + MEM_POOL_SIZE cfg \<le> p"

definition heap_ok :: "mem_config \<Rightarrow> nat list \<Rightarrow> bool" where
  "heap_ok cfg bs \<longleftrightarrow> distinct bs \<and> (\<forall>p\<in>set bs. block_ok cfg p)
     \<and> (\<forall>p\<in>set bs. \<forall>q\<in>set bs. p \<noteq> q \<longrightarrow> blocks_apart cfg p q)"

definition static_asserts :: "mem_config \<Rightarrow> bool" where
  "static_asserts cfg \<longleftrightarrow> 8 \<le> MEM_POOL_CHUNK_SIZE cfg
     \<and> MEM_POOL_CHUNK_SIZE cfg mod MEM_ALIGNMENT cfg = 0"

definition valid_chunk :: "mem_config \<Rightarrow> nat list \<Rightarrow> nat \<Rightarrow> bool" where
  "valid_chunk cfg bs a \<longleftrightarrow> (\<exists>p\<in>set bs. a \<in> set (chunk_addrs cfg p))"

definition block_of :: "mem_config \<Rightarrow> nat list \<Rightarrow> nat \<Rightarrow> nat" where
  "block_of cfg bs a =
     (case find (\<lambda>b. b \<le> a \<and> a < b + MEM_POOL_SIZE cfg) bs of None \<Rightarrow> 0 | Some b \<Rightarrow> b)"

subsection \<open>First pass\<close>

definition nx :: "mem_pools_state \<Rightarrow> nat \<Rightarrow> nat" where
  "nx s = next_of (chunk_mem s)"

definition cp_next :: "mem_config \<Rightarrow> mem_pools_state \<Rightarrow> nat \<Rightarrow> nat" where
  "cp_next cfg s a = MEM_CP_GET_POINTER cfg (next_first_pool_free_chunk_cp (load_layout s a))"

definition local_head :: "mem_config \<Rightarrow> mem_pools_state \<Rightarrow> nat \<Rightarrow> nat" where
  "local_head cfg s c = MEM_CP_GET_POINTER cfg (free_chunks_of_the_pool_cp (load_layout s c))"

definition last_or_null :: "nat list \<Rightarrow> nat" where
  "last_or_null ks = (if ks = [] then 0 else last ks)"

definition is_first :: "mem_config \<Rightarrow> nat list \<Rightarrow> nat \<Rightarrow> bool" where
  "is_first cfg bs a \<longleftrightarrow> block_of cfg bs a = a"

text \<open>
  The eight lists of first chunks: list \<open>i\<close> is a chain along the compressed next pointers
  of the temporary layout, and each of its chunks carries the magic number and the id \<open>i\<close>.
\<close>

definition buckets_ok ::
  "mem_config \<Rightarrow> mem_pools_state \<Rightarrow> nat list \<Rightarrow> (nat \<Rightarrow> nat list) \<Rightarrow> bool" where
  "buckets_ok cfg s heads bk \<longleftrightarrow>
     length heads = 8 \<and>
     (\<forall>i<8. chain (cp_next cfg s) (heads ! i) (bk i) 0 \<and>
        (\<forall>c\<in>set (bk i). cp_ok cfg c \<and>
           hint_magic_num (load_layout s c) = hint_magic_num_value \<and>
           unat (layout_id (load_layout s c)) = i))"

definition cands :: "(nat \<Rightarrow> nat list) \<Rightarrow> nat set" where
  "cands bk = (\<Union>i<8. set (bk i))"

definition fresh_cands :: "mem_pools_state \<Rightarrow> (nat \<Rightarrow> nat list) \<Rightarrow> bool" where
  "fresh_cands s bk \<longleftrightarrow>
     (\<forall>c\<in>cands bk. free_chunks_num (load_layout s c) = 1
        \<and> free_chunks_of_the_pool_cp (load_layout s c) = MEM_CP_NULL)"

text \<open>
  The local lists of the pools whose first chunk is a candidate: the chunks counted in the
  first chunk, chained along their next pointers from the local head.
\<close>

definition locals_ok ::
  "mem_config \<Rightarrow> mem_pools_state \<Rightarrow> nat set \<Rightarrow> (nat \<Rightarrow> nat list) \<Rightarrow> bool" where
  "locals_ok cfg s C loc \<longleftrightarrow>
     (\<forall>c\<in>C. chain (nx s) (local_head cfg s c) (loc c) 0
        \<and> unat (free_chunks_num (load_layout s c)) = 1 + length (loc c))"

subsection \<open>The invariant of the pool manager\<close>

definition pool_is_free :: "mem_config \<Rightarrow> nat list \<Rightarrow> nat \<Rightarrow> bool" where
  "pool_is_free cfg xs p \<longleftrightarrow> set (chunk_addrs cfg p) \<subseteq> set xs"

definition pools_inv :: "mem_config \<Rightarrow> mem_pools_state \<Rightarrow> nat list \<Rightarrow> bool" where
  "pools_inv cfg s xs \<longleftrightarrow>
     static_asserts cfg \<and> heap_ok cfg (heap_blocks s) \<and> free_list s xs
     \<and> mem_free_chunks_number s = length xs
     \<and> (\<forall>x\<in>set xs. valid_chunk cfg (heap_blocks s) x)
     \<and> (heap_blocks s \<noteq> [] \<longrightarrow>
           1 \<le> MEM_POOL_CHUNKS_NUMBER cfg \<and> MEM_POOL_CHUNKS_NUMBER cfg \<le> 255)"

text \<open>
  A small configuration for concrete runs: pools of two chunks of eight bytes in heap blocks
  of sixteen bytes of data, compressed pointers counting in units of eight bytes.
\<close>

definition example_config :: mem_config where
  "example_config = \<lparr>MEM_POOL_CHUNKS_NUMBER = 2, MEM_POOL_CHUNK_SIZE = 8, MEM_ALIGNMENT = 8,
     mem_compress_pointer = (\<lambda>p. word_of_nat (p div 8)),
     mem_decompress_pointer = (\<lambda>c. 8 * unat c),
     CONFIG_MEM_POOL_MAX_CHUNKS_NUMBER_LOG = 8,
     mem_heap_get_chunked_block_data_size = 16\<rparr>"

text \<open>Two pools at 64 and 128; the chunk at 72 is in use, the other three are free.\<close>

definition example_one_used :: mem_pools_state where
  "example_one_used = \<lparr>chunk_mem = (\<lambda>_. 0)(64 := 128, 128 := 136, 136 := 0),
     mem_free_chunks_number = 3, mem_free_chunk_p = 64, heap_blocks = [64, 128]\<rparr>"

text \<open>One pool at 64 whose first chunk is in use and whose second chunk is free.\<close>

definition example_first_used :: mem_pools_state where
  "example_first_used = \<lparr>chunk_mem = (\<lambda>_. 0)(64 := 5, 72 := 0),
     mem_free_chunks_number = 1, mem_free_chunk_p = 72, heap_blocks = [64]\<rparr>"

text \<open>
  What is assumed of the heap when it answers a request for a block: the chunks its garbage
  collector frees are chunks of held pools that are not free already, each freed once; a
  block it hands out is new, aligned, addressable through compressed pointers and apart from
  the blocks handed out before.
\<close>

definition heap_answer_ok :: "mem_config \<Rightarrow> mem_pools_state \<Rightarrow> nat list \<Rightarrow> heap_answer \<Rightarrow> bool" where
  "heap_answer_ok cfg s xs a \<longleftrightarrow>
     distinct (gc_freed a)
     \<and> (\<forall>c\<in>set (gc_freed a). valid_chunk cfg (heap_blocks s) c \<and> c \<notin> set xs)
     \<and> (new_block a \<noteq> 0 \<longrightarrow>
          block_ok cfg (new_block a) \<and> new_block a mod MEM_ALIGNMENT cfg = 0
          \<and> new_block a \<notin> set (heap_blocks s)
          \<and> (\<forall>q\<in>set (heap_blocks s). blocks_apart cfg (new_block a) q))"

text \<open>
  The states of the pool manager between two calls. It starts with \<open>mem_pools_init\<close> and no
  pool; a call of \<open>mem_pools_alloc\<close>, \<open>mem_pools_free\<close> or \<open>mem_pools_remove_empty_pools\<close> that
  returns leads to the next state. \<open>mem_pools_free\<close> is called on a chunk of a pool that is
  not free, and the owner of such a chunk may write to it.
\<close>

inductive reachable :: "mem_config \<Rightarrow> mem_pools_state \<Rightarrow> bool" for cfg :: mem_config where
  after_init: "static_asserts cfg \<Longrightarrow> heap_blocks s = [] \<Longrightarrow> reachable cfg (mem_pools_init s)"
| after_alloc: "reachable cfg s \<Longrightarrow> free_list s xs \<Longrightarrow> heap_answer_ok cfg s xs a
    \<Longrightarrow> mem_pools_alloc cfg a s = Some (Inr (p, s')) \<Longrightarrow> reachable cfg s'"
| after_free: "reachable cfg s \<Longrightarrow> free_list s xs \<Longrightarrow> valid_chunk cfg (heap_blocks s) p
    \<Longrightarrow> p \<notin> set xs \<Longrightarrow> mem_pools_free p s = Some (Inr s') \<Longrightarrow> reachable cfg s'"
| after_compact: "reachable cfg s \<Longrightarrow> mem_pools_remove_empty_pools cfg s = Some (Inr s')
    \<Longrightarrow> reachable cfg s'"
| after_write: "reachable cfg s \<Longrightarrow> free_list s xs \<Longrightarrow> p \<notin> set xs
    \<Longrightarrow> reachable cfg (s\<lparr>chunk_mem := (chunk_mem s)(p := v)\<rparr>)"

text \<open>The allocator before its first pool.\<close>

definition example_empty :: mem_pools_state where
  "example_empty = \<lparr>chunk_mem = (\<lambda>_. 0), mem_free_chunks_number = 0, mem_free_chunk_p = 0,
     heap_blocks = []\<rparr>"

text \<open>
  The example configuration with pools of 256 chunks, the largest number that the assertions
  of \<open>mem_pool_init\<close> admit when \<open>CONFIG_MEM_POOL_MAX_CHUNKS_NUMBER_LOG\<close> is 8, in heap blocks of
  2048 bytes of data.
\<close>

definition example_config_256 :: mem_config where
  "example_config_256 = example_config\<lparr>MEM_POOL_CHUNKS_NUMBER := 256,
     mem_heap_get_chunked_block_data_size := 2048\<rparr>"

text \<open>
  Sequences of calls. \<open>alloc_chunks\<close> calls \<open>mem_pools_alloc\<close> once for each element of a list
  of heap answers (the answer is what the heap does if that call asks it for a block) and
  collects the chunks returned; \<open>free_chunks\<close> calls \<open>mem_pools_free\<close> on each chunk of a
  list, in the order of the list.
\<close>

fun alloc_chunks ::
  "mem_config \<Rightarrow> heap_answer list \<Rightarrow> mem_pools_state \<Rightarrow> (nat list \<times> mem_pools_state) outcome" where
  "alloc_chunks cfg [] s = done_with ([], s)"
| "alloc_chunks cfg (a # as) s =
     then_do (mem_pools_alloc cfg a s) (\<lambda>(p, s1).
     then_do (alloc_chunks cfg as s1) (\<lambda>(ps, s2). done_with (p # ps, s2)))"

fun free_chunks :: "nat list \<Rightarrow> mem_pools_state \<Rightarrow> mem_pools_state outcome" where
  "free_chunks [] s = done_with s"
| "free_chunks (p # ps) s = then_do (mem_pools_free p s) (free_chunks ps)"

text \<open>
  Values of the constants as the headers of the engine could give them, for concrete runs.
\<close>

definition example_vm_consts :: vm_consts where
  "example_vm_consts = \<lparr>VM_REG_GENERAL_FIRST = 130, VM_REG_GENERAL_LAST = 252, VM_IDX_EMPTY = 255,
     VM_IDX_REWRITE_LITERAL_UID = 254, VM_IDX_REWRITE_GENERAL_CASE = 253,
     VM_OP_ARG_TYPE_VARIABLE = 6,
     OPCODE_META_TYPE_VARG = 1, OPCODE_META_TYPE_FUNCTION_END = 5,
     OPCODE_META_TYPE_SCOPE_CODE_FLAGS = 9, OPCODE_META_TYPE_VARG_PROP_DATA = 2,
     OPCODE_META_TYPE_VARG_PROP_GETTER = 3, OPCODE_META_TYPE_VARG_PROP_SETTER = 4,
     OPCODE_SCOPE_CODE_FLAGS_STRICT = 1, OPCODE_SCOPE_CODE_FLAGS_NOT_REF_ARGUMENTS_IDENTIFIER = 2,
     OPCODE_SCOPE_CODE_FLAGS_NOT_REF_EVAL_IDENTIFIER = 4,
     OPCODE_SCOPE_CODE_FLAGS_ARGUMENTS_ON_REGISTERS = 8, OPCODE_SCOPE_CODE_FLAGS_NO_LEX_ENV = 16\<rparr>"

text \<open>A scope with the instructions \<open>is\<close> and nothing else.\<close>

definition example_scope :: "op_meta list \<Rightarrow> scopes_tree_int" where
  "example_scope is = \<lparr>scope_type = SCOPE_TYPE_GLOBAL, strict_mode = False, ref_arguments = False,
     ref_eval = False, contains_with = False, contains_try = False, contains_delete = False,
     contains_functions = False, children_num = 0, instrs = is, variables = [],
     param_count = 0, local_count = 0\<rparr>"

text \<open>
  The dumper at the end of the argument list of a call \<open>g ()\<close> whose header is the only
  instruction so far, \<open>jsp_reg_next\<close> being \<open>next\<close>.
\<close>

definition example_call_state :: "vm_idx_t \<Rightarrow> parser_state" where
  "example_call_state next = \<lparr>jsp_reg_next = next, jsp_reg_max_for_temps = 252,
     jsp_reg_max_for_local_var = 255, jsp_reg_max_for_args = 255, jsp_reg_id_stack = [],
     varg_headers = [0], function_ends = [],
     scope = example_scope [\<lparr>op_idx = VM_OP_CALL_N, raw_args = [253, 254, 253],
                              lit_id = [NOT_A_LITERAL, Literal 1, NOT_A_LITERAL]\<rparr>]\<rparr>"

text \<open>The same for the header of a function declaration.\<close>

definition example_decl_state :: parser_state where
  "example_decl_state = \<lparr>jsp_reg_next = 130, jsp_reg_max_for_temps = 130,
     jsp_reg_max_for_local_var = 255, jsp_reg_max_for_args = 255, jsp_reg_id_stack = [],
     varg_headers = [0], function_ends = [],
     scope = example_scope [\<lparr>op_idx = VM_OP_FUNC_DECL_N, raw_args = [254, 253, 255],
                              lit_id = [Literal 1, NOT_A_LITERAL, NOT_A_LITERAL]\<rparr>]\<rparr>"

text \<open>The same for the header of an array literal.\<close>

definition example_array_state :: parser_state where
  "example_array_state = \<lparr>jsp_reg_next = 130, jsp_reg_max_for_temps = 130,
     jsp_reg_max_for_local_var = 255, jsp_reg_max_for_args = 255, jsp_reg_id_stack = [],
     varg_headers = [0], function_ends = [],
     scope = example_scope [\<lparr>op_idx = VM_OP_ARRAY_DECL, raw_args = [253, 253, 253],
                              lit_id = [NOT_A_LITERAL, NOT_A_LITERAL, NOT_A_LITERAL]\<rparr>]\<rparr>"






section \<open>Proofs\<close>

section \<open>Properties of the pool allocator\<close>

subsection \<open>Outcomes, layouts, size_t\<close>

lemma then_do_simps [simp]:
  "then_do None f = None"
  "then_do (Some (Inl e)) f = Some (Inl e)"
  "then_do (Some (Inr x)) f = f x"
  "then_do (done_with x) f = f x"
  by (simp_all add: then_do_def done_with_def)

lemma jerry_assert_simps [simp]:
  "jerry_assert True = Some (Inr ())"
  "jerry_assert False = Some (Inl Assertion_failed)"
  by (simp_all add: jerry_assert_def)

lemma then_do_eq_Inr:
  "then_do r f = Some (Inr y) \<longleftrightarrow> (\<exists>x. r = Some (Inr x) \<and> f x = Some (Inr y))"
  by (auto simp: then_do_def split: option.splits sum.splits)

lemma chunk_as_layout_inverse [simp]: "chunk_as_layout (layout_as_chunk l) = l"
  apply (cases l)
  apply (simp add: chunk_as_layout_def layout_as_chunk_def)
  apply (intro conjI bit_word_eqI)
      apply (auto simp add: bit_simps dest: bit_imp_le_length)
  done

lemma size_t_add_small: "a + b < 2 ^ 64 \<Longrightarrow> size_t_add a b = a + b"
  by (simp add: size_t_add_def)

lemma size_t_sub_small: "b \<le> a \<Longrightarrow> a < 2 ^ 64 \<Longrightarrow> size_t_sub a b = a - b"
proof -
  assume le: "b \<le> a" and lt: "a < 2 ^ 64"
  then have b: "b mod 2 ^ 64 = b" by simp
  have "a + (2 ^ 64 - b) = (a - b) + 2 ^ 64" using le lt by simp
  then have "(a + (2 ^ 64 - b)) mod 2 ^ 64 = (a - b) mod 2 ^ 64"
    by (metis mod_add_self2)
  with b lt show ?thesis by (simp add: size_t_sub_def)
qed

lemma next_of_lt: "next_of m p < 2 ^ 64"
  using unsigned_less [of "m p", where 'a = nat] by (simp add: next_of_def)

lemma unat_word_of_nat_64: "v < 2 ^ 64 \<Longrightarrow> unat (word_of_nat v :: 64 word) = v"
  by (simp add: unat_of_nat)

subsection \<open>Reading the state after a store\<close>

lemma store_ptr_fields [simp]:
  "mem_free_chunk_p (store_ptr p v s) = mem_free_chunk_p s"
  "mem_free_chunks_number (store_ptr p v s) = mem_free_chunks_number s"
  "heap_blocks (store_ptr p v s) = heap_blocks s"
  "chunk_mem (store_ptr p v s) = (chunk_mem s)(p := word_of_nat v)"
  by (simp_all add: store_ptr_def)

lemma store_layout_fields [simp]:
  "mem_free_chunk_p (store_layout p l s) = mem_free_chunk_p s"
  "mem_free_chunks_number (store_layout p l s) = mem_free_chunks_number s"
  "heap_blocks (store_layout p l s) = heap_blocks s"
  "chunk_mem (store_layout p l s) = (chunk_mem s)(p := layout_as_chunk l)"
  by (simp_all add: store_layout_def)

lemma block_start_cong [simp]:
  "mem_heap_get_chunked_block_start cfg (store_ptr p v s) = mem_heap_get_chunked_block_start cfg s"
  "mem_heap_get_chunked_block_start cfg (store_layout p l s) = mem_heap_get_chunked_block_start cfg s"
  "mem_heap_get_chunked_block_start cfg (s\<lparr>mem_free_chunk_p := h\<rparr>) = mem_heap_get_chunked_block_start cfg s"
  by (simp_all add: mem_heap_get_chunked_block_start_def fun_eq_iff)

lemma chain_append:
  "chain nxt p (xs @ ys) q \<longleftrightarrow> (\<exists>r. chain nxt p xs r \<and> chain nxt r ys q)"
  by (induction xs arbitrary: p) auto

lemma chain_cong:
  "(\<And>a. a \<in> set xs \<Longrightarrow> nxt' a = nxt a) \<Longrightarrow> chain nxt' p xs q = chain nxt p xs q"
  by (induction xs arbitrary: p) auto

lemma chain_upd [simp]: "a \<notin> set xs \<Longrightarrow> chain (nxt(a := v)) p xs q = chain nxt p xs q"
  by (rule chain_cong) auto

lemma chain_nonzero: "chain nxt p xs q \<Longrightarrow> 0 \<notin> set xs"
  by (induction xs arbitrary: p) auto

lemma chain_null [simp]: "chain nxt 0 xs q \<longleftrightarrow> xs = [] \<and> q = 0"
  by (cases xs) auto

lemma chain_unique: "chain nxt p xs 0 \<Longrightarrow> chain nxt p ys 0 \<Longrightarrow> xs = ys"
proof (induction xs arbitrary: p ys)
  case Nil
  then show ?case by (cases ys) auto
next
  case (Cons x xs)
  then show ?case by (cases ys) auto
qed

lemma chain_head_not_in_tail:
  assumes "chain nxt (nxt x) xs 0"
  shows "x \<notin> set xs"
proof
  assume "x \<in> set xs"
  then obtain as bs where xs: "xs = as @ x # bs"
    by (auto simp: in_set_conv_decomp)
  with assms obtain r where "chain nxt r (x # bs) 0"
    by (auto simp: chain_append)
  then have "chain nxt (nxt x) bs 0" by simp
  with assms have "xs = bs" by (rule chain_unique)
  with xs show False by simp
qed

lemma chain_distinct: "chain nxt p xs 0 \<Longrightarrow> distinct xs"
  by (induction xs arbitrary: p) (auto dest: chain_head_not_in_tail)

lemma chain_skip:
  assumes "chain nxt h (ks @ x # xs) q" and "ks \<noteq> []" and "distinct (ks @ x # xs)"
    and "nxt' (last ks) = nxt x" and "\<forall>a. a \<noteq> last ks \<longrightarrow> nxt' a = nxt a"
  shows "chain nxt' h (ks @ xs) q"
  using assms
proof (induction ks arbitrary: h)
  case Nil
  then show ?case by simp
next
  case (Cons k ks)
  show ?case
  proof (cases "ks = []")
    case True
    with Cons.prems have "chain nxt (nxt x) xs q" and k: "h = k" "k \<noteq> 0" "nxt' k = nxt x"
      and "k \<notin> set xs" and "\<forall>a. a \<noteq> k \<longrightarrow> nxt' a = nxt a"
      by auto
    then have "chain nxt' (nxt x) xs q"
      by (subst chain_cong [of xs nxt' nxt]) auto
    with True k show ?thesis by simp
  next
    case False
    with Cons.prems have "chain nxt (nxt k) (ks @ x # xs) q" and k: "h = k" "k \<noteq> 0"
      and "distinct (ks @ x # xs)" and "k \<noteq> last ks" and "nxt' (last ks) = nxt x"
      and "\<forall>a. a \<noteq> last ks \<longrightarrow> nxt' a = nxt a"
      by auto
    with Cons.IH [of "nxt k"] False show ?thesis by simp
  qed
qed

lemma chain_link:
  assumes "chain nxt p xs 0" and "xs \<noteq> []" and "chain nxt h ys 0" and "set xs \<inter> set ys = {}"
    and "nxt' (last xs) = h" and "\<forall>a. a \<noteq> last xs \<longrightarrow> nxt' a = nxt a"
  shows "chain nxt' p (xs @ ys) 0"
  using assms
proof (induction xs arbitrary: p)
  case Nil
  then show ?case by simp
next
  case (Cons x xs)
  have dist: "x \<notin> set xs" using Cons.prems(1) by (auto dest: chain_head_not_in_tail)
  show ?case
  proof (cases "xs = []")
    case True
    with Cons.prems have "chain nxt h ys 0" and "x \<notin> set ys" and "\<forall>a. a \<noteq> x \<longrightarrow> nxt' a = nxt a"
      by auto
    then have "chain nxt' h ys 0"
      by (subst chain_cong [of ys nxt' nxt]) auto
    with True Cons.prems show ?thesis by simp
  next
    case False
    with Cons.prems dist have "chain nxt' (nxt x) (xs @ ys) 0" and "x \<noteq> last xs"
      and "\<forall>a. a \<noteq> last xs \<longrightarrow> nxt' a = nxt a"
      by (auto intro!: Cons.IH)
    with False Cons.prems show ?thesis by simp
  qed
qed

lemma block_start_eq:
  "mem_heap_get_chunked_block_start cfg s a = block_of cfg (heap_blocks s) a"
  by (simp add: mem_heap_get_chunked_block_start_def block_of_def)

lemma chunk_addrs_range:
  assumes "a \<in> set (chunk_addrs cfg p)" and "0 < MEM_POOL_CHUNK_SIZE cfg"
  shows "p \<le> a \<and> a < p + MEM_POOL_SIZE cfg"
proof -
  from assms(1) obtain i where i: "i < MEM_POOL_CHUNKS_NUMBER cfg"
    and a: "a = p + MEM_POOL_CHUNK_SIZE cfg * i"
    by (auto simp: chunk_addrs_def)
  have "MEM_POOL_CHUNK_SIZE cfg * i < MEM_POOL_CHUNK_SIZE cfg * MEM_POOL_CHUNKS_NUMBER cfg"
    using i assms(2) by simp
  then show ?thesis using a by (simp add: MEM_POOL_SIZE_def mult.commute)
qed

lemma block_of_chunk:
  assumes "heap_ok cfg bs" and "0 < MEM_POOL_CHUNK_SIZE cfg"
    and "p \<in> set bs" and "a \<in> set (chunk_addrs cfg p)"
  shows "block_of cfg bs a = p"
proof -
  let ?P = "\<lambda>b. b \<le> a \<and> a < b + MEM_POOL_SIZE cfg"
  have Pp: "?P p" using chunk_addrs_range [OF assms(4) assms(2)] .
  have uniq: "b = p" if "b \<in> set bs" and "?P b" for b
  proof (rule ccontr)
    assume "b \<noteq> p"
    with assms(1,3) that(1) have "blocks_apart cfg b p" by (auto simp: heap_ok_def)
    with Pp that(2) show False by (auto simp: blocks_apart_def)
  qed
  from Pp assms(3) obtain b where f: "find ?P bs = Some b"
    by (cases "find ?P bs") (auto simp: find_None_iff)
  then have "b \<in> set bs" and "?P b"
    by (auto simp: find_Some_iff in_set_conv_nth)
  with uniq have "b = p" by blast
  with f show ?thesis by (simp add: block_of_def)
qed

lemma block_of_valid:
  assumes "heap_ok cfg bs" and "0 < MEM_POOL_CHUNK_SIZE cfg" and "valid_chunk cfg bs a"
  shows "block_of cfg bs a \<in> set bs \<and> a \<in> set (chunk_addrs cfg (block_of cfg bs a))"
  using assms block_of_chunk [OF assms(1,2)] by (auto simp: valid_chunk_def)

lemma valid_chunk_props:
  assumes "heap_ok cfg bs" and "valid_chunk cfg bs a"
  shows "a < 2 ^ 64" and "cp_ok cfg a" and "a \<noteq> 0"
proof -
  from assms obtain p where p: "p \<in> set bs" "a \<in> set (chunk_addrs cfg p)"
    by (auto simp: valid_chunk_def)
  with assms(1) have b: "block_ok cfg p" by (simp add: heap_ok_def)
  with p show "a < 2 ^ 64" and "cp_ok cfg a" by (auto simp: block_ok_def)
  from p(2) have "p \<le> a" by (auto simp: chunk_addrs_def)
  with b show "a \<noteq> 0" by (auto simp: block_ok_def)
qed

lemma first_chunk_in_addrs:
  "1 \<le> MEM_POOL_CHUNKS_NUMBER cfg \<Longrightarrow> p \<in> set (chunk_addrs cfg p)"
  by (auto simp: chunk_addrs_def image_iff intro!: bexI [of _ 0])

lemma distinct_chunk_addrs: "0 < MEM_POOL_CHUNK_SIZE cfg \<Longrightarrow> distinct (chunk_addrs cfg p)"
  by (simp add: chunk_addrs_def distinct_map inj_on_def)

lemma length_chunk_addrs [simp]: "length (chunk_addrs cfg p) = MEM_POOL_CHUNKS_NUMBER cfg"
  by (simp add: chunk_addrs_def)

lemma MEM_CP_roundtrip:
  "p = 0 \<or> cp_ok cfg p \<Longrightarrow> MEM_CP_GET_POINTER cfg (MEM_CP_SET_POINTER cfg p) = p"
  by (auto simp: MEM_CP_GET_POINTER_def MEM_CP_SET_POINTER_def cp_ok_def)

lemma MEM_CP_roundtrip_non_null:
  "cp_ok cfg p \<Longrightarrow> MEM_CP_GET_POINTER cfg (mem_compress_pointer cfg p) = p"
  by (auto simp: MEM_CP_GET_POINTER_def cp_ok_def)

lemma cp_ok_bound:
  assumes "distinct xs" and "\<forall>x\<in>set xs. cp_ok cfg x"
  shows "length xs \<le> 2 ^ 16"
proof -
  have "inj_on (mem_compress_pointer cfg) (set xs)"
    using assms(2) by (auto simp: inj_on_def cp_ok_def) metis
  then have "card (mem_compress_pointer cfg ` set xs) = card (set xs)"
    by (rule card_image)
  moreover have "card (mem_compress_pointer cfg ` set xs) \<le> card (UNIV :: 16 word set)"
    by (rule card_mono) auto
  ultimately show ?thesis using assms(1) by (simp add: distinct_card card_word)
qed

lemma nx_lt: "nx s a < 2 ^ 64"
  using next_of_lt [of "chunk_mem s" a] by (simp add: nx_def)

lemma free_list_nx: "free_list s xs \<longleftrightarrow> chain (nx s) (mem_free_chunk_p s) xs 0"
  by (simp add: free_list_def nx_def)

lemma nx_store_ptr:
  "v < 2 ^ 64 \<Longrightarrow> nx (store_ptr p v s) a = (if a = p then v else nx s a)"
  by (simp add: nx_def next_of_def unat_of_nat)

lemma nx_store_ptr_nx: "nx (store_ptr p (nx s0 b) s) a = (if a = p then nx s0 b else nx s a)"
  by (rule nx_store_ptr) (rule nx_lt)

lemma nx_store_layout:
  "nx (store_layout p l s) a = (if a = p then unat (layout_as_chunk l) else nx s a)"
  by (simp add: nx_def next_of_def)

lemma nx_head_upd [simp]: "nx (s\<lparr>mem_free_chunk_p := h\<rparr>) = nx s"
  by (simp add: nx_def fun_eq_iff)

lemma load_layout_store_layout:
  "load_layout (store_layout p l s) a = (if a = p then l else load_layout s a)"
  by (simp add: load_layout_def)

lemma load_layout_store_ptr:
  "load_layout (store_ptr p v s) a
     = (if a = p then chunk_as_layout (word_of_nat v) else load_layout s a)"
  by (simp add: load_layout_def)

lemma load_layout_head_upd [simp]: "load_layout (s\<lparr>mem_free_chunk_p := h\<rparr>) = load_layout s"
  by (simp add: load_layout_def fun_eq_iff)

lemma unlink_free_chunk_correct:
  assumes "chain (nx s) (mem_free_chunk_p s) ks x" and "chain (nx s) x (x # xs) 0"
  shows "\<exists>s1. unlink_free_chunk (last_or_null ks) x (nx s x) s = Some (Inr s1)
           \<and> chain (nx s1) (mem_free_chunk_p s1) ks (nx s x)
           \<and> chain (nx s1) (nx s x) xs 0
           \<and> heap_blocks s1 = heap_blocks s
           \<and> mem_free_chunks_number s1 = mem_free_chunks_number s
           \<and> (\<forall>a. a \<notin> set ks \<longrightarrow> chunk_mem s1 a = chunk_mem s a)"
proof (cases "ks = []")
  case True
  with assms show ?thesis
    by (auto simp: unlink_free_chunk_def last_or_null_def done_with_def)
next
  case False
  let ?s1 = "store_ptr (last ks) (nx s x) s"
  from assms have all: "chain (nx s) (mem_free_chunk_p s) (ks @ x # xs) 0"
    by (auto simp: chain_append)
  then have dist: "distinct (ks @ x # xs)" by (rule chain_distinct)
  have nz: "last ks \<noteq> 0"
    using chain_nonzero [OF all] False last_in_set [of ks] by (metis Un_iff set_append)
  have "chain (nx ?s1) (mem_free_chunk_p s) (ks @ xs) 0"
    by (rule chain_skip [OF all False dist]) (simp_all add: nx_store_ptr_nx)
  then obtain r where r: "chain (nx ?s1) (mem_free_chunk_p s) ks r" "chain (nx ?s1) r xs 0"
    by (auto simp: chain_append)
  have "last ks \<in> set ks" using False by simp
  then have "last ks \<notin> set xs" using dist by auto
  then have xs1: "chain (nx ?s1) (nx s x) xs 0"
    using assms(2) by (subst chain_cong [of xs "nx ?s1" "nx s"]) (auto simp: nx_store_ptr_nx)
  have "r = nx s x"
  proof (cases xs)
    case Nil
    with r(2) xs1 show ?thesis by simp
  next
    case (Cons y ys)
    with r(2) xs1 show ?thesis by simp
  qed
  with r xs1 nz False show ?thesis
    by (auto simp: unlink_free_chunk_def last_or_null_def done_with_def)
qed

lemma pass1_id:
  assumes "n < 2 ^ 32"
  shows "unat (ucast ((word_of_nat n :: 32 word)
           mod word_of_nat number_of_list_of_pools_with_free_first_chunk) :: 8 word) = n mod 8"
proof -
  have "unat ((word_of_nat n :: 32 word) mod 8) = n mod 8"
    using assms by (simp add: unat_mod unat_of_nat)
  moreover have "n mod 8 < 2 ^ 8" by (rule less_trans [of _ 8]) simp_all
  ultimately show ?thesis
    by (simp add: number_of_list_of_pools_with_free_first_chunk_def unsigned_ucast_eq take_bit_nat_eq_self)
qed

lemma cands_upd: "i < 8 \<Longrightarrow> cands (bk(i := x # bk i)) = insert x (cands bk)"
  by (auto simp: cands_def split: if_splits)

lemma in_cands_iff: "c \<in> cands bk \<longleftrightarrow> (\<exists>i<8. c \<in> set (bk i))"
  by (auto simp: cands_def)

lemma buckets_ok_frame:
  assumes "buckets_ok cfg s heads bk" and "\<forall>c\<in>cands bk. chunk_mem s' c = chunk_mem s c"
  shows "buckets_ok cfg s' heads bk"
proof -
  have ll: "load_layout s' c = load_layout s c" if "c \<in> set (bk i)" "i < 8" for c i
  proof -
    from that have "c \<in> cands bk" by (auto simp: in_cands_iff)
    with assms(2) show ?thesis by (simp add: load_layout_def)
  qed
  have "chain (cp_next cfg s') (heads ! i) (bk i) 0 = chain (cp_next cfg s) (heads ! i) (bk i) 0"
    if "i < 8" for i
    by (rule chain_cong) (use that ll in \<open>auto simp: cp_next_def\<close>)
  with assms(1) ll show ?thesis
    by (auto simp: buckets_ok_def)
qed

lemma fresh_cands_frame:
  assumes "fresh_cands s bk" and "\<forall>c\<in>cands bk. chunk_mem s' c = chunk_mem s c"
  shows "fresh_cands s' bk"
  using assms by (simp add: fresh_cands_def load_layout_def)

lemma buckets_ok_push:
  assumes ok: "buckets_ok cfg s heads bk" and i: "i < 8" and x: "x \<noteq> 0" "cp_ok cfg x" "x \<notin> cands bk"
    and mem: "\<forall>c\<in>cands bk. chunk_mem s' c = chunk_mem s c"
    and lx: "load_layout s' x = l"
    and l: "next_first_pool_free_chunk_cp l = MEM_CP_SET_POINTER cfg (heads ! i)"
      "hint_magic_num l = hint_magic_num_value" "unat (layout_id l) = i"
  shows "buckets_ok cfg s' (heads[i := x]) (bk(i := x # bk i))"
proof -
  have ok': "buckets_ok cfg s' heads bk" using ok mem by (rule buckets_ok_frame)
  have len: "length heads = 8" using ok by (simp add: buckets_ok_def)
  have hd_ok: "heads ! i = 0 \<or> cp_ok cfg (heads ! i)"
  proof (cases "bk i")
    case Nil
    with ok i show ?thesis by (auto simp: buckets_ok_def)
  next
    case (Cons c cs)
    with ok i have "heads ! i = c" "cp_ok cfg c" by (auto simp: buckets_ok_def)
    then show ?thesis by simp
  qed
  have nxt: "cp_next cfg s' x = heads ! i"
    using lx l(1) hd_ok by (simp add: cp_next_def MEM_CP_roundtrip)
  have "x \<notin> set (bk i)" using x(3) i by (auto simp: in_cands_iff)
  have "chain (cp_next cfg s') (heads ! i) (bk i) 0"
    using ok' i by (simp add: buckets_ok_def)
  with nxt x have ci: "chain (cp_next cfg s') x (x # bk i) 0" by simp
  show ?thesis
    unfolding buckets_ok_def
  proof (intro conjI allI impI)
    show "length (heads[i := x]) = 8" using len by simp
  next
    fix j :: nat assume j: "j < 8"
    show "chain (cp_next cfg s') (heads[i := x] ! j) ((bk(i := x # bk i)) j) 0"
      using ci ok' j i len by (auto simp: buckets_ok_def nth_list_update)
    show "\<forall>c\<in>set ((bk(i := x # bk i)) j). cp_ok cfg c \<and>
           hint_magic_num (load_layout s' c) = hint_magic_num_value \<and>
           unat (layout_id (load_layout s' c)) = j"
      using ok' j i x(2) lx l(2,3) by (auto simp: buckets_ok_def)
  qed
qed

lemma pass1_loop:
  assumes "chain (nx s) (mem_free_chunk_p s) ks iter" and "chain (nx s) iter xs 0"
    and "buckets_ok cfg s heads bk" and "fresh_cands s bk"
    and "cands bk \<inter> set (ks @ xs) = {}"
    and "\<forall>x\<in>set xs. cp_ok cfg x"
    and "n + length xs < 2 ^ 32"
  shows "\<exists>s' heads' bk'.
      remove_empty_pools_pass1 cfg s heads (word_of_nat n) iter (last_or_null ks)
        = Some (Inr (s', heads',
            word_of_nat (n + length (filter (is_first cfg (heap_blocks s)) xs))))
      \<and> free_list s' (ks @ filter (\<lambda>x. \<not> is_first cfg (heap_blocks s) x) xs)
      \<and> buckets_ok cfg s' heads' bk' \<and> fresh_cands s' bk'
      \<and> cands bk' = cands bk \<union> {x \<in> set xs. is_first cfg (heap_blocks s) x}
      \<and> heap_blocks s' = heap_blocks s
      \<and> mem_free_chunks_number s' = mem_free_chunks_number s
      \<and> (\<forall>a. a \<notin> set (ks @ xs) \<longrightarrow> chunk_mem s' a = chunk_mem s a)"
  using assms
proof (induction xs arbitrary: s ks iter heads bk n)
  case Nil
  then have "iter = 0" by simp
  with Nil show ?case
    by (subst remove_empty_pools_pass1.simps) (auto simp: free_list_nx)
next
  case (Cons x xs)
  from Cons.prems(2) have x: "iter = x" "x \<noteq> 0" and tl: "chain (nx s) (nx s x) xs 0"
    by auto
  have all: "chain (nx s) (mem_free_chunk_p s) (ks @ x # xs) 0"
    using Cons.prems(1,2) by (auto simp: chain_append)
  then have dist: "distinct (ks @ x # xs)" by (rule chain_distinct)
  let ?bs = "heap_blocks s"
  show ?case
  proof (cases "is_first cfg ?bs x")
    case True
    from unlink_free_chunk_correct [OF Cons.prems(1) [unfolded x] Cons.prems(2) [unfolded x]]
    obtain s1 where s1: "unlink_free_chunk (last_or_null ks) x (nx s x) s = Some (Inr s1)"
      "chain (nx s1) (mem_free_chunk_p s1) ks (nx s x)" "chain (nx s1) (nx s x) xs 0"
      "heap_blocks s1 = heap_blocks s" "mem_free_chunks_number s1 = mem_free_chunks_number s"
      "\<forall>a. a \<notin> set ks \<longrightarrow> chunk_mem s1 a = chunk_mem s a"
      by blast
    define i where "i = n mod 8"
    define idw :: "8 word" where "idw = ucast ((word_of_nat n :: 32 word)
           mod word_of_nat number_of_list_of_pools_with_free_first_chunk)"
    have n: "n < 2 ^ 32" using Cons.prems(7) by simp
    have idw: "unat idw = i" unfolding idw_def i_def using n by (rule pass1_id)
    have i: "i < 8" by (simp add: i_def)
    define l where "l = (load_layout s1 x)
                        \<lparr> next_first_pool_free_chunk_cp := MEM_CP_SET_POINTER cfg (heads ! i),
                          free_chunks_of_the_pool_cp := MEM_CP_NULL,
                          free_chunks_num := 1,
                          hint_magic_num := hint_magic_num_value,
                          layout_id := idw \<rparr>"
    define s2 where "s2 = store_layout x l s1"
    have xc: "x \<notin> cands bk" and xks: "x \<notin> set ks" and xxs: "x \<notin> set xs"
      using Cons.prems(5) dist by auto
    have mem2: "chunk_mem s2 a = chunk_mem s a" if "a \<notin> set ks" "a \<noteq> x" for a
      using that s1(6) by (simp add: s2_def)
    have cmem: "\<forall>c\<in>cands bk. chunk_mem s2 c = chunk_mem s c"
      using Cons.prems(5) xc mem2 by auto
    have p1: "chain (nx s2) (mem_free_chunk_p s2) ks (nx s x)"
      using s1(2) xks
      by (subst chain_cong [of ks "nx s2" "nx s1"]) (auto simp: s2_def nx_store_layout)
    have p2: "chain (nx s2) (nx s x) xs 0"
      using s1(3) xxs
      by (subst chain_cong [of xs "nx s2" "nx s1"]) (auto simp: s2_def nx_store_layout)
    have p3: "buckets_ok cfg s2 (heads[i := x]) (bk(i := x # bk i))"
      by (rule buckets_ok_push [OF Cons.prems(3) i x(2) _ xc cmem, where l = l])
        (use Cons.prems(6) idw in \<open>simp_all add: s2_def load_layout_store_layout l_def\<close>)
    have p4: "fresh_cands s2 (bk(i := x # bk i))"
      using fresh_cands_frame [OF Cons.prems(4) cmem] i
      by (auto simp: fresh_cands_def cands_upd s2_def load_layout_store_layout l_def)
    have p5: "cands (bk(i := x # bk i)) \<inter> set (ks @ xs) = {}"
      using Cons.prems(5) xks xxs i by (auto simp: cands_upd)
    have p6: "\<forall>x\<in>set xs. cp_ok cfg x" using Cons.prems(6) by simp
    have p7: "Suc n + length xs < 2 ^ 32" using Cons.prems(7) by simp
    from Cons.IH [OF p1 p2 p3 p4 p5 p6 p7]
    obtain s' heads' bk' where r:
      "remove_empty_pools_pass1 cfg s2 (heads[i := x]) (word_of_nat (Suc n)) (nx s x) (last_or_null ks)
         = Some (Inr (s', heads',
             word_of_nat (Suc n + length (filter (is_first cfg (heap_blocks s2)) xs))))"
      "free_list s' (ks @ filter (\<lambda>x. \<not> is_first cfg (heap_blocks s2) x) xs)"
      "buckets_ok cfg s' heads' bk'" "fresh_cands s' bk'"
      "cands bk' = cands (bk(i := x # bk i)) \<union> {x \<in> set xs. is_first cfg (heap_blocks s2) x}"
      "heap_blocks s' = heap_blocks s2"
      "mem_free_chunks_number s' = mem_free_chunks_number s2"
      "\<forall>a. a \<notin> set (ks @ xs) \<longrightarrow> chunk_mem s' a = chunk_mem s2 a"
      by blast
    have bs2: "heap_blocks s2 = ?bs" and n2: "mem_free_chunks_number s2 = mem_free_chunks_number s"
      using s1(4,5) by (simp_all add: s2_def)
    have step: "remove_empty_pools_pass1 cfg s heads (word_of_nat n) x (last_or_null ks)
       = remove_empty_pools_pass1 cfg s2 (heads[i := x]) (word_of_nat (Suc n)) (nx s x) (last_or_null ks)"
      using True s1(1) idw
      by (subst remove_empty_pools_pass1.simps)
        (simp add: x Let_def block_start_eq is_first_def nx_def [symmetric] s2_def l_def
          idw_def [symmetric] add.commute [of "word_of_nat n" 1])
    show ?thesis
      apply (rule exI [of _ s'], rule exI [of _ heads'], rule exI [of _ bk'])
      using r step True i mem2 unfolding bs2 n2 x
      by (auto simp: cands_upd)
  next
    case False
    have p1: "chain (nx s) (mem_free_chunk_p s) (ks @ [x]) (nx s x)"
      using Cons.prems(1) x by (simp add: chain_append)
    have p5: "cands bk \<inter> set ((ks @ [x]) @ xs) = {}" using Cons.prems(5) by simp
    have p6: "\<forall>x\<in>set xs. cp_ok cfg x" using Cons.prems(6) by simp
    have p7: "n + length xs < 2 ^ 32" using Cons.prems(7) by simp
    from Cons.IH [OF p1 tl Cons.prems(3,4) p5 p6 p7]
    obtain s' heads' bk' where r:
      "remove_empty_pools_pass1 cfg s heads (word_of_nat n) (nx s x) (last_or_null (ks @ [x]))
         = Some (Inr (s', heads',
             word_of_nat (n + length (filter (is_first cfg ?bs) xs))))"
      "free_list s' ((ks @ [x]) @ filter (\<lambda>x. \<not> is_first cfg ?bs x) xs)"
      "buckets_ok cfg s' heads' bk'" "fresh_cands s' bk'"
      "cands bk' = cands bk \<union> {x \<in> set xs. is_first cfg ?bs x}"
      "heap_blocks s' = ?bs"
      "mem_free_chunks_number s' = mem_free_chunks_number s"
      "\<forall>a. a \<notin> set ((ks @ [x]) @ xs) \<longrightarrow> chunk_mem s' a = chunk_mem s a"
      by blast
    have step: "remove_empty_pools_pass1 cfg s heads (word_of_nat n) x (last_or_null ks)
       = remove_empty_pools_pass1 cfg s heads (word_of_nat n) (nx s x) (last_or_null (ks @ [x]))"
      using False
      by (subst remove_empty_pools_pass1.simps)
        (simp add: x Let_def block_start_eq is_first_def nx_def [symmetric] last_or_null_def)
    show ?thesis
      apply (rule exI [of _ s'], rule exI [of _ heads'], rule exI [of _ bk'])
      using r step False unfolding x
      by auto
  qed
qed

subsection \<open>Second pass\<close>

lemma search_first_chunk_list_correct:
  "chain (cp_next cfg s) p ys 0 \<Longrightarrow> search_first_chunk_list cfg s p t = Some (t \<in> set ys)"
proof (induction ys arbitrary: p)
  case Nil
  then show ?case by (subst search_first_chunk_list.simps) simp
next
  case (Cons y ys)
  then have y: "p = y" "y \<noteq> 0" "chain (cp_next cfg s) (cp_next cfg s y) ys 0" by auto
  have "search_first_chunk_list cfg s y t
      = (if y = t then Some True else search_first_chunk_list cfg s (cp_next cfg s y) t)"
    using y(2) by (subst search_first_chunk_list.simps) (simp add: cp_next_def)
  with Cons.IH [OF y(3)] y(1) show ?case by auto
qed

lemma buckets_ok_cong:
  assumes "buckets_ok cfg s heads bk"
    and "\<forall>c\<in>cands bk.
           next_first_pool_free_chunk_cp (load_layout s' c) = next_first_pool_free_chunk_cp (load_layout s c)
         \<and> hint_magic_num (load_layout s' c) = hint_magic_num (load_layout s c)
         \<and> layout_id (load_layout s' c) = layout_id (load_layout s c)"
  shows "buckets_ok cfg s' heads bk"
proof -
  have ll: "next_first_pool_free_chunk_cp (load_layout s' c) = next_first_pool_free_chunk_cp (load_layout s c)
         \<and> hint_magic_num (load_layout s' c) = hint_magic_num (load_layout s c)
         \<and> layout_id (load_layout s' c) = layout_id (load_layout s c)"
    if "c \<in> set (bk i)" "i < 8" for c i
  proof -
    from that have "c \<in> cands bk" by (auto simp: in_cands_iff)
    with assms(2) show ?thesis by simp
  qed
  have "chain (cp_next cfg s') (heads ! i) (bk i) 0 = chain (cp_next cfg s) (heads ! i) (bk i) 0"
    if "i < 8" for i
    by (rule chain_cong) (use that ll in \<open>auto simp: cp_next_def\<close>)
  with assms(1) ll show ?thesis
    by (auto simp: buckets_ok_def)
qed

lemma unat_inc8: "unat (w :: 8 word) < 255 \<Longrightarrow> unat (w + 1) = unat w + 1"
  using unat_add_lem [of w 1] by simp

lemma move_chunk_to_local_list_correct:
  assumes ks: "chain (nx s) (mem_free_chunk_p s) ks x" and xs: "chain (nx s) x (x # xs) 0"
    and f: "f \<notin> set (ks @ x # xs)" and x: "cp_ok cfg x"
    and ys: "chain (nx s) (local_head cfg s f) ys 0" "set ys \<inter> set (ks @ x # xs) = {}"
      "f \<notin> set ys" "\<forall>y\<in>set ys. y < 2 ^ 64"
    and num: "unat (free_chunks_num (load_layout s f)) = 1 + length ys" "length ys < 254"
  shows "\<exists>s'. move_chunk_to_local_list cfg f (last_or_null ks) x (nx s x) s = Some (Inr s')
      \<and> chain (nx s') (mem_free_chunk_p s') ks (nx s x) \<and> chain (nx s') (nx s x) xs 0
      \<and> chain (nx s') (local_head cfg s' f) (x # ys) 0
      \<and> unat (free_chunks_num (load_layout s' f)) = 1 + length (x # ys)
      \<and> next_first_pool_free_chunk_cp (load_layout s' f) = next_first_pool_free_chunk_cp (load_layout s f)
      \<and> hint_magic_num (load_layout s' f) = hint_magic_num (load_layout s f)
      \<and> layout_id (load_layout s' f) = layout_id (load_layout s f)
      \<and> heap_blocks s' = heap_blocks s \<and> mem_free_chunks_number s' = mem_free_chunks_number s
      \<and> (\<forall>a. a \<notin> set ks \<and> a \<noteq> x \<and> a \<noteq> f \<longrightarrow> chunk_mem s' a = chunk_mem s a)"
proof -
  define t where "t = load_layout s f"
  define s1 where "s1 = store_layout f (t\<lparr>free_chunks_num := free_chunks_num t + 1\<rparr>) s"
  have fks: "f \<notin> set ks" and fx: "f \<noteq> x" and fxs: "f \<notin> set xs" using f by auto
  define v1 where "v1 = nx s1 f"
  have nx1: "nx s1 a = (if a = f then v1 else nx s a)" for a
    by (simp add: v1_def s1_def nx_store_layout)
  have hd1: "mem_free_chunk_p s1 = mem_free_chunk_p s" by (simp add: s1_def)
  have ks1: "chain (nx s1) (mem_free_chunk_p s1) ks x"
    using ks fks by (subst chain_cong [of ks "nx s1" "nx s"]) (auto simp: nx1 hd1)
  have xs1: "chain (nx s1) x (x # xs) 0"
    using xs fx fxs by (subst chain_cong [of "x # xs" "nx s1" "nx s"]) (auto simp: nx1)
  from unlink_free_chunk_correct [OF ks1 xs1]
  obtain s2 where s2: "unlink_free_chunk (last_or_null ks) x (nx s1 x) s1 = Some (Inr s2)"
      "chain (nx s2) (mem_free_chunk_p s2) ks (nx s1 x)" "chain (nx s2) (nx s1 x) xs 0"
      "heap_blocks s2 = heap_blocks s1" "mem_free_chunks_number s2 = mem_free_chunks_number s1"
      "\<forall>a. a \<notin> set ks \<longrightarrow> chunk_mem s2 a = chunk_mem s1 a"
    by blast
  have nxx: "nx s1 x = nx s x" using fx by (simp add: nx1 [of x])
  have l2: "load_layout s2 f = t\<lparr>free_chunks_num := free_chunks_num t + 1\<rparr>"
    using s2(6) fks by (simp add: load_layout_def s1_def)
  define h where "h = local_head cfg s f"
  have h: "MEM_CP_GET_POINTER cfg (free_chunks_of_the_pool_cp (load_layout s2 f)) = h"
    by (simp add: l2 h_def local_head_def t_def)
  have hlt: "h < 2 ^ 64"
  proof (cases ys)
    case Nil
    with ys(1) show ?thesis by (simp add: h_def)
  next
    case (Cons y ys')
    with ys(1,4) show ?thesis by (auto simp: h_def)
  qed
  define s3 where "s3 = store_ptr x h s2"
  have l3: "load_layout s3 f = t\<lparr>free_chunks_num := free_chunks_num t + 1\<rparr>"
    using l2 fx by (simp add: s3_def load_layout_store_ptr)
  define s4 where "s4 = store_layout f
      ((load_layout s3 f)\<lparr>free_chunks_of_the_pool_cp := mem_compress_pointer cfg x\<rparr>) s3"
  have run: "move_chunk_to_local_list cfg f (last_or_null ks) x (nx s x) s = Some (Inr s4)"
    using s2(1) h
    by (simp add: move_chunk_to_local_list_def Let_def t_def [symmetric] s1_def [symmetric]
        nxx done_with_def s3_def s4_def)
  have l4: "load_layout s4 f = t\<lparr>free_chunks_num := free_chunks_num t + 1,
      free_chunks_of_the_pool_cp := mem_compress_pointer cfg x\<rparr>"
    by (simp add: s4_def load_layout_store_layout l3)
  define v4 where "v4 = nx s4 f"
  have nx4: "nx s4 a = (if a = f then v4 else if a = x then h else nx s2 a)" for a
    using hlt by (simp add: v4_def s4_def nx_store_layout s3_def nx_store_ptr)
  have xks: "x \<notin> set ks" and xxs: "x \<notin> set xs"
    using chain_distinct [of "nx s" "mem_free_chunk_p s" "ks @ x # xs"] ks xs
    by (auto simp: chain_append)
  have hd4: "mem_free_chunk_p s4 = mem_free_chunk_p s2" by (simp add: s4_def s3_def)
  have c1: "chain (nx s4) (mem_free_chunk_p s4) ks (nx s x)"
    using s2(2) fks xks
    by (subst chain_cong [of ks "nx s4" "nx s2"]) (auto simp: nx4 nxx hd4)
  have c2: "chain (nx s4) (nx s x) xs 0"
    using s2(3) fxs xxs by (subst chain_cong [of xs "nx s4" "nx s2"]) (auto simp: nx4 nxx)
  have mem2: "\<forall>a. a \<notin> set ks \<and> a \<noteq> f \<longrightarrow> chunk_mem s2 a = chunk_mem s a"
    using s2(6) by (simp add: s1_def)
  define g2 where "g2 = nx s2"
  have nx2: "nx s2 a = (if a \<notin> set ks \<and> a \<noteq> f then nx s a else g2 a)" for a
    using mem2 by (simp add: g2_def nx_def next_of_def)
  have "chain (nx s4) h ys 0"
    using ys(1,2,3)
    by (subst chain_cong [of ys "nx s4" "nx s"]) (auto simp: nx4 nx2 h_def)
  moreover have "local_head cfg s4 f = x"
    using x by (simp add: local_head_def l4 MEM_CP_roundtrip_non_null)
  moreover have "x \<noteq> 0" using xs by simp
  ultimately have c3: "chain (nx s4) (local_head cfg s4 f) (x # ys) 0"
    using fx by (simp add: nx4 [of x])
  have "unat (free_chunks_num t) < 255" using num by (simp add: t_def)
  then have c4: "unat (free_chunks_num (load_layout s4 f)) = 1 + length (x # ys)"
    using num(1) by (simp add: l4 unat_inc8 t_def)
  have c5: "\<forall>a. a \<notin> set ks \<and> a \<noteq> x \<and> a \<noteq> f \<longrightarrow> chunk_mem s4 a = chunk_mem s a"
    using mem2 by (simp add: s4_def s3_def)
  have c6: "next_first_pool_free_chunk_cp (load_layout s4 f) = next_first_pool_free_chunk_cp (load_layout s f)"
    "hint_magic_num (load_layout s4 f) = hint_magic_num (load_layout s f)"
    "layout_id (load_layout s4 f) = layout_id (load_layout s f)"
    by (simp_all add: l4 t_def)
  have c7: "heap_blocks s4 = heap_blocks s" "mem_free_chunks_number s4 = mem_free_chunks_number s"
    using s2(4,5) by (simp_all add: s4_def s3_def s1_def)
  show ?thesis
    using run c1 c2 c3 c4 c5 c6 c7 by blast
qed

lemma pass2_loop:
  assumes "chain (nx s) (mem_free_chunk_p s) ks iter" and "chain (nx s) iter xs 0"
    and "buckets_ok cfg s heads bk"
    and "cands bk \<inter> set (ks @ xs) = {}"
    and "locals_ok cfg s (cands bk) loc"
    and "\<forall>c\<in>cands bk. \<forall>y\<in>set (loc c). y \<notin> set (ks @ xs) \<and> y \<notin> cands bk \<and> y < 2 ^ 64
           \<and> block_of cfg (heap_blocks s) y = c"
    and "\<forall>x\<in>set xs. cp_ok cfg x \<and> x < 2 ^ 64"
    and "\<forall>c\<in>cands bk.
           length (loc c) + length (filter (\<lambda>x. block_of cfg (heap_blocks s) x = c) xs) < 255"
  shows "\<exists>s'. remove_empty_pools_pass2 cfg heads s iter (last_or_null ks) = Some (Inr s')
      \<and> free_list s' (ks @ filter (\<lambda>x. block_of cfg (heap_blocks s) x \<notin> cands bk) xs)
      \<and> buckets_ok cfg s' heads bk
      \<and> locals_ok cfg s' (cands bk)
           (\<lambda>c. rev (filter (\<lambda>x. block_of cfg (heap_blocks s) x = c) xs) @ loc c)
      \<and> heap_blocks s' = heap_blocks s
      \<and> mem_free_chunks_number s' = mem_free_chunks_number s
      \<and> (\<forall>a. a \<notin> set (ks @ xs) \<and> a \<notin> cands bk \<longrightarrow> chunk_mem s' a = chunk_mem s a)"
  using assms
proof (induction xs arbitrary: s ks iter loc)
  case Nil
  then have "iter = 0" by simp
  with Nil show ?case
    by (subst remove_empty_pools_pass2.simps) (auto simp: free_list_nx)
next
  case (Cons x xs)
  from Cons.prems(2) have x: "iter = x" "x \<noteq> 0" and tl: "chain (nx s) (nx s x) xs 0"
    by auto
  have all: "chain (nx s) (mem_free_chunk_p s) (ks @ x # xs) 0"
    using Cons.prems(1,2) by (auto simp: chain_append)
  then have dist: "distinct (ks @ x # xs)" by (rule chain_distinct)
  have xks: "x \<notin> set ks" and xxs: "x \<notin> set xs" using dist by auto
  let ?bs = "heap_blocks s"
  let ?B = "block_of cfg ?bs"
  let ?C = "cands bk"
  define f where "f = ?B x"
  show ?case
  proof (cases "f \<in> ?C")
    case True
    then obtain i where i: "i < 8" "f \<in> set (bk i)" by (auto simp: in_cands_iff)
    with Cons.prems(3) have fl: "hint_magic_num (load_layout s f) = hint_magic_num_value"
      "unat (layout_id (load_layout s f)) = i"
      and ci: "chain (cp_next cfg s) (heads ! i) (bk i) 0"
      by (auto simp: buckets_ok_def)
    have srch: "search_first_chunk_list cfg s (heads ! i) f = Some True"
      using search_first_chunk_list_correct [OF ci, of f] i(2) by simp
    have m1: "f \<notin> set (ks @ x # xs)" using Cons.prems(4) True by auto
    have m2: "cp_ok cfg x" using Cons.prems(7) by simp
    have m3: "chain (nx s) (local_head cfg s f) (loc f) 0"
      and m7: "unat (free_chunks_num (load_layout s f)) = 1 + length (loc f)"
      using Cons.prems(5) True by (auto simp: locals_ok_def)
    have m4: "set (loc f) \<inter> set (ks @ x # xs) = {}" using Cons.prems(6) True by auto
    have m5: "f \<notin> set (loc f)" using Cons.prems(6) True by auto
    have m6: "\<forall>y\<in>set (loc f). y < 2 ^ 64" using Cons.prems(6) True by auto
    have "length (loc f) + length (filter (\<lambda>x. ?B x = f) (x # xs)) < 255"
      using Cons.prems(8) True by blast
    then have m8: "length (loc f) < 254" by (simp add: f_def)
    from move_chunk_to_local_list_correct
      [OF Cons.prems(1) [unfolded x] Cons.prems(2) [unfolded x] m1 m2 m3 m4 m5 m6 m7 m8]
    obtain s1 where s1:
      "move_chunk_to_local_list cfg f (last_or_null ks) x (nx s x) s = Some (Inr s1)"
      "chain (nx s1) (mem_free_chunk_p s1) ks (nx s x)" "chain (nx s1) (nx s x) xs 0"
      "chain (nx s1) (local_head cfg s1 f) (x # loc f) 0"
      "unat (free_chunks_num (load_layout s1 f)) = 1 + length (x # loc f)"
      "next_first_pool_free_chunk_cp (load_layout s1 f) = next_first_pool_free_chunk_cp (load_layout s f)"
      "hint_magic_num (load_layout s1 f) = hint_magic_num (load_layout s f)"
      "layout_id (load_layout s1 f) = layout_id (load_layout s f)"
      "heap_blocks s1 = heap_blocks s" "mem_free_chunks_number s1 = mem_free_chunks_number s"
      "\<forall>a. a \<notin> set ks \<and> a \<noteq> x \<and> a \<noteq> f \<longrightarrow> chunk_mem s1 a = chunk_mem s a"
      by blast
    define loc1 where "loc1 = loc(f := x # loc f)"
    have xC: "x \<notin> ?C" using Cons.prems(4) by auto
    have cell: "chunk_mem s1 c = chunk_mem s c" if "c \<in> ?C" "c \<noteq> f" for c
      using s1(11) that Cons.prems(4) xC by auto
    have q3: "buckets_ok cfg s1 heads bk"
    proof (rule buckets_ok_cong [OF Cons.prems(3)], rule ballI)
      fix c assume "c \<in> ?C"
      then show "next_first_pool_free_chunk_cp (load_layout s1 c) = next_first_pool_free_chunk_cp (load_layout s c)
         \<and> hint_magic_num (load_layout s1 c) = hint_magic_num (load_layout s c)
         \<and> layout_id (load_layout s1 c) = layout_id (load_layout s c)"
        using s1(6,7,8) cell [of c] by (cases "c = f") (simp_all add: load_layout_def)
    qed
    have q4: "?C \<inter> set (ks @ xs) = {}" using Cons.prems(4) by auto
    have q5: "locals_ok cfg s1 ?C loc1"
      unfolding locals_ok_def
    proof (rule ballI)
      fix c assume c: "c \<in> ?C"
      show "chain (nx s1) (local_head cfg s1 c) (loc1 c) 0 \<and>
            unat (free_chunks_num (load_layout s1 c)) = 1 + length (loc1 c)"
      proof (cases "c = f")
        case True
        with s1(4,5) show ?thesis by (simp add: loc1_def)
      next
        case False
        have lc: "load_layout s1 c = load_layout s c"
          using cell [OF c False] by (simp add: load_layout_def)
        have "chunk_mem s1 y = chunk_mem s y" if "y \<in> set (loc c)" for y
        proof -
          from Cons.prems(6) c that have "y \<notin> set ks" "y \<noteq> x" "y \<notin> ?C" by auto
          moreover from this True have "y \<noteq> f" by auto
          ultimately show ?thesis using s1(11) by simp
        qed
        then have "chain (nx s1) (local_head cfg s c) (loc c) 0 = chain (nx s) (local_head cfg s c) (loc c) 0"
          by (intro chain_cong) (simp add: nx_def next_of_def)
        with Cons.prems(5) c False lc show ?thesis
          by (simp add: locals_ok_def loc1_def local_head_def)
      qed
    qed
    have fB: "?B x = f" by (simp add: f_def)
    have q6: "\<forall>c\<in>?C. \<forall>y\<in>set (loc1 c). y \<notin> set (ks @ xs) \<and> y \<notin> ?C \<and> y < 2 ^ 64
           \<and> block_of cfg (heap_blocks s1) y = c"
    proof (intro ballI)
      fix c y assume c: "c \<in> ?C" and y: "y \<in> set (loc1 c)"
      show "y \<notin> set (ks @ xs) \<and> y \<notin> ?C \<and> y < 2 ^ 64 \<and> block_of cfg (heap_blocks s1) y = c"
      proof (cases "y \<in> set (loc c)")
        case True
        with Cons.prems(6) c show ?thesis unfolding s1(9) by auto
      next
        case False
        with y have "c = f" "y = x" by (auto simp: loc1_def split: if_splits)
        with Cons.prems(7) xks xxs xC fB show ?thesis unfolding s1(9) by simp
      qed
    qed
    have q7: "\<forall>x\<in>set xs. cp_ok cfg x \<and> x < 2 ^ 64" using Cons.prems(7) by simp
    have q8: "\<forall>c\<in>?C. length (loc1 c)
         + length (filter (\<lambda>x. block_of cfg (heap_blocks s1) x = c) xs) < 255"
    proof
      fix c assume "c \<in> ?C"
      with Cons.prems(8) have "length (loc c) + length (filter (\<lambda>x. ?B x = c) (x # xs)) < 255"
        by blast
      then show "length (loc1 c) + length (filter (\<lambda>x. block_of cfg (heap_blocks s1) x = c) xs) < 255"
        unfolding s1(9) using fB by (cases "c = f") (auto simp: loc1_def)
    qed
    from Cons.IH [OF s1(2,3) q3 q4 q5 q6 q7 q8]
    obtain s' where r:
      "remove_empty_pools_pass2 cfg heads s1 (nx s x) (last_or_null ks) = Some (Inr s')"
      "free_list s' (ks @ filter (\<lambda>x. block_of cfg (heap_blocks s1) x \<notin> ?C) xs)"
      "buckets_ok cfg s' heads bk"
      "locals_ok cfg s' ?C
           (\<lambda>c. rev (filter (\<lambda>x. block_of cfg (heap_blocks s1) x = c) xs) @ loc1 c)"
      "heap_blocks s' = heap_blocks s1"
      "mem_free_chunks_number s' = mem_free_chunks_number s1"
      "\<forall>a. a \<notin> set (ks @ xs) \<and> a \<notin> ?C \<longrightarrow> chunk_mem s' a = chunk_mem s1 a"
      by blast
    have loc_eq: "(\<lambda>c. rev (filter (\<lambda>x. ?B x = c) xs) @ loc1 c)
        = (\<lambda>c. rev (filter (\<lambda>x. ?B x = c) (x # xs)) @ loc c)"
      using fB by (auto simp: fun_eq_iff loc1_def)
    have step: "remove_empty_pools_pass2 cfg heads s x (last_or_null ks)
        = remove_empty_pools_pass2 cfg heads s1 (nx s x) (last_or_null ks)"
      using fl i(1) srch s1(1)
      by (subst remove_empty_pools_pass2.simps)
        (simp add: x Let_def block_start_eq f_def [symmetric] nx_def [symmetric]
          number_of_list_of_pools_with_free_first_chunk_def)
    have fr: "\<forall>a. a \<notin> set (ks @ x # xs) \<and> a \<notin> ?C \<longrightarrow> chunk_mem s' a = chunk_mem s a"
      using r(7) s1(11) True by auto
    have flt: "filter (\<lambda>x. ?B x \<notin> ?C) (x # xs) = filter (\<lambda>x. ?B x \<notin> ?C) xs"
      using True fB by simp
    show ?thesis
      unfolding x flt
      using r(1,3) r(2) [unfolded s1(9)] r(4) [unfolded s1(9) loc_eq] step fr
        r(5) [unfolded s1(9)] r(6) [unfolded s1(10)]
      by (intro exI [of _ s']) simp
  next
    case False
    have p1: "chain (nx s) (mem_free_chunk_p s) (ks @ [x]) (nx s x)"
      using Cons.prems(1) x by (simp add: chain_append)
    have p4: "?C \<inter> set ((ks @ [x]) @ xs) = {}" using Cons.prems(4) by simp
    have p6: "\<forall>c\<in>?C. \<forall>y\<in>set (loc c). y \<notin> set ((ks @ [x]) @ xs) \<and> y \<notin> ?C \<and> y < 2 ^ 64
           \<and> ?B y = c"
      using Cons.prems(6) by simp
    have p7: "\<forall>x\<in>set xs. cp_ok cfg x \<and> x < 2 ^ 64" using Cons.prems(7) by simp
    have p8: "\<forall>c\<in>?C. length (loc c) + length (filter (\<lambda>x. ?B x = c) xs) < 255"
    proof
      fix c assume "c \<in> ?C"
      with Cons.prems(8) have "length (loc c) + length (filter (\<lambda>x. ?B x = c) (x # xs)) < 255"
        by blast
      then show "length (loc c) + length (filter (\<lambda>x. ?B x = c) xs) < 255"
        by (simp split: if_splits)
    qed
    from Cons.IH [OF p1 tl Cons.prems(3) p4 Cons.prems(5) p6 p7 p8]
    obtain s' where r:
      "remove_empty_pools_pass2 cfg heads s (nx s x) (last_or_null (ks @ [x])) = Some (Inr s')"
      "free_list s' ((ks @ [x]) @ filter (\<lambda>x. ?B x \<notin> ?C) xs)"
      "buckets_ok cfg s' heads bk"
      "locals_ok cfg s' ?C (\<lambda>c. rev (filter (\<lambda>x. ?B x = c) xs) @ loc c)"
      "heap_blocks s' = ?bs"
      "mem_free_chunks_number s' = mem_free_chunks_number s"
      "\<forall>a. a \<notin> set ((ks @ [x]) @ xs) \<and> a \<notin> ?C \<longrightarrow> chunk_mem s' a = chunk_mem s a"
      by blast
    have nosrch: "search_first_chunk_list cfg s (heads ! j) f = Some False" if "j < 8" for j
    proof -
      from Cons.prems(3) that have "chain (cp_next cfg s) (heads ! j) (bk j) 0"
        by (simp add: buckets_ok_def)
      from search_first_chunk_list_correct [OF this, of f] False that show ?thesis
        by (auto simp: in_cands_iff)
    qed
    have step: "remove_empty_pools_pass2 cfg heads s x (last_or_null ks)
        = remove_empty_pools_pass2 cfg heads s (nx s x) (last_or_null (ks @ [x]))"
      using nosrch
      by (subst remove_empty_pools_pass2.simps)
        (simp add: x Let_def block_start_eq f_def [symmetric] nx_def [symmetric]
          number_of_list_of_pools_with_free_first_chunk_def last_or_null_def)
    have "?B x \<noteq> c" if "c \<in> ?C" for c using that False by (auto simp: f_def)
    then have lok: "locals_ok cfg s' ?C (\<lambda>c. rev (filter (\<lambda>x. ?B x = c) (x # xs)) @ loc c)"
      using r(4) unfolding locals_ok_def by simp
    have flt: "filter (\<lambda>x. ?B x \<notin> ?C) (x # xs) = x # filter (\<lambda>x. ?B x \<notin> ?C) xs"
      using False by (simp add: f_def)
    show ?thesis
      unfolding x flt
      using r(1,2,3,5,6,7) lok step
      by (intro exI [of _ s']) simp
  qed
qed

subsection \<open>Third pass\<close>

lemma last_chunk_of_pool_list_correct:
  "chain (nx s) p ys 0 \<Longrightarrow> ys \<noteq> [] \<Longrightarrow> last_chunk_of_pool_list s p = Some (Inr (last ys))"
proof (induction ys arbitrary: p)
  case Nil
  then show ?case by simp
next
  case (Cons y ys)
  then have y: "p = y" "y \<noteq> 0" "chain (nx s) (nx s y) ys 0" by auto
  show ?case
  proof (cases ys)
    case Nil
    with y show ?thesis
      by (subst last_chunk_of_pool_list.simps) (simp add: nx_def)
  next
    case (Cons z zs)
    with y have "nx s y \<noteq> 0" by auto
    moreover have "last_chunk_of_pool_list s (nx s y) = Some (Inr (last ys))"
      using Cons.IH [OF y(3)] Cons by simp
    ultimately show ?thesis
      using y Cons
      by (subst last_chunk_of_pool_list.simps) (simp add: nx_def)
  qed
qed

lemma remove1_filter_distinct: "distinct bl \<Longrightarrow> remove1 c bl = filter (\<lambda>b. b \<noteq> c) bl"
  by (simp add: distinct_remove1_removeAll removeAll_filter_not_eq) (metis (mono_tags, lifting) filter_cong)

lemma pass3_list_loop:
  fixes cfg :: mem_config and N :: nat
  defines "N \<equiv> MEM_POOL_CHUNKS_NUMBER cfg"
  assumes "chain (cp_next cfg s) p bs 0"
    and "free_list s G"
    and "locals_ok cfg s (set bs) loc"
    and "\<forall>c\<in>set bs. c \<notin> set G \<and> c < 2 ^ 64
          \<and> (\<forall>y\<in>set (loc c). y \<notin> set G \<and> y \<notin> set bs \<and> y < 2 ^ 64 \<and> own y = c)"
    and "\<forall>y\<in>set G. y < 2 ^ 64"
    and "distinct (heap_blocks s)"
    and "N * length (filter (\<lambda>c. 1 + length (loc c) = N) bs) \<le> mem_free_chunks_number s"
    and "mem_free_chunks_number s < 2 ^ 64"
  shows "\<exists>s' G'. remove_empty_pools_pass3_list cfg s p = Some (Inr s')
     \<and> free_list s' G'
     \<and> set G' = set G \<union> (\<Union>c\<in>{c \<in> set bs. 1 + length (loc c) \<noteq> N}. insert c (set (loc c)))
     \<and> (\<forall>y\<in>set G'. y < 2 ^ 64)
     \<and> heap_blocks s' = filter (\<lambda>b. \<not> (b \<in> set bs \<and> 1 + length (loc b) = N)) (heap_blocks s)
     \<and> mem_free_chunks_number s' + N * length (filter (\<lambda>c. 1 + length (loc c) = N) bs)
          = mem_free_chunks_number s
     \<and> (\<forall>a. a \<notin> set bs \<and> a \<notin> (\<Union>c\<in>set bs. set (loc c)) \<longrightarrow> chunk_mem s' a = chunk_mem s a)"
  using assms(2-)
proof (induction bs arbitrary: s p G)
  case Nil
  then have "p = 0" by simp
  with Nil show ?case
    by (subst remove_empty_pools_pass3_list.simps) auto
next
  case (Cons c bs)
  from Cons.prems(1) have c: "p = c" "c \<noteq> 0" and tl: "chain (cp_next cfg s) (cp_next cfg s c) bs 0"
    by auto
  have cbs: "c \<notin> set bs" using chain_distinct [OF Cons.prems(1)] by simp
  have lc: "chain (nx s) (local_head cfg s c) (loc c) 0"
    and num: "unat (free_chunks_num (load_layout s c)) = 1 + length (loc c)"
    using Cons.prems(3) by (auto simp: locals_ok_def)
  have cG: "c \<notin> set G" and clt: "c < 2 ^ 64"
    and locc: "\<forall>y\<in>set (loc c). y \<notin> set G \<and> y \<noteq> c \<and> y \<notin> set bs \<and> y < 2 ^ 64 \<and> own y = c"
    using Cons.prems(4) by auto
  have rest: "\<forall>c'\<in>set bs. c' \<notin> set G \<and> c' < 2 ^ 64
          \<and> (\<forall>y\<in>set (loc c'). y \<notin> set G \<and> y \<noteq> c \<and> y \<notin> set bs \<and> y < 2 ^ 64 \<and> own y = c')"
    using Cons.prems(4) by auto
  show ?case
  proof (cases "1 + length (loc c) = N")
    case True
    define s2 where "s2 = (mem_heap_free_block c s)\<lparr>mem_free_chunks_number :=
        size_t_sub (mem_free_chunks_number (mem_heap_free_block c s)) N\<rparr>"
    have mem2: "chunk_mem s2 = chunk_mem s" and hd2: "mem_free_chunk_p s2 = mem_free_chunk_p s"
      by (simp_all add: s2_def mem_heap_free_block_def)
    have Nle: "N \<le> mem_free_chunks_number s" using Cons.prems(7) True by simp
    have cnt2: "mem_free_chunks_number s2 = mem_free_chunks_number s - N"
      using Nle Cons.prems(8) by (simp add: s2_def mem_heap_free_block_def size_t_sub_small)
    have bl2: "heap_blocks s2 = filter (\<lambda>b. b \<noteq> c) (heap_blocks s)"
      using Cons.prems(6) by (simp add: s2_def mem_heap_free_block_def remove1_filter_distinct)
    have same: "nx s2 = nx s" "cp_next cfg s2 = cp_next cfg s" "local_head cfg s2 = local_head cfg s"
      "load_layout s2 = load_layout s"
      by (simp_all add: mem2 nx_def cp_next_def local_head_def load_layout_def fun_eq_iff)
    have q1: "chain (cp_next cfg s2) (cp_next cfg s c) bs 0" using tl by (simp add: same)
    have q2: "free_list s2 G" using Cons.prems(2) by (simp add: free_list_nx same hd2)
    have q3: "locals_ok cfg s2 (set bs) loc"
      using Cons.prems(3) by (simp add: locals_ok_def same)
    have q4: "\<forall>c\<in>set bs. c \<notin> set G \<and> c < 2 ^ 64
          \<and> (\<forall>y\<in>set (loc c). y \<notin> set G \<and> y \<notin> set bs \<and> y < 2 ^ 64 \<and> own y = c)"
      using rest by auto
    have q6: "distinct (heap_blocks s2)" using Cons.prems(6) by (simp add: bl2)
    have q7: "N * length (filter (\<lambda>c. 1 + length (loc c) = N) bs) \<le> mem_free_chunks_number s2"
      using Cons.prems(7) True by (simp add: cnt2)
    have q8: "mem_free_chunks_number s2 < 2 ^ 64" using Cons.prems(8) by (simp add: cnt2)
    from Cons.IH [OF q1 q2 q3 q4 Cons.prems(5) q6 q7 q8]
    obtain s' G' where r: "remove_empty_pools_pass3_list cfg s2 (cp_next cfg s c) = Some (Inr s')"
      "free_list s' G'"
      "set G' = set G \<union> (\<Union>c\<in>{c \<in> set bs. 1 + length (loc c) \<noteq> N}. insert c (set (loc c)))"
      "\<forall>y\<in>set G'. y < 2 ^ 64"
      "heap_blocks s' = filter (\<lambda>b. \<not> (b \<in> set bs \<and> 1 + length (loc b) = N)) (heap_blocks s2)"
      "mem_free_chunks_number s' + N * length (filter (\<lambda>c. 1 + length (loc c) = N) bs)
          = mem_free_chunks_number s2"
      "\<forall>a. a \<notin> set bs \<and> a \<notin> (\<Union>c\<in>set bs. set (loc c)) \<longrightarrow> chunk_mem s' a = chunk_mem s2 a"
      by blast
    have step: "remove_empty_pools_pass3_list cfg s c
        = remove_empty_pools_pass3_list cfg s2 (cp_next cfg s c)"
      using c(2) True num
      by (subst remove_empty_pools_pass3_list.simps)
        (simp add: Let_def cp_next_def s2_def N_def)
    have g: "set G' = set G \<union> (\<Union>c\<in>{c' \<in> set (c # bs). 1 + length (loc c') \<noteq> N}. insert c (set (loc c)))"
      using r(3) True by auto
    have b: "heap_blocks s' = filter (\<lambda>b. \<not> (b \<in> set (c # bs) \<and> 1 + length (loc b) = N)) (heap_blocks s)"
      using True unfolding r(5) bl2 by (auto intro: filter_cong)
    have n: "mem_free_chunks_number s' + N * length (filter (\<lambda>c. 1 + length (loc c) = N) (c # bs))
          = mem_free_chunks_number s"
      using r(6) True Nle by (simp add: cnt2)
    have fr: "\<forall>a. a \<notin> set (c # bs) \<and> a \<notin> (\<Union>c\<in>set (c # bs). set (loc c)) \<longrightarrow> chunk_mem s' a = chunk_mem s a"
      using r(7) by (simp add: mem2)
    show ?thesis
      unfolding c(1) step using r(1,2,4) g b n fr by blast
  next
    case False
    define h where "h = local_head cfg s c"
    have hlt: "h < 2 ^ 64"
    proof (cases "loc c")
      case Nil
      with lc show ?thesis by (simp add: h_def)
    next
      case (Cons y ys)
      with lc locc show ?thesis by (auto simp: h_def)
    qed
    define s1 where "s1 = store_ptr c h s"
    define grp where "grp = c # loc c"
    define e where "e = last grp"
    have nx1: "nx s1 a = (if a = c then h else nx s a)" for a
      using hlt by (simp add: s1_def nx_store_ptr)
    have cloc: "c \<notin> set (loc c)" using locc by auto
    have g1: "chain (nx s1) c grp 0"
    proof -
      have "chain (nx s1) h (loc c) 0"
        using lc cloc by (subst chain_cong [of "loc c" "nx s1" "nx s"]) (auto simp: nx1 h_def)
      with c(2) show ?thesis by (simp add: grp_def nx1)
    qed
    have last1: "last_chunk_of_pool_list s1 c = Some (Inr e)"
      unfolding e_def by (rule last_chunk_of_pool_list_correct [OF g1]) (simp add: grp_def)
    define s2 where "s2 = store_ptr e (mem_free_chunk_p s1) s1"
    define s3 where "s3 = s2\<lparr>mem_free_chunk_p := c\<rparr>"
    have hd1: "mem_free_chunk_p s1 = mem_free_chunk_p s" by (simp add: s1_def)
    have hdlt: "mem_free_chunk_p s < 2 ^ 64"
    proof (cases G)
      case Nil
      with Cons.prems(2) show ?thesis by (simp add: free_list_nx)
    next
      case (Cons y ys)
      with Cons.prems(2,5) show ?thesis by (auto simp: free_list_nx)
    qed
    have nx3: "nx s3 a = (if a = e then mem_free_chunk_p s else nx s1 a)" for a
      using hdlt by (simp add: s3_def s2_def nx_store_ptr hd1)
    have grpG: "set grp \<inter> set G = {}" using cG locc by (auto simp: grp_def)
    have G1: "chain (nx s1) (mem_free_chunk_p s) G 0"
      using Cons.prems(2) cG
      by (subst chain_cong [of G "nx s1" "nx s"]) (auto simp: nx1 free_list_nx)
    have "chain (nx s3) c (grp @ G) 0"
      by (rule chain_link [OF g1 _ G1 grpG]) (simp_all add: grp_def nx3 e_def)
    then have q2: "free_list s3 (grp @ G)" by (simp add: free_list_nx s3_def)
    have egrp: "e \<in> set grp" unfolding e_def by (rule last_in_set) (simp add: grp_def)
    have mem3: "chunk_mem s3 a = (if a = e then word_of_nat (mem_free_chunk_p s)
        else if a = c then word_of_nat h else chunk_mem s a)" for a
      by (simp add: s3_def s2_def s1_def)
    have notgrp: "a \<notin> set grp" if "a \<in> set bs \<or> (\<exists>c'\<in>set bs. a \<in> set (loc c'))" for a
      using that cbs locc rest by (auto simp: grp_def)
    have cell: "chunk_mem s3 a = chunk_mem s a" if "a \<notin> set grp" for a
      using that egrp by (auto simp: mem3 grp_def)
    have q1: "chain (cp_next cfg s3) (cp_next cfg s c) bs 0"
    proof -
      have "cp_next cfg s3 a = cp_next cfg s a" if "a \<in> set bs" for a
        using cell [of a] notgrp [of a] that by (simp add: cp_next_def load_layout_def)
      then show ?thesis using tl by (subst chain_cong [of bs "cp_next cfg s3" "cp_next cfg s"]) auto
    qed
    have q3: "locals_ok cfg s3 (set bs) loc"
      unfolding locals_ok_def
    proof
      fix c' assume c': "c' \<in> set bs"
      have l: "load_layout s3 c' = load_layout s c'"
        using cell [of c'] notgrp [of c'] c' by (simp add: load_layout_def)
      have "nx s3 a = nx s a" if "a \<in> set (loc c')" for a
      proof -
        have "a \<notin> set grp" using that c' by (intro notgrp) blast
        then show ?thesis using cell [of a] by (simp add: nx_def next_of_def)
      qed
      then have "chain (nx s3) (local_head cfg s c') (loc c') 0 = chain (nx s) (local_head cfg s c') (loc c') 0"
        by (intro chain_cong) simp
      with Cons.prems(3) c' l show "chain (nx s3) (local_head cfg s3 c') (loc c') 0 \<and>
          unat (free_chunks_num (load_layout s3 c')) = 1 + length (loc c')"
        by (simp add: locals_ok_def local_head_def)
    qed
    have q4: "\<forall>c\<in>set bs. c \<notin> set (grp @ G) \<and> c < 2 ^ 64
          \<and> (\<forall>y\<in>set (loc c). y \<notin> set (grp @ G) \<and> y \<notin> set bs \<and> y < 2 ^ 64 \<and> own y = c)"
      using rest notgrp by auto
    have q5: "\<forall>y\<in>set (grp @ G). y < 2 ^ 64"
      using Cons.prems(5) clt locc by (auto simp: grp_def)
    have q6: "distinct (heap_blocks s3)" using Cons.prems(6) by (simp add: s3_def s2_def s1_def)
    have q7: "N * length (filter (\<lambda>c. 1 + length (loc c) = N) bs) \<le> mem_free_chunks_number s3"
      using Cons.prems(7) False by (simp add: s3_def s2_def s1_def)
    have q8: "mem_free_chunks_number s3 < 2 ^ 64"
      using Cons.prems(8) by (simp add: s3_def s2_def s1_def)
    from Cons.IH [OF q1 q2 q3 q4 q5 q6 q7 q8]
    obtain s' G' where r: "remove_empty_pools_pass3_list cfg s3 (cp_next cfg s c) = Some (Inr s')"
      "free_list s' G'"
      "set G' = set (grp @ G) \<union> (\<Union>c\<in>{c \<in> set bs. 1 + length (loc c) \<noteq> N}. insert c (set (loc c)))"
      "\<forall>y\<in>set G'. y < 2 ^ 64"
      "heap_blocks s' = filter (\<lambda>b. \<not> (b \<in> set bs \<and> 1 + length (loc b) = N)) (heap_blocks s3)"
      "mem_free_chunks_number s' + N * length (filter (\<lambda>c. 1 + length (loc c) = N) bs)
          = mem_free_chunks_number s3"
      "\<forall>a. a \<notin> set bs \<and> a \<notin> (\<Union>c\<in>set bs. set (loc c)) \<longrightarrow> chunk_mem s' a = chunk_mem s3 a"
      by blast
    have step: "remove_empty_pools_pass3_list cfg s c
        = remove_empty_pools_pass3_list cfg s3 (cp_next cfg s c)"
      using c(2) False num last1
      by (subst remove_empty_pools_pass3_list.simps)
        (simp add: Let_def cp_next_def N_def local_head_def [symmetric] h_def [symmetric]
          s1_def [symmetric] s2_def [symmetric] s3_def [symmetric])
    have g: "set G' = set G \<union> (\<Union>c\<in>{c' \<in> set (c # bs). 1 + length (loc c') \<noteq> N}. insert c (set (loc c)))"
      using r(3) False by (auto simp: grp_def)
    have b: "heap_blocks s' = filter (\<lambda>b. \<not> (b \<in> set (c # bs) \<and> 1 + length (loc b) = N)) (heap_blocks s)"
      using False unfolding r(5) by (auto simp: s3_def s2_def s1_def intro: filter_cong)
    have n: "mem_free_chunks_number s' + N * length (filter (\<lambda>c. 1 + length (loc c) = N) (c # bs))
          = mem_free_chunks_number s"
      using r(6) False by (simp add: s3_def s2_def s1_def)
    have fr: "\<forall>a. a \<notin> set (c # bs) \<and> a \<notin> (\<Union>c\<in>set (c # bs). set (loc c)) \<longrightarrow> chunk_mem s' a = chunk_mem s a"
      using r(7) cell by (auto simp: grp_def)
    show ?thesis
      unfolding c(1) step using r(1,2,4) g b n fr by blast
  qed
qed

lemma locals_ok_mono: "locals_ok cfg s C loc \<Longrightarrow> D \<subseteq> C \<Longrightarrow> locals_ok cfg s D loc"
  by (auto simp: locals_ok_def)

lemma pass3_loop:
  fixes cfg :: mem_config and N :: nat
  defines "N \<equiv> MEM_POOL_CHUNKS_NUMBER cfg"
  assumes "list_all2 (\<lambda>p bs. chain (cp_next cfg s) p bs 0) ps bss"
    and "distinct (concat bss)"
    and "free_list s G"
    and "locals_ok cfg s (set (concat bss)) loc"
    and "\<forall>c\<in>set (concat bss). c \<notin> set G \<and> c < 2 ^ 64
          \<and> (\<forall>y\<in>set (loc c). y \<notin> set G \<and> y \<notin> set (concat bss) \<and> y < 2 ^ 64 \<and> own y = c)"
    and "\<forall>y\<in>set G. y < 2 ^ 64"
    and "distinct (heap_blocks s)"
    and "N * length (filter (\<lambda>c. 1 + length (loc c) = N) (concat bss)) \<le> mem_free_chunks_number s"
    and "mem_free_chunks_number s < 2 ^ 64"
  shows "\<exists>s' G'. remove_empty_pools_pass3 cfg ps s = Some (Inr s')
     \<and> free_list s' G'
     \<and> set G' = set G
          \<union> (\<Union>c\<in>{c \<in> set (concat bss). 1 + length (loc c) \<noteq> N}. insert c (set (loc c)))
     \<and> heap_blocks s'
          = filter (\<lambda>b. \<not> (b \<in> set (concat bss) \<and> 1 + length (loc b) = N)) (heap_blocks s)
     \<and> mem_free_chunks_number s'
          + N * length (filter (\<lambda>c. 1 + length (loc c) = N) (concat bss))
          = mem_free_chunks_number s"
  using assms(2-)
proof (induction bss arbitrary: ps s G rule: list.induct)
  case Nil
  from Nil.prems(1) have "ps = []" by simp
  with Nil.prems(3) show ?case by (auto simp: done_with_def)
next
  case (Cons bs bss)
  let ?full = "\<lambda>c. 1 + length (loc c) = N"
  from Cons.prems(1) obtain p ps' where ps: "ps = p # ps'"
    and p: "chain (cp_next cfg s) p bs 0"
    and rest: "list_all2 (\<lambda>p bs. chain (cp_next cfg s) p bs 0) ps' bss"
    by (auto simp: list_all2_Cons2)
  have d: "distinct bs" "distinct (concat bss)" "set bs \<inter> set (concat bss) = {}"
    using Cons.prems(2) by auto
  have cc: "set (concat (bs # bss)) = set bs \<union> set (concat bss)" by simp
  have P5c: "c \<notin> set G \<and> c < 2 ^ 64" if "c \<in> set bs \<or> c \<in> set (concat bss)" for c
    using Cons.prems(5) that unfolding cc by blast
  have P5: "y \<notin> set G \<and> y \<notin> set bs \<and> y \<notin> set (concat bss) \<and> y < 2 ^ 64 \<and> own y = c"
    if "c \<in> set bs \<or> c \<in> set (concat bss)" "y \<in> set (loc c)" for c y
    using Cons.prems(5) that unfolding cc by blast
  have i3: "locals_ok cfg s (set bs) loc"
    using Cons.prems(4) by (rule locals_ok_mono) auto
  have i4: "\<forall>c\<in>set bs. c \<notin> set G \<and> c < 2 ^ 64
          \<and> (\<forall>y\<in>set (loc c). y \<notin> set G \<and> y \<notin> set bs \<and> y < 2 ^ 64 \<and> own y = c)"
    using P5c P5 by blast
  have i7: "N * length (filter ?full bs) \<le> mem_free_chunks_number s"
    using Cons.prems(8) by (simp add: distrib_left)
  from pass3_list_loop [OF p Cons.prems(3) i3 i4 Cons.prems(6,7) i7 [unfolded N_def] Cons.prems(9)]
  obtain s1 G1 where s1: "remove_empty_pools_pass3_list cfg s p = Some (Inr s1)"
    "free_list s1 G1"
    "set G1 = set G \<union> (\<Union>c\<in>{c \<in> set bs. \<not> ?full c}. insert c (set (loc c)))"
    "\<forall>y\<in>set G1. y < 2 ^ 64"
    "heap_blocks s1 = filter (\<lambda>b. \<not> (b \<in> set bs \<and> ?full b)) (heap_blocks s)"
    "mem_free_chunks_number s1 + N * length (filter ?full bs) = mem_free_chunks_number s"
    "\<forall>a. a \<notin> set bs \<and> a \<notin> (\<Union>c\<in>set bs. set (loc c)) \<longrightarrow> chunk_mem s1 a = chunk_mem s a"
    unfolding N_def by blast
  have untouched: "chunk_mem s1 a = chunk_mem s a"
    if "a \<in> set (concat bss) \<or> (\<exists>c\<in>set (concat bss). a \<in> set (loc c))" for a
  proof -
    have "a \<notin> set bs"
      using that d(3) P5 by blast
    moreover have "a \<notin> (\<Union>c\<in>set bs. set (loc c))"
    proof
      assume "a \<in> (\<Union>c\<in>set bs. set (loc c))"
      then obtain c where c: "c \<in> set bs" "a \<in> set (loc c)" by auto
      with P5 [of c a] have a: "a \<notin> set (concat bss)" "own a = c" by simp_all
      with that obtain c' where c': "c' \<in> set (concat bss)" "a \<in> set (loc c')" by blast
      with P5 [of c' a] have "own a = c'" by simp
      with a(2) c(1) c'(1) d(3) show False by blast
    qed
    ultimately show ?thesis using s1(7) by simp
  qed
  have j1: "list_all2 (\<lambda>p bs. chain (cp_next cfg s1) p bs 0) ps' bss"
  proof (rule list.rel_mono_strong [OF rest])
    fix p' bs' assume bs': "bs' \<in> set bss" and ch: "chain (cp_next cfg s) p' bs' 0"
    have "cp_next cfg s1 a = cp_next cfg s a" if "a \<in> set bs'" for a
    proof -
      have "a \<in> set (concat bss)" using that bs' by auto
      then have "chunk_mem s1 a = chunk_mem s a" by (intro untouched) blast
      then show ?thesis by (simp add: cp_next_def load_layout_def)
    qed
    then show "chain (cp_next cfg s1) p' bs' 0"
      using ch by (subst chain_cong [of bs' "cp_next cfg s1" "cp_next cfg s"]) auto
  qed
  have j4: "locals_ok cfg s1 (set (concat bss)) loc"
    unfolding locals_ok_def
  proof
    fix c assume c: "c \<in> set (concat bss)"
    have "chunk_mem s1 c = chunk_mem s c" using c by (intro untouched) blast
    then have l: "load_layout s1 c = load_layout s c"
      by (simp add: load_layout_def)
    have "nx s1 a = nx s a" if "a \<in> set (loc c)" for a
    proof -
      have "chunk_mem s1 a = chunk_mem s a" using that c by (intro untouched) blast
      then show ?thesis by (simp add: nx_def next_of_def)
    qed
    then have "chain (nx s1) (local_head cfg s c) (loc c) 0 = chain (nx s) (local_head cfg s c) (loc c) 0"
      by (intro chain_cong) simp
    with Cons.prems(4) c l show "chain (nx s1) (local_head cfg s1 c) (loc c) 0 \<and>
          unat (free_chunks_num (load_layout s1 c)) = 1 + length (loc c)"
      by (simp add: locals_ok_def local_head_def)
  qed
  have j5: "\<forall>c\<in>set (concat bss). c \<notin> set G1 \<and> c < 2 ^ 64
          \<and> (\<forall>y\<in>set (loc c). y \<notin> set G1 \<and> y \<notin> set (concat bss) \<and> y < 2 ^ 64 \<and> own y = c)"
  proof (intro ballI conjI)
    fix c assume c: "c \<in> set (concat bss)"
    from c P5c [of c] have c1: "c \<notin> set G" "c < 2 ^ 64" by simp_all
    have c2: "c \<notin> set bs" using c d(3) by blast
    have c3: "c \<notin> set (loc c')" if "c' \<in> set bs" for c'
      using P5 [of c' c] that c by blast
    show "c \<notin> set G1" unfolding s1(3) using c1 c2 c3 by blast
    show "c < 2 ^ 64" by (rule c1)
    fix y assume y: "y \<in> set (loc c)"
    from y c P5 [of c y] have y1: "y \<notin> set G" "y \<notin> set bs" "y \<notin> set (concat bss)"
      "y < 2 ^ 64" "own y = c"
      by simp_all
    have y2: "y \<notin> set (loc c')" if "c' \<in> set bs" for c'
    proof
      assume "y \<in> set (loc c')"
      with P5 [of c' y] that have "own y = c'" by simp
      with y1(5) that c2 show False by simp
    qed
    show "y \<notin> set G1" unfolding s1(3) using y1 y2 by blast
    show "y \<notin> set (concat bss)" by (rule y1)
    show "y < 2 ^ 64" by (rule y1)
    show "own y = c" by (rule y1)
  qed
  have j7: "distinct (heap_blocks s1)" using Cons.prems(7) by (simp add: s1(5))
  have j8: "N * length (filter ?full (concat bss)) \<le> mem_free_chunks_number s1"
    using Cons.prems(8) s1(6) by (simp add: distrib_left)
  have j9: "mem_free_chunks_number s1 < 2 ^ 64" using Cons.prems(9) s1(6) by simp
  from Cons.IH [OF j1 d(2) s1(2) j4 j5 s1(4) j7 j8 j9]
  obtain s' G' where r: "remove_empty_pools_pass3 cfg ps' s1 = Some (Inr s')"
    "free_list s' G'"
    "set G' = set G1 \<union> (\<Union>c\<in>{c \<in> set (concat bss). \<not> ?full c}. insert c (set (loc c)))"
    "heap_blocks s' = filter (\<lambda>b. \<not> (b \<in> set (concat bss) \<and> ?full b)) (heap_blocks s1)"
    "mem_free_chunks_number s' + N * length (filter ?full (concat bss)) = mem_free_chunks_number s1"
    by blast
  have run: "remove_empty_pools_pass3 cfg ps s = Some (Inr s')"
    using s1(1) r(1) by (simp add: ps)
  have g: "set G' = set G
      \<union> (\<Union>c\<in>{c \<in> set (concat (bs # bss)). \<not> ?full c}. insert c (set (loc c)))"
    unfolding r(3) s1(3) cc by blast
  have b: "heap_blocks s'
      = filter (\<lambda>b. \<not> (b \<in> set (concat (bs # bss)) \<and> ?full b)) (heap_blocks s)"
    unfolding r(4) s1(5) cc by (simp add: conj_commute) (metis (mono_tags, lifting) filter_cong)
  have n: "mem_free_chunks_number s' + N * length (filter ?full (concat (bs # bss)))
      = mem_free_chunks_number s"
    using r(5) s1(6) by (simp add: distrib_left)
  show ?case using run r(2) g b n by blast
qed

lemma met_free_chunks_correct:
  "chain (next_of m) p xs 0 \<Longrightarrow> k + length xs < 2 ^ 64
     \<Longrightarrow> met_free_chunks m p k = Some (k + length xs)"
proof (induction xs arbitrary: p k)
  case Nil
  then show ?case by (subst met_free_chunks.simps) simp
next
  case (Cons x xs)
  then have x: "p = x" "x \<noteq> 0" "chain (next_of m) (next_of m x) xs 0" by auto
  have "size_t_add k 1 = k + 1" using Cons.prems(2) by (simp add: size_t_add_small)
  moreover have "met_free_chunks m (next_of m x) (k + 1) = Some (k + 1 + length xs)"
    using Cons.prems(2) by (intro Cons.IH [OF x(3)]) simp
  ultimately show ?case
    using x by (subst met_free_chunks.simps) simp
qed

lemma distinct_concat_map:
  "distinct is \<Longrightarrow> (\<forall>i\<in>set is. distinct (f i))
     \<Longrightarrow> (\<forall>i\<in>set is. \<forall>j\<in>set is. i \<noteq> j \<longrightarrow> set (f i) \<inter> set (f j) = {})
     \<Longrightarrow> distinct (concat (map f is))"
  by (induction "is") auto

lemma static_asserts_pos: "static_asserts cfg \<Longrightarrow> 0 < MEM_POOL_CHUNK_SIZE cfg"
  by (simp add: static_asserts_def)

lemma in_chunk_addrs_iff:
  assumes "heap_ok cfg bs" and "0 < MEM_POOL_CHUNK_SIZE cfg" and "valid_chunk cfg bs x"
    and "p \<in> set bs"
  shows "x \<in> set (chunk_addrs cfg p) \<longleftrightarrow> block_of cfg bs x = p"
  using block_of_chunk [OF assms(1,2,4)] block_of_valid [OF assms(1,2,3)] by blast

lemma block_is_first:
  assumes "heap_ok cfg bs" and "0 < MEM_POOL_CHUNK_SIZE cfg" and "1 \<le> MEM_POOL_CHUNKS_NUMBER cfg"
    and "p \<in> set bs"
  shows "block_of cfg bs p = p" and "valid_chunk cfg bs p"
proof -
  have "p \<in> set (chunk_addrs cfg p)" using assms(3) by (rule first_chunk_in_addrs)
  with assms(4) show "valid_chunk cfg bs p" by (auto simp: valid_chunk_def)
  from block_of_chunk [OF assms(1,2,4) \<open>p \<in> set (chunk_addrs cfg p)\<close>]
  show "block_of cfg bs p = p" .
qed

lemma pools_disjoint:
  assumes "heap_ok cfg bs" and "0 < MEM_POOL_CHUNK_SIZE cfg" and "p \<in> set bs" and "q \<in> set bs"
    and "p \<noteq> q"
  shows "set (chunk_addrs cfg p) \<inter> set (chunk_addrs cfg q) = {}"
proof (rule ccontr)
  assume "set (chunk_addrs cfg p) \<inter> set (chunk_addrs cfg q) \<noteq> {}"
  then obtain a where "a \<in> set (chunk_addrs cfg p)" "a \<in> set (chunk_addrs cfg q)" by blast
  with block_of_chunk [OF assms(1,2,3)] block_of_chunk [OF assms(1,2,4)] assms(5)
  show False by metis
qed

text \<open>
  How many chunks of the pool \<open>c\<close> are on the list \<open>xs\<close>, apart from its first chunk: as
  many as the second pass moves to the local list of \<open>c\<close>.
\<close>

lemma local_count:
  assumes ok: "heap_ok cfg bs" and cs: "0 < MEM_POOL_CHUNK_SIZE cfg"
    and d: "distinct xs" and v: "\<forall>x\<in>set xs. valid_chunk cfg bs x"
    and c: "c \<in> set xs" "is_first cfg bs c"
  defines "moved \<equiv> filter (\<lambda>x. block_of cfg bs x = c) (filter (\<lambda>x. \<not> is_first cfg bs x) xs)"
  shows "1 + length moved = card (set xs \<inter> set (chunk_addrs cfg c))"
    and "1 + length moved \<le> MEM_POOL_CHUNKS_NUMBER cfg"
    and "1 + length moved = MEM_POOL_CHUNKS_NUMBER cfg \<longleftrightarrow> pool_is_free cfg xs c"
proof -
  let ?S = "set xs \<inter> set (chunk_addrs cfg c)"
  have vc: "valid_chunk cfg bs c" using v c(1) by blast
  have Bc: "block_of cfg bs c = c" using c(2) by (simp add: is_first_def)
  have cbs: "c \<in> set bs" and cc: "c \<in> set (chunk_addrs cfg c)"
    using block_of_valid [OF ok cs vc] Bc by simp_all
  have mem: "x \<in> set (chunk_addrs cfg c) \<longleftrightarrow> block_of cfg bs x = c" if "x \<in> set xs" for x
    using in_chunk_addrs_iff [OF ok cs _ cbs, of x] v that by blast
  have "set moved = ?S - {c}"
  proof (intro set_eqI iffI)
    fix x assume "x \<in> set moved"
    then have x: "x \<in> set xs" "block_of cfg bs x = c" "block_of cfg bs x \<noteq> x"
      by (simp_all add: moved_def is_first_def)
    with mem [of x] show "x \<in> ?S - {c}" by auto
  next
    fix x assume "x \<in> ?S - {c}"
    then have x: "x \<in> set xs" "x \<in> set (chunk_addrs cfg c)" "x \<noteq> c" by auto
    with mem [of x] have "block_of cfg bs x = c" by simp
    with x show "x \<in> set moved" by (simp add: moved_def is_first_def)
  qed
  moreover have "distinct moved" using d by (simp add: moved_def)
  ultimately have lm: "length moved = card (?S - {c})" by (metis distinct_card)
  have cS: "c \<in> ?S" using c(1) cc by simp
  have fin: "finite ?S" by simp
  have "card (?S - {c}) = card ?S - 1" using cS fin by (simp add: card_Diff_singleton)
  moreover have "0 < card ?S" using cS fin by (auto simp: card_gt_0_iff)
  ultimately show len: "1 + length moved = card ?S" using lm by simp
  have cardc: "card (set (chunk_addrs cfg c)) = MEM_POOL_CHUNKS_NUMBER cfg"
    using distinct_chunk_addrs [OF cs, of c] by (simp add: distinct_card)
  have "card ?S \<le> card (set (chunk_addrs cfg c))" by (rule card_mono) auto
  with len cardc show "1 + length moved \<le> MEM_POOL_CHUNKS_NUMBER cfg" by simp
  show "1 + length moved = MEM_POOL_CHUNKS_NUMBER cfg \<longleftrightarrow> pool_is_free cfg xs c"
  proof
    assume "1 + length moved = MEM_POOL_CHUNKS_NUMBER cfg"
    with len cardc have "card ?S = card (set (chunk_addrs cfg c))" by simp
    then have "?S = set (chunk_addrs cfg c)" by (intro card_subset_eq) auto
    then show "pool_is_free cfg xs c" by (auto simp: pool_is_free_def)
  next
    assume "pool_is_free cfg xs c"
    then have "?S = set (chunk_addrs cfg c)" by (auto simp: pool_is_free_def)
    with len cardc show "1 + length moved = MEM_POOL_CHUNKS_NUMBER cfg" by simp
  qed
qed

lemma free_pools_count:
  assumes ok: "heap_ok cfg bs" and cs: "0 < MEM_POOL_CHUNK_SIZE cfg" and d: "distinct xs"
    and Cf: "Cf \<subseteq> set bs" "\<forall>c\<in>Cf. pool_is_free cfg xs c"
  shows "card (\<Union>c\<in>Cf. set (chunk_addrs cfg c)) = MEM_POOL_CHUNKS_NUMBER cfg * card Cf"
    and "MEM_POOL_CHUNKS_NUMBER cfg * card Cf \<le> length xs"
proof -
  have fin: "finite Cf" using Cf(1) by (rule finite_subset) simp
  have "card (\<Union>c\<in>Cf. set (chunk_addrs cfg c)) = (\<Sum>c\<in>Cf. card (set (chunk_addrs cfg c)))"
  proof (rule card_UN_disjoint [OF fin])
    show "\<forall>i\<in>Cf. finite (set (chunk_addrs cfg i))" by simp
    show "\<forall>i\<in>Cf. \<forall>j\<in>Cf. i \<noteq> j \<longrightarrow> set (chunk_addrs cfg i) \<inter> set (chunk_addrs cfg j) = {}"
      using pools_disjoint [OF ok cs] Cf(1) by blast
  qed
  also have "\<dots> = (\<Sum>c\<in>Cf. MEM_POOL_CHUNKS_NUMBER cfg)"
    using distinct_chunk_addrs [OF cs] by (simp add: distinct_card)
  finally show eq: "card (\<Union>c\<in>Cf. set (chunk_addrs cfg c)) = MEM_POOL_CHUNKS_NUMBER cfg * card Cf"
    by simp
  have "(\<Union>c\<in>Cf. set (chunk_addrs cfg c)) \<subseteq> set xs"
    using Cf(2) by (auto simp: pool_is_free_def)
  then have "card (\<Union>c\<in>Cf. set (chunk_addrs cfg c)) \<le> card (set xs)"
    by (intro card_mono) auto
  with eq d show "MEM_POOL_CHUNKS_NUMBER cfg * card Cf \<le> length xs"
    by (simp add: distinct_card)
qed

lemma heap_ok_filter: "heap_ok cfg bs \<Longrightarrow> heap_ok cfg (filter P bs)"
  by (auto simp: heap_ok_def)

lemma word32_of_nat_eq_0:
  assumes "n < 2 ^ 32"
  shows "(word_of_nat n :: 32 word) = 0 \<longleftrightarrow> n = 0"
proof -
  have "(2 ^ 32 :: nat) dvd n \<longleftrightarrow> n = 0"
    using assms by (auto dest: dvd_imp_le)
  then show ?thesis by (simp add: word_of_nat_eq_0_iff)
qed

lemma pass1_from_start:
  assumes inv: "pools_inv cfg s xs"
  defines "bs \<equiv> heap_blocks s"
  shows "\<exists>s1 heads1 bk1.
      remove_empty_pools_pass1 cfg s
          (replicate number_of_list_of_pools_with_free_first_chunk 0) 0 (mem_free_chunk_p s) 0
        = Some (Inr (s1, heads1, word_of_nat (length (filter (is_first cfg bs) xs))))
      \<and> free_list s1 (filter (\<lambda>x. \<not> is_first cfg bs x) xs)
      \<and> buckets_ok cfg s1 heads1 bk1 \<and> fresh_cands s1 bk1
      \<and> cands bk1 = {x \<in> set xs. is_first cfg bs x}
      \<and> heap_blocks s1 = bs
      \<and> mem_free_chunks_number s1 = mem_free_chunks_number s
      \<and> (\<forall>a. a \<notin> set xs \<longrightarrow> chunk_mem s1 a = chunk_mem s a)"
proof -
  from inv have ok: "heap_ok cfg bs" and fl: "free_list s xs"
    and v: "\<forall>x\<in>set xs. valid_chunk cfg bs x"
    by (simp_all add: pools_inv_def bs_def)
  have d: "distinct xs" using fl by (auto simp: free_list_nx dest: chain_distinct)
  have cp: "\<forall>x\<in>set xs. cp_ok cfg x" using valid_chunk_props(2) [OF ok] v by blast
  have "length xs \<le> 2 ^ 16" using d cp by (rule cp_ok_bound)
  then have len: "0 + length xs < 2 ^ 32" by simp
  have a1: "chain (nx s) (mem_free_chunk_p s) [] (mem_free_chunk_p s)" by simp
  have a2: "chain (nx s) (mem_free_chunk_p s) xs 0" using fl by (simp add: free_list_nx)
  have a3: "buckets_ok cfg s (replicate 8 0) (\<lambda>_. [])" by (simp add: buckets_ok_def)
  have a4: "fresh_cands s (\<lambda>_. [])" by (simp add: fresh_cands_def cands_def)
  have a5: "cands (\<lambda>_. []) \<inter> set ([] @ xs) = {}" by (simp add: cands_def)
  from pass1_loop [OF a1 a2 a3 a4 a5 cp len]
  show ?thesis
    by (simp add: last_or_null_def number_of_list_of_pools_with_free_first_chunk_def
        cands_def bs_def)
qed

lemma pass1_no_first:
  "chain (nx s) iter xs 0 \<Longrightarrow> \<forall>x\<in>set xs. \<not> is_first cfg (heap_blocks s) x
     \<Longrightarrow> remove_empty_pools_pass1 cfg s heads n iter prev = Some (Inr (s, heads, n))"
proof (induction xs arbitrary: iter prev)
  case Nil
  then show ?case by (subst remove_empty_pools_pass1.simps) simp
next
  case (Cons x xs)
  then have x: "iter = x" "x \<noteq> 0" "chain (nx s) (nx s x) xs 0"
    and nf: "block_of cfg (heap_blocks s) x \<noteq> x" "\<forall>x\<in>set xs. \<not> is_first cfg (heap_blocks s) x"
    by (auto simp: is_first_def)
  from Cons.IH [OF x(3) nf(2)] x(1,2) nf(1) show ?case
    by (subst remove_empty_pools_pass1.simps)
      (simp add: Let_def block_start_eq nx_def [symmetric])
qed

lemma remove_empty_pools_no_first:
  assumes "free_list s xs" and "\<forall>x\<in>set xs. \<not> is_first cfg (heap_blocks s) x"
  shows "mem_pools_remove_empty_pools cfg s = Some (Inr s)"
proof -
  have "chain (nx s) (mem_free_chunk_p s) xs 0" using assms(1) by (simp add: free_list_nx)
  from pass1_no_first [OF this assms(2)] show ?thesis
    by (simp add: mem_pools_remove_empty_pools_def done_with_def)
qed

lemma pass2_from_start:
  assumes inv: "pools_inv cfg s xs"
    and s1: "free_list s1 (filter (\<lambda>x. \<not> is_first cfg (heap_blocks s) x) xs)"
      "buckets_ok cfg s1 heads1 bk1" "fresh_cands s1 bk1"
      "cands bk1 = {x \<in> set xs. is_first cfg (heap_blocks s) x}"
      "heap_blocks s1 = heap_blocks s"
  defines "bs \<equiv> heap_blocks s"
  defines "R \<equiv> filter (\<lambda>x. \<not> is_first cfg bs x) xs"
  shows "\<exists>s2. remove_empty_pools_pass2 cfg heads1 s1 (mem_free_chunk_p s1) 0 = Some (Inr s2)
      \<and> free_list s2 (filter (\<lambda>x. block_of cfg bs x \<notin> cands bk1) R)
      \<and> buckets_ok cfg s2 heads1 bk1
      \<and> locals_ok cfg s2 (cands bk1) (\<lambda>c. rev (filter (\<lambda>x. block_of cfg bs x = c) R))
      \<and> heap_blocks s2 = bs
      \<and> mem_free_chunks_number s2 = mem_free_chunks_number s1"
proof -
  from inv have st: "static_asserts cfg" and ok: "heap_ok cfg bs" and fl: "free_list s xs"
    and v: "\<forall>x\<in>set xs. valid_chunk cfg bs x"
    and Nb: "bs \<noteq> [] \<longrightarrow> MEM_POOL_CHUNKS_NUMBER cfg \<le> 255"
    by (simp_all add: pools_inv_def bs_def)
  have cs: "0 < MEM_POOL_CHUNK_SIZE cfg" using st by (rule static_asserts_pos)
  have d: "distinct xs" using fl by (auto simp: free_list_nx dest: chain_distinct)
  have a1: "chain (nx s1) (mem_free_chunk_p s1) [] (mem_free_chunk_p s1)" by simp
  have a2: "chain (nx s1) (mem_free_chunk_p s1) R 0"
    using s1(1) by (simp add: free_list_nx R_def bs_def)
  have a4: "cands bk1 \<inter> set ([] @ R) = {}"
    by (auto simp: s1(4) R_def bs_def)
  have a5: "locals_ok cfg s1 (cands bk1) (\<lambda>_. [])"
    using s1(3)
    by (simp add: locals_ok_def fresh_cands_def local_head_def MEM_CP_GET_POINTER_def)
  have a6: "\<forall>c\<in>cands bk1. \<forall>y\<in>set ((\<lambda>_. []) c). y \<notin> set ([] @ R) \<and> y \<notin> cands bk1 \<and> y < 2 ^ 64
           \<and> block_of cfg (heap_blocks s1) y = c"
    by simp
  have a7: "\<forall>x\<in>set R. cp_ok cfg x \<and> x < 2 ^ 64"
    using valid_chunk_props(1,2) [OF ok] v by (auto simp: R_def)
  have a8: "\<forall>c\<in>cands bk1. length ((\<lambda>_. []) c)
      + length (filter (\<lambda>x. block_of cfg (heap_blocks s1) x = c) R) < 255"
  proof
    fix c assume "c \<in> cands bk1"
    then have c: "c \<in> set xs" "is_first cfg bs c" by (simp_all add: s1(4) bs_def)
    have "bs \<noteq> []" using v c(1) by (auto simp: valid_chunk_def)
    with Nb local_count(2) [OF ok cs d v c]
    show "length ((\<lambda>_. []) c) + length (filter (\<lambda>x. block_of cfg (heap_blocks s1) x = c) R) < 255"
      by (simp add: R_def s1(5) bs_def)
  qed
  from pass2_loop [OF a1 a2 s1(2) a4 a5 a6 a7 a8]
  show ?thesis by (simp add: last_or_null_def s1(5) bs_def) blast
qed

lemma free_pool_is_cand:
  assumes ok: "heap_ok cfg bs" and cs: "0 < MEM_POOL_CHUNK_SIZE cfg"
    and N: "1 \<le> MEM_POOL_CHUNKS_NUMBER cfg" and p: "p \<in> set bs" "pool_is_free cfg xs p"
  shows "p \<in> set xs \<and> is_first cfg bs p"
proof -
  have "p \<in> set (chunk_addrs cfg p)" using N by (rule first_chunk_in_addrs)
  with p(2) have "p \<in> set xs" by (auto simp: pool_is_free_def)
  with block_is_first(1) [OF ok cs N p(1)] show ?thesis by (simp add: is_first_def)
qed

lemma kept_chunks:
  assumes ok: "heap_ok cfg bs" and cs: "0 < MEM_POOL_CHUNK_SIZE cfg"
    and N: "1 \<le> MEM_POOL_CHUNKS_NUMBER cfg"
    and v: "\<forall>x\<in>set xs. valid_chunk cfg bs x"
  defines "C \<equiv> {x \<in> set xs. is_first cfg bs x}"
  defines "R \<equiv> filter (\<lambda>x. \<not> is_first cfg bs x) xs"
  shows "set (filter (\<lambda>x. block_of cfg bs x \<notin> C) R)
        \<union> (\<Union>c\<in>{c \<in> C. \<not> pool_is_free cfg xs c}.
              insert c (set (rev (filter (\<lambda>x. block_of cfg bs x = c) R))))
       = {x \<in> set xs. \<not> pool_is_free cfg xs (block_of cfg bs x)}" (is "?L = ?K")
proof (intro set_eqI iffI)
  fix x assume "x \<in> ?L"
  then have "(x \<in> set R \<and> block_of cfg bs x \<notin> C) \<or> (x \<in> C \<and> \<not> pool_is_free cfg xs x)
      \<or> (x \<in> set R \<and> \<not> pool_is_free cfg xs (block_of cfg bs x))"
    by (simp del: set_rev set_filter add: Bex_def) (simp, blast)
  then consider (a) "x \<in> set R" "block_of cfg bs x \<notin> C"
    | (b) "x \<in> C" "\<not> pool_is_free cfg xs x"
    | (c) "x \<in> set R" "\<not> pool_is_free cfg xs (block_of cfg bs x)"
    by blast
  then show "x \<in> ?K"
  proof cases
    case a
    then have x: "x \<in> set xs" by (simp add: R_def)
    with v have "valid_chunk cfg bs x" by blast
    from block_of_valid [OF ok cs this] have "block_of cfg bs x \<in> set bs" by simp
    from free_pool_is_cand [OF ok cs N this] a(2)
    have "\<not> pool_is_free cfg xs (block_of cfg bs x)" by (auto simp: C_def)
    with x show ?thesis by simp
  next
    case b
    then show ?thesis by (simp add: C_def is_first_def)
  next
    case c
    then show ?thesis by (simp add: R_def)
  qed
next
  fix x assume "x \<in> ?K"
  then have x: "x \<in> set xs" "\<not> pool_is_free cfg xs (block_of cfg bs x)" by simp_all
  show "x \<in> ?L"
  proof (cases "is_first cfg bs x")
    case True
    with x have "x \<in> C" "\<not> pool_is_free cfg xs x" by (simp_all add: C_def is_first_def)
    then show ?thesis by blast
  next
    case False
    with x have xR: "x \<in> set R" by (simp add: R_def)
    show ?thesis
    proof (cases "block_of cfg bs x \<in> C")
      case True
      with x(2) xR
      have "x \<in> (\<Union>c\<in>{c \<in> C. \<not> pool_is_free cfg xs c}.
              insert c (set (rev (filter (\<lambda>x. block_of cfg bs x = c) R))))"
        by (intro UN_I [of "block_of cfg bs x"]) simp_all
      then show ?thesis by blast
    next
      case False
      with xR show ?thesis by simp
    qed
  qed
qed

lemma released_chunks:
  assumes ok: "heap_ok cfg bs" and cs: "0 < MEM_POOL_CHUNK_SIZE cfg"
    and N: "1 \<le> MEM_POOL_CHUNKS_NUMBER cfg"
    and v: "\<forall>x\<in>set xs. valid_chunk cfg bs x"
  defines "Cf \<equiv> {c \<in> set bs. pool_is_free cfg xs c}"
  shows "{x \<in> set xs. pool_is_free cfg xs (block_of cfg bs x)}
       = (\<Union>c\<in>Cf. set (chunk_addrs cfg c))" (is "?L = ?K")
proof (intro set_eqI iffI)
  fix x assume "x \<in> ?L"
  then have x: "x \<in> set xs" "pool_is_free cfg xs (block_of cfg bs x)" by simp_all
  with v have "valid_chunk cfg bs x" by blast
  from block_of_valid [OF ok cs this] x(2) show "x \<in> ?K" by (auto simp: Cf_def)
next
  fix x assume "x \<in> ?K"
  then obtain c where c: "c \<in> set bs" "pool_is_free cfg xs c" "x \<in> set (chunk_addrs cfg c)"
    by (auto simp: Cf_def)
  have "x \<in> set xs" using c(2,3) by (auto simp: pool_is_free_def)
  with block_of_chunk [OF ok cs c(1,3)] c(2) show "x \<in> ?L" by simp
qed

lemma kept_count:
  assumes ok: "heap_ok cfg bs" and cs: "0 < MEM_POOL_CHUNK_SIZE cfg"
    and N: "1 \<le> MEM_POOL_CHUNKS_NUMBER cfg" and d: "distinct xs"
    and v: "\<forall>x\<in>set xs. valid_chunk cfg bs x"
  shows "card {x \<in> set xs. \<not> pool_is_free cfg xs (block_of cfg bs x)}
       + MEM_POOL_CHUNKS_NUMBER cfg * card {c \<in> set bs. pool_is_free cfg xs c} = length xs"
proof -
  let ?K = "{x \<in> set xs. \<not> pool_is_free cfg xs (block_of cfg bs x)}"
  let ?F = "{x \<in> set xs. pool_is_free cfg xs (block_of cfg bs x)}"
  have "card (?K \<union> ?F) = card ?K + card ?F"
    by (rule card_Un_disjoint) auto
  moreover have "?K \<union> ?F = set xs" by blast
  moreover have "card ?F = MEM_POOL_CHUNKS_NUMBER cfg * card {c \<in> set bs. pool_is_free cfg xs c}"
    unfolding released_chunks [OF ok cs N v]
    by (rule free_pools_count(1) [OF ok cs d]) simp_all
  ultimately show ?thesis using d by (simp add: distinct_card)
qed

lemma buckets_concat:
  assumes b: "buckets_ok cfg s heads bk"
  defines "L \<equiv> concat (map bk [0..<8])"
  shows "set L = cands bk" and "distinct L"
    and "list_all2 (\<lambda>p bs. chain (cp_next cfg s) p bs 0) heads (map bk [0..<8])"
proof -
  show "set L = cands bk" by (auto simp: L_def cands_def)
  from b have len: "length heads = 8"
    and ch: "\<And>i. i < 8 \<Longrightarrow> chain (cp_next cfg s) (heads ! i) (bk i) 0"
    and ids: "\<And>i c. i < 8 \<Longrightarrow> c \<in> set (bk i) \<Longrightarrow> unat (layout_id (load_layout s c)) = i"
    by (simp_all add: buckets_ok_def)
  show "distinct L" unfolding L_def
  proof (rule distinct_concat_map)
    show "distinct [0..<8]" by simp
    show "\<forall>i\<in>set [0..<8]. distinct (bk i)" using chain_distinct [OF ch] by simp
    show "\<forall>i\<in>set [0..<8]. \<forall>j\<in>set [0..<8]. i \<noteq> j \<longrightarrow> set (bk i) \<inter> set (bk j) = {}"
    proof (intro ballI impI)
      fix i j :: nat assume ij: "i \<in> set [0..<8]" "j \<in> set [0..<8]" "i \<noteq> j"
      show "set (bk i) \<inter> set (bk j) = {}"
      proof (rule ccontr)
        assume "set (bk i) \<inter> set (bk j) \<noteq> {}"
        then obtain c where "c \<in> set (bk i)" "c \<in> set (bk j)" by blast
        with ids [of i c] ids [of j c] ij show False by simp
      qed
    qed
  qed
  show "list_all2 (\<lambda>p bs. chain (cp_next cfg s) p bs 0) heads (map bk [0..<8])"
    using len ch by (simp add: list_all2_conv_all_nth)
qed

lemma length_filter_card:
  "distinct xs \<Longrightarrow> length (filter P xs) = card {x \<in> set xs. P x}"
proof -
  assume "distinct xs"
  then have "distinct (filter P xs)" by simp
  then have "card (set (filter P xs)) = length (filter P xs)" by (rule distinct_card)
  then show ?thesis by simp
qed

lemma pass3_from_start:
  fixes cfg :: mem_config and s :: mem_pools_state and xs :: "nat list"
  defines "bs \<equiv> heap_blocks s"
  defines "R \<equiv> filter (\<lambda>x. \<not> is_first cfg bs x) xs"
  defines "N \<equiv> MEM_POOL_CHUNKS_NUMBER cfg"
  assumes inv: "pools_inv cfg s xs" and ne: "bs \<noteq> []"
    and b: "buckets_ok cfg s2 heads1 bk1"
    and cands: "cands bk1 = {x \<in> set xs. is_first cfg bs x}"
    and fl2: "free_list s2 (filter (\<lambda>x. block_of cfg bs x \<notin> cands bk1) R)"
    and loc: "locals_ok cfg s2 (cands bk1) (\<lambda>c. rev (filter (\<lambda>x. block_of cfg bs x = c) R))"
    and hb: "heap_blocks s2 = bs" and cnt: "mem_free_chunks_number s2 = length xs"
  shows "\<exists>s3 G3. remove_empty_pools_pass3 cfg heads1 s2 = Some (Inr s3)
      \<and> pools_inv cfg s3 G3
      \<and> set G3 = {x \<in> set xs. \<not> pool_is_free cfg xs (block_of cfg bs x)}
      \<and> heap_blocks s3 = filter (\<lambda>p. \<not> pool_is_free cfg xs p) bs"
proof -
  define L where "L = concat (map bk1 [0..<8])"
  define G2 where "G2 = filter (\<lambda>x. block_of cfg bs x \<notin> cands bk1) R"
  define loc2 where "loc2 = (\<lambda>c. rev (filter (\<lambda>x. block_of cfg bs x = c) R))"
  define full where "full = (\<lambda>c. 1 + length (loc2 c) = N)"
  define Cf where "Cf = {c \<in> set bs. pool_is_free cfg xs c}"
  define K where "K = {x \<in> set xs. \<not> pool_is_free cfg xs (block_of cfg bs x)}"
  from inv have st: "static_asserts cfg" and ok: "heap_ok cfg bs" and fl: "free_list s xs"
    and cn: "mem_free_chunks_number s = length xs"
    and v: "\<forall>x\<in>set xs. valid_chunk cfg bs x"
    and Nb: "1 \<le> N" "N \<le> 255"
    using ne by (simp_all add: pools_inv_def bs_def N_def)
  have cs: "0 < MEM_POOL_CHUNK_SIZE cfg" using st by (rule static_asserts_pos)
  have d: "distinct xs" using fl by (auto simp: free_list_nx dest: chain_distinct)
  have N1: "1 \<le> MEM_POOL_CHUNKS_NUMBER cfg" using Nb(1) by (simp add: N_def)
  have setL: "set L = cands bk1" and dL: "distinct L"
    and a1: "list_all2 (\<lambda>p bs. chain (cp_next cfg s2) p bs 0) heads1 (map bk1 [0..<8])"
    using buckets_concat [OF b] by (simp_all add: L_def)
  have cand: "c \<in> set xs \<and> is_first cfg bs c" if "c \<in> set L" for c
    using that by (simp add: setL cands)
  have fullc: "full c \<longleftrightarrow> pool_is_free cfg xs c" if "c \<in> set L" for c
    using local_count(3) [OF ok cs d v, of c] cand [OF that]
    by (simp add: full_def loc2_def R_def N_def)
  have Cf_eq: "{c \<in> set L. full c} = Cf"
  proof (intro set_eqI iffI)
    fix c assume "c \<in> {c \<in> set L. full c}"
    then have c: "c \<in> set L" "pool_is_free cfg xs c" using fullc by auto
    from cand [OF c(1)] v have "valid_chunk cfg bs c" "block_of cfg bs c = c"
      by (auto simp: is_first_def)
    with block_of_valid [OF ok cs, of c] have "c \<in> set bs" by simp
    with c(2) show "c \<in> Cf" by (simp add: Cf_def)
  next
    fix c assume "c \<in> Cf"
    then have c: "c \<in> set bs" "pool_is_free cfg xs c" by (simp_all add: Cf_def)
    from free_pool_is_cand [OF ok cs N1 c] have "c \<in> set L" by (simp add: setL cands)
    with c(2) fullc show "c \<in> {c \<in> set L. full c}" by simp
  qed
  have lenF: "length (filter full L) = card Cf"
    using length_filter_card [OF dL, of full] Cf_eq by simp
  have total: "card K + N * card Cf = length xs"
    using kept_count [OF ok cs N1 d v] by (simp add: K_def Cf_def N_def)
  have xs64: "\<forall>x\<in>set xs. cp_ok cfg x \<and> x < 2 ^ 64"
    using valid_chunk_props(1,2) [OF ok] v by blast
  have "length xs \<le> 2 ^ 16" using cp_ok_bound [OF d] xs64 by blast
  then have lx: "length xs < 2 ^ 64" by simp
  have a3: "free_list s2 G2" using fl2 by (simp add: G2_def)
  have a4: "locals_ok cfg s2 (set L) loc2" using loc by (simp add: setL loc2_def)
  have a5: "\<forall>c\<in>set L. c \<notin> set G2 \<and> c < 2 ^ 64
      \<and> (\<forall>y\<in>set (loc2 c). y \<notin> set G2 \<and> y \<notin> set L \<and> y < 2 ^ 64 \<and> block_of cfg bs y = c)"
  proof (intro ballI conjI)
    fix c assume c: "c \<in> set L"
    from cand [OF c] show "c \<notin> set G2" by (simp add: G2_def R_def)
    from cand [OF c] xs64 show "c < 2 ^ 64" by blast
    fix y assume "y \<in> set (loc2 c)"
    then have y: "y \<in> set xs" "\<not> is_first cfg bs y" "block_of cfg bs y = c"
      by (simp_all add: loc2_def R_def)
    from y(3) c show "y \<notin> set G2" by (simp add: G2_def setL)
    from y(2) cand [of y] show "y \<notin> set L" by blast
    from y(1) xs64 show "y < 2 ^ 64" by blast
    from y(3) show "block_of cfg bs y = c" .
  qed
  have a6: "\<forall>y\<in>set G2. y < 2 ^ 64" using xs64 by (simp add: G2_def R_def)
  have a7: "distinct (heap_blocks s2)" using ok by (simp add: hb heap_ok_def)
  have a8: "MEM_POOL_CHUNKS_NUMBER cfg
      * length (filter (\<lambda>c. 1 + length (loc2 c) = MEM_POOL_CHUNKS_NUMBER cfg) (concat (map bk1 [0..<8])))
      \<le> mem_free_chunks_number s2"
    using lenF total by (simp add: full_def N_def L_def cnt)
  have a9: "mem_free_chunks_number s2 < 2 ^ 64" using lx by (simp add: cnt)
  from pass3_loop [OF a1 dL [unfolded L_def] a3 a4 [unfolded L_def] a5 [unfolded L_def] a6 a7 a8 a9]
  obtain s3 G3 where r: "remove_empty_pools_pass3 cfg heads1 s2 = Some (Inr s3)"
    and fl3: "free_list s3 G3"
    and set3: "set G3 = set G2 \<union> (\<Union>c\<in>{c \<in> set L. \<not> full c}. insert c (set (loc2 c)))"
    and hb3: "heap_blocks s3 = filter (\<lambda>b. \<not> (b \<in> set L \<and> full b)) bs"
    and cnt3: "mem_free_chunks_number s3 + N * length (filter full L) = length xs"
    unfolding L_def [symmetric] full_def [symmetric] N_def [symmetric] hb cnt
    by (auto simp: full_def N_def)
  have "{c \<in> set L. \<not> full c} = {c \<in> {x \<in> set xs. is_first cfg bs x}. \<not> pool_is_free cfg xs c}"
    using fullc by (auto simp: setL cands)
  then have G3K: "set G3 = K"
    unfolding K_def set3 G2_def loc2_def cands setL R_def
    using kept_chunks [OF ok cs N1 v] by simp
  have hbK: "heap_blocks s3 = filter (\<lambda>p. \<not> pool_is_free cfg xs p) bs"
    unfolding hb3
  proof (rule filter_cong [OF refl])
    fix p assume "p \<in> set bs"
    then show "(\<not> (p \<in> set L \<and> full p)) = (\<not> pool_is_free cfg xs p)"
      using Cf_eq by (auto simp: Cf_def)
  qed
  have d3: "distinct G3" using fl3 by (auto simp: free_list_nx dest: chain_distinct)
  then have "length G3 = card K" using G3K by (simp add: distinct_card [symmetric])
  with cnt3 total lenF have c3: "mem_free_chunks_number s3 = length G3" by simp
  have v3: "\<forall>x\<in>set G3. valid_chunk cfg (heap_blocks s3) x"
  proof
    fix x assume "x \<in> set G3"
    then have x: "x \<in> set xs" "\<not> pool_is_free cfg xs (block_of cfg bs x)"
      by (simp_all add: G3K K_def)
    with v have "valid_chunk cfg bs x" by blast
    from block_of_valid [OF ok cs this] x(2)
    show "valid_chunk cfg (heap_blocks s3) x"
      unfolding valid_chunk_def hbK by (intro bexI [of _ "block_of cfg bs x"]) simp_all
  qed
  have "pools_inv cfg s3 G3"
    unfolding pools_inv_def
    using st heap_ok_filter [OF ok] fl3 c3 v3 Nb by (simp add: hbK N_def)
  with r G3K hbK show ?thesis by (auto simp: K_def)
qed

lemma pools_inv_distinct: "pools_inv cfg s xs \<Longrightarrow> distinct xs"
  by (auto simp: pools_inv_def free_list_nx dest: chain_distinct)

lemma pools_inv_length: "pools_inv cfg s xs \<Longrightarrow> length xs \<le> 2 ^ 16"
proof -
  assume inv: "pools_inv cfg s xs"
  then have "heap_ok cfg (heap_blocks s)" "\<forall>x\<in>set xs. valid_chunk cfg (heap_blocks s) x"
    by (simp_all add: pools_inv_def)
  then have "\<forall>x\<in>set xs. cp_ok cfg x" using valid_chunk_props(2) by blast
  with cp_ok_bound [OF pools_inv_distinct [OF inv]] show ?thesis by blast
qed

theorem remove_empty_pools_correct:
  assumes inv: "pools_inv cfg s xs"
  shows "\<exists>s' xs'. mem_pools_remove_empty_pools cfg s = Some (Inr s')
      \<and> pools_inv cfg s' xs'
      \<and> set xs' = {x \<in> set xs. \<not> pool_is_free cfg xs (block_of cfg (heap_blocks s) x)}
      \<and> heap_blocks s' = filter (\<lambda>p. \<not> pool_is_free cfg xs p) (heap_blocks s)"
proof -
  define bs where "bs = heap_blocks s"
  from inv have st: "static_asserts cfg" and ok: "heap_ok cfg bs" and fl: "free_list s xs"
    and cn: "mem_free_chunks_number s = length xs"
    and v: "\<forall>x\<in>set xs. valid_chunk cfg bs x"
    and Nb: "bs \<noteq> [] \<longrightarrow> 1 \<le> MEM_POOL_CHUNKS_NUMBER cfg"
    by (simp_all add: pools_inv_def bs_def)
  have cs: "0 < MEM_POOL_CHUNK_SIZE cfg" using st by (rule static_asserts_pos)
  show ?thesis
  proof (cases "\<forall>x\<in>set xs. \<not> is_first cfg bs x")
    case True
    then have r: "mem_pools_remove_empty_pools cfg s = Some (Inr s)"
      using remove_empty_pools_no_first [OF fl] by (simp add: bs_def)
    have nf: "\<not> pool_is_free cfg xs p" if "p \<in> set bs" for p
    proof
      assume f: "pool_is_free cfg xs p"
      from that have "bs \<noteq> []" by auto
      with Nb have "1 \<le> MEM_POOL_CHUNKS_NUMBER cfg" by simp
      from free_pool_is_cand [OF ok cs this that f] True show False by blast
    qed
    have "\<not> pool_is_free cfg xs (block_of cfg bs x)" if "x \<in> set xs" for x
    proof -
      from v that have "valid_chunk cfg bs x" by blast
      from block_of_valid [OF ok cs this] nf show ?thesis by blast
    qed
    then have e1: "set xs = {x \<in> set xs. \<not> pool_is_free cfg xs (block_of cfg bs x)}" by blast
    have e2: "heap_blocks s = filter (\<lambda>p. \<not> pool_is_free cfg xs p) bs"
      using nf by (simp add: filter_id_conv bs_def)
    from r inv e1 [unfolded bs_def] e2 [unfolded bs_def] show ?thesis
      by (intro exI [of _ s] exI [of _ xs] conjI)
  next
    case False
    then obtain c where c: "c \<in> set xs" "is_first cfg bs c" by blast
    with v have "valid_chunk cfg bs c" by blast
    then have ne: "bs \<noteq> []" by (auto simp: valid_chunk_def)
    let ?n = "length (filter (is_first cfg bs) xs)"
    from c have "c \<in> set (filter (is_first cfg bs) xs)" by simp
    then have n0: "?n \<noteq> 0" by (metis length_0_conv empty_iff empty_set)
    have "?n \<le> length xs" by (rule length_filter_le)
    from this pools_inv_length [OF inv] have "?n \<le> 2 ^ 16" by (rule le_trans)
    then have "?n < 2 ^ 32" by simp
    with n0 have w0: "(word_of_nat ?n :: 32 word) \<noteq> 0" by (simp add: word32_of_nat_eq_0)
    from pass1_from_start [OF inv] obtain s1 heads1 bk1 where
      r1: "remove_empty_pools_pass1 cfg s (replicate number_of_list_of_pools_with_free_first_chunk 0) 0
              (mem_free_chunk_p s) 0 = Some (Inr (s1, heads1, word_of_nat ?n))"
      and p1: "free_list s1 (filter (\<lambda>x. \<not> is_first cfg (heap_blocks s) x) xs)"
        "buckets_ok cfg s1 heads1 bk1" "fresh_cands s1 bk1"
        "cands bk1 = {x \<in> set xs. is_first cfg (heap_blocks s) x}"
        "heap_blocks s1 = heap_blocks s"
      and c1: "mem_free_chunks_number s1 = mem_free_chunks_number s"
      unfolding bs_def by blast
    from pass2_from_start [OF inv p1] obtain s2 where
      r2: "remove_empty_pools_pass2 cfg heads1 s1 (mem_free_chunk_p s1) 0 = Some (Inr s2)"
      and p2: "free_list s2 (filter (\<lambda>x. block_of cfg bs x \<notin> cands bk1)
                  (filter (\<lambda>x. \<not> is_first cfg bs x) xs))"
        "buckets_ok cfg s2 heads1 bk1"
        "locals_ok cfg s2 (cands bk1)
           (\<lambda>c. rev (filter (\<lambda>x. block_of cfg bs x = c) (filter (\<lambda>x. \<not> is_first cfg bs x) xs)))"
        "heap_blocks s2 = bs"
      and c2: "mem_free_chunks_number s2 = mem_free_chunks_number s1"
      unfolding bs_def by blast
    have c2': "mem_free_chunks_number s2 = length xs" using c2 c1 cn by simp
    from pass3_from_start [OF inv ne [unfolded bs_def] p2(2) p1(4) p2(1) [unfolded bs_def]
        p2(3) [unfolded bs_def] p2(4) [unfolded bs_def] c2']
    obtain s3 G3 where r3: "remove_empty_pools_pass3 cfg heads1 s2 = Some (Inr s3)"
      and p3: "pools_inv cfg s3 G3"
        "set G3 = {x \<in> set xs. \<not> pool_is_free cfg xs (block_of cfg (heap_blocks s) x)}"
        "heap_blocks s3 = filter (\<lambda>p. \<not> pool_is_free cfg xs p) (heap_blocks s)"
      by blast
    from p3(1) have "chain (next_of (chunk_mem s3)) (mem_free_chunk_p s3) G3 0"
      by (simp add: pools_inv_def free_list_def)
    moreover have "0 + length G3 < 2 ^ 64" using pools_inv_length [OF p3(1)] by simp
    ultimately have r4: "met_free_chunks (chunk_mem s3) (mem_free_chunk_p s3) 0 = Some (0 + length G3)"
      by (rule met_free_chunks_correct)
    have "mem_pools_remove_empty_pools cfg s = Some (Inr s3)"
      using r1 w0 r2 r3 r4 by (simp add: mem_pools_remove_empty_pools_def done_with_def)
    with p3 show ?thesis unfolding bs_def by blast
  qed
qed

lemma example_chunk_addrs: "chunk_addrs example_config p = [p, p + 8]"
  by (simp add: chunk_addrs_def example_config_def upt_rec)

lemma example_cp_ok: "a \<in> {64, 72, 128, 136} \<Longrightarrow> cp_ok example_config a"
  by (auto simp: cp_ok_def example_config_def MEM_CP_NULL_def)

lemma example_heap_ok: "heap_ok example_config [64, 128]" "heap_ok example_config [64]"
  by (simp_all add: heap_ok_def block_ok_def blocks_apart_def example_chunk_addrs example_cp_ok)
    (simp_all add: MEM_POOL_SIZE_def example_config_def)

lemma example_static: "static_asserts example_config"
  "MEM_POOL_CHUNKS_NUMBER example_config = 2"
  by (simp_all add: static_asserts_def example_config_def)

lemma example_one_used_inv: "pools_inv example_config example_one_used [64, 128, 136]"
  by (simp add: pools_inv_def example_static example_one_used_def example_heap_ok free_list_def
      next_of_def valid_chunk_def example_chunk_addrs)

lemma example_first_used_inv: "pools_inv example_config example_first_used [72]"
  by (simp add: pools_inv_def example_static example_first_used_def example_heap_ok free_list_def
      next_of_def valid_chunk_def example_chunk_addrs)

lemma pool_is_free_mono: "pool_is_free cfg xs p \<Longrightarrow> set xs \<subseteq> set ys \<Longrightarrow> pool_is_free cfg ys p"
  by (auto simp: pool_is_free_def)

lemma compaction_result:
  assumes inv: "pools_inv cfg s xs"
  shows "\<exists>s' xs'. mem_pools_remove_empty_pools cfg s = Some (Inr s')
      \<and> pools_inv cfg s' xs' \<and> set xs' \<subseteq> set xs
      \<and> heap_blocks s' = filter (\<lambda>p. \<not> pool_is_free cfg xs p) (heap_blocks s)
      \<and> (\<forall>p\<in>set (heap_blocks s'). \<not> pool_is_free cfg xs' p)"
proof -
  from remove_empty_pools_correct [OF inv] obtain s' xs' where
    r: "mem_pools_remove_empty_pools cfg s = Some (Inr s')" and inv': "pools_inv cfg s' xs'"
    and xs': "set xs' = {x \<in> set xs. \<not> pool_is_free cfg xs (block_of cfg (heap_blocks s) x)}"
    and hb: "heap_blocks s' = filter (\<lambda>p. \<not> pool_is_free cfg xs p) (heap_blocks s)"
    by blast
  from xs' have sub: "set xs' \<subseteq> set xs" by blast
  have "\<forall>p\<in>set (heap_blocks s'). \<not> pool_is_free cfg xs' p"
    using pool_is_free_mono [OF _ sub] by (auto simp: hb)
  with r inv' sub hb show ?thesis by blast
qed

lemma compacted_stays:
  assumes inv: "pools_inv cfg s xs"
    and nf: "\<forall>p\<in>set (heap_blocks s). \<not> pool_is_free cfg xs p"
  shows "\<exists>s' xs'. mem_pools_remove_empty_pools cfg s = Some (Inr s')
      \<and> free_list s' xs' \<and> set xs' = set xs \<and> heap_blocks s' = heap_blocks s
      \<and> mem_free_chunks_number s' = mem_free_chunks_number s"
proof -
  from inv have st: "static_asserts cfg" and ok: "heap_ok cfg (heap_blocks s)"
    and v: "\<forall>x\<in>set xs. valid_chunk cfg (heap_blocks s) x"
    and cn: "mem_free_chunks_number s = length xs"
    by (simp_all add: pools_inv_def)
  have cs: "0 < MEM_POOL_CHUNK_SIZE cfg" using st by (rule static_asserts_pos)
  from remove_empty_pools_correct [OF inv] obtain s' xs' where
    r: "mem_pools_remove_empty_pools cfg s = Some (Inr s')" and inv': "pools_inv cfg s' xs'"
    and xs': "set xs' = {x \<in> set xs. \<not> pool_is_free cfg xs (block_of cfg (heap_blocks s) x)}"
    and hb: "heap_blocks s' = filter (\<lambda>p. \<not> pool_is_free cfg xs p) (heap_blocks s)"
    by blast
  have hb': "heap_blocks s' = heap_blocks s" using nf by (simp add: hb filter_id_conv)
  have "\<not> pool_is_free cfg xs (block_of cfg (heap_blocks s) x)" if "x \<in> set xs" for x
  proof -
    from v that have "valid_chunk cfg (heap_blocks s) x" by blast
    from block_of_valid [OF ok cs this] nf show ?thesis by blast
  qed
  with xs' have e: "set xs' = set xs" by blast
  from inv' have "free_list s' xs'" "mem_free_chunks_number s' = length xs'"
    by (simp_all add: pools_inv_def)
  moreover have "length xs' = length xs"
    using pools_inv_distinct [OF inv] pools_inv_distinct [OF inv'] e
    by (metis distinct_card)
  ultimately show ?thesis using r e hb' cn by auto
qed

text \<open>
  C10: if no chunk on the free list is the first chunk of its pool, the first walk of
  \<open>mem_pools_remove_empty_pools\<close> counts no pool and leaves its lists empty, and the
  function returns at once with the state it was given: the head of the free list, every
  chunk of the chain, the counter and the blocks held from the heap are all unchanged.
\<close>

theorem remove_empty_pools_early_return:
  assumes "free_list s xs"
    and "\<forall>x\<in>set xs. mem_heap_get_chunked_block_start cfg s x \<noteq> x"
  shows "remove_empty_pools_pass1 cfg s
           (replicate number_of_list_of_pools_with_free_first_chunk 0) 0 (mem_free_chunk_p s) 0
         = Some (Inr (s, replicate number_of_list_of_pools_with_free_first_chunk 0, 0))
       \<and> mem_pools_remove_empty_pools cfg s = Some (Inr s)"
proof -
  have nf: "\<forall>x\<in>set xs. \<not> is_first cfg (heap_blocks s) x"
    using assms(2) by (simp add: is_first_def block_start_eq)
  have "chain (nx s) (mem_free_chunk_p s) xs 0" using assms(1) by (simp add: free_list_nx)
  from pass1_no_first [OF this nf] remove_empty_pools_no_first [OF assms(1) nf]
  show ?thesis by simp
qed

theorem remove_empty_pools_early_return_witness:
  "free_list example_first_used [72]
   \<and> mem_heap_get_chunked_block_start example_config example_first_used 72 \<noteq> 72
   \<and> mem_pools_remove_empty_pools example_config example_first_used = Some (Inr example_first_used)"
proof -
  have a: "free_list example_first_used [72]"
    by (simp add: free_list_def example_first_used_def next_of_def)
  have b: "mem_heap_get_chunked_block_start example_config example_first_used 72 \<noteq> 72"
    by (simp add: mem_heap_get_chunked_block_start_def example_first_used_def
        MEM_POOL_SIZE_def example_config_def)
  from remove_empty_pools_early_return [of example_first_used "[72]" example_config] a b
  show ?thesis by simp
qed

text \<open>
  C3: a second call of \<open>mem_pools_remove_empty_pools\<close> right after a first one returns too,
  and leaves the pools held from the heap, the chunks on the free list and the counter of
  free chunks as the first call left them. (The chunks are compared as a set: the second call
  may link them in another order.)
\<close>

theorem remove_empty_pools_idempotent:
  assumes "pools_inv cfg s xs"
  shows "\<exists>s1 xs1 s2 xs2. mem_pools_remove_empty_pools cfg s = Some (Inr s1)
      \<and> mem_pools_remove_empty_pools cfg s1 = Some (Inr s2)
      \<and> free_list s1 xs1 \<and> free_list s2 xs2 \<and> set xs2 = set xs1
      \<and> heap_blocks s2 = heap_blocks s1
      \<and> mem_free_chunks_number s2 = mem_free_chunks_number s1"
proof -
  from compaction_result [OF assms] obtain s1 xs1 where
    r: "mem_pools_remove_empty_pools cfg s = Some (Inr s1)" and inv1: "pools_inv cfg s1 xs1"
    and nf: "\<forall>p\<in>set (heap_blocks s1). \<not> pool_is_free cfg xs1 p"
    by blast
  from compacted_stays [OF inv1 nf] obtain s2 xs2 where
    "mem_pools_remove_empty_pools cfg s1 = Some (Inr s2)" "free_list s2 xs2" "set xs2 = set xs1"
    "heap_blocks s2 = heap_blocks s1" "mem_free_chunks_number s2 = mem_free_chunks_number s1"
    by blast
  moreover from inv1 have "free_list s1 xs1" by (simp add: pools_inv_def)
  ultimately show ?thesis using r by blast
qed

theorem remove_empty_pools_idempotent_witness:
  "pools_inv example_config example_one_used [64, 128, 136]
   \<and> (\<exists>s1 s2. mem_pools_remove_empty_pools example_config example_one_used = Some (Inr s1)
      \<and> mem_pools_remove_empty_pools example_config s1 = Some (Inr s2)
      \<and> heap_blocks s2 = heap_blocks s1
      \<and> mem_free_chunks_number s2 = mem_free_chunks_number s1)"
  using remove_empty_pools_idempotent [OF example_one_used_inv] example_one_used_inv
  by blast

subsection \<open>Checking, freeing and allocating\<close>

lemma nx_counter_upd [simp]: "nx (s\<lparr>mem_free_chunks_number := n\<rparr>) = nx s"
  by (simp add: nx_def fun_eq_iff)

lemma mem_check_pools_ok:
  assumes "free_list s xs" and "mem_free_chunks_number s = length xs" and "length xs < 2 ^ 64"
  shows "mem_check_pools s = Some (Inr ())"
proof -
  have "chain (next_of (chunk_mem s)) (mem_free_chunk_p s) xs 0"
    using assms(1) by (simp add: free_list_def)
  moreover have "0 + length xs < 2 ^ 64" using assms(3) by simp
  ultimately have "met_free_chunks (chunk_mem s) (mem_free_chunk_p s) 0 = Some (0 + length xs)"
    by (rule met_free_chunks_correct)
  then show ?thesis using assms(2) by (simp add: mem_check_pools_def)
qed

lemma pools_inv_check: "pools_inv cfg s xs \<Longrightarrow> mem_check_pools s = Some (Inr ())"
proof -
  assume inv: "pools_inv cfg s xs"
  have "length xs < 2 ^ 64" using pools_inv_length [OF inv] by simp
  with inv show ?thesis by (intro mem_check_pools_ok [of s xs]) (simp_all add: pools_inv_def)
qed

lemma free_list_head_lt:
  assumes "free_list s xs" and "\<forall>x\<in>set xs. x < 2 ^ 64"
  shows "mem_free_chunk_p s < 2 ^ 64"
  using assms by (cases xs) (simp_all add: free_list_def)

lemma mem_pools_free_correct:
  assumes inv: "pools_inv cfg s xs"
    and p: "valid_chunk cfg (heap_blocks s) p" "p \<notin> set xs"
  shows "\<exists>s'. mem_pools_free p s = Some (Inr s') \<and> pools_inv cfg s' (p # xs)
      \<and> heap_blocks s' = heap_blocks s
      \<and> (\<forall>a. a \<noteq> p \<longrightarrow> chunk_mem s' a = chunk_mem s a)"
proof -
  from inv have st: "static_asserts cfg" and ok: "heap_ok cfg (heap_blocks s)"
    and fl: "free_list s xs" and cn: "mem_free_chunks_number s = length xs"
    and v: "\<forall>x\<in>set xs. valid_chunk cfg (heap_blocks s) x"
    and Nb: "heap_blocks s \<noteq> [] \<longrightarrow>
           1 \<le> MEM_POOL_CHUNKS_NUMBER cfg \<and> MEM_POOL_CHUNKS_NUMBER cfg \<le> 255"
    by (simp_all add: pools_inv_def)
  have d: "distinct (p # xs)" using pools_inv_distinct [OF inv] p(2) by simp
  have v': "\<forall>x\<in>set (p # xs). valid_chunk cfg (heap_blocks s) x" using v p(1) by simp
  then have "\<forall>x\<in>set (p # xs). cp_ok cfg x" using valid_chunk_props(2) [OF ok] by blast
  with cp_ok_bound [OF d] have len: "length (p # xs) \<le> 2 ^ 16" by blast
  have lt: "\<forall>x\<in>set xs. x < 2 ^ 64" using valid_chunk_props(1) [OF ok] v by blast
  have h: "mem_free_chunk_p s < 2 ^ 64" using free_list_head_lt [OF fl lt] .
  have p0: "p \<noteq> 0" using valid_chunk_props(3) [OF ok p(1)] .
  define s3 where "s3 = (store_ptr p (mem_free_chunk_p s) s)\<lparr>mem_free_chunk_p := p,
      mem_free_chunks_number := length xs + 1\<rparr>"
  have add: "size_t_add (length xs) (Suc 0) = Suc (length xs)"
    using len size_t_add_small [of "length xs" 1] by simp
  have c1: "mem_check_pools s = Some (Inr ())" using inv by (rule pools_inv_check)
  have "chain (nx s) (mem_free_chunk_p s) xs 0" using fl by (simp add: free_list_nx)
  then have "chain (nx (store_ptr p (mem_free_chunk_p s) s)) (mem_free_chunk_p s) xs 0"
    using p(2) h by (subst chain_cong [of xs _ "nx s"]) (auto simp: nx_store_ptr)
  moreover have "nx s3 = nx (store_ptr p (mem_free_chunk_p s) s)" by (simp add: s3_def)
  moreover have "nx (store_ptr p (mem_free_chunk_p s) s) p = mem_free_chunk_p s"
    using h by (simp add: nx_store_ptr)
  moreover have "mem_free_chunk_p s3 = p" by (simp add: s3_def)
  ultimately have fl3: "free_list s3 (p # xs)"
    using p0 by (simp add: free_list_nx)
  have cn3: "mem_free_chunks_number s3 = length (p # xs)" by (simp add: s3_def)
  have c3: "mem_check_pools s3 = Some (Inr ())"
    using len by (intro mem_check_pools_ok [OF fl3 cn3]) simp
  have r: "mem_pools_free p s = Some (Inr s3)"
    using c1 c3 unfolding s3_def
    by (simp add: mem_pools_free_def Let_def cn add done_with_def)
  have hb: "heap_blocks s3 = heap_blocks s" by (simp add: s3_def)
  have "pools_inv cfg s3 (p # xs)"
    unfolding pools_inv_def using st ok fl3 cn3 v' Nb by (simp add: hb)
  moreover have "\<forall>a. a \<noteq> p \<longrightarrow> chunk_mem s3 a = chunk_mem s a" by (simp add: s3_def)
  ultimately show ?thesis using r hb by blast
qed

lemma gc_free_chunks_correct:
  "pools_inv cfg s xs \<Longrightarrow> distinct cs
    \<Longrightarrow> \<forall>c\<in>set cs. valid_chunk cfg (heap_blocks s) c \<and> c \<notin> set xs
    \<Longrightarrow> \<exists>s'. gc_free_chunks cs s = Some (Inr s') \<and> pools_inv cfg s' (rev cs @ xs)
          \<and> heap_blocks s' = heap_blocks s
          \<and> (\<forall>a. a \<notin> set cs \<longrightarrow> chunk_mem s' a = chunk_mem s a)"
proof (induction cs arbitrary: s xs)
  case Nil
  then show ?case by (simp add: done_with_def)
next
  case (Cons c cs)
  from Cons.prems have c: "valid_chunk cfg (heap_blocks s) c" "c \<notin> set xs" by simp_all
  from mem_pools_free_correct [OF Cons.prems(1) c] obtain s1 where
    r1: "mem_pools_free c s = Some (Inr s1)" and i1: "pools_inv cfg s1 (c # xs)"
    and h1: "heap_blocks s1 = heap_blocks s"
    and f1: "\<forall>a. a \<noteq> c \<longrightarrow> chunk_mem s1 a = chunk_mem s a"
    by blast
  have d: "distinct cs" using Cons.prems(2) by simp
  have "\<forall>x\<in>set cs. valid_chunk cfg (heap_blocks s1) x \<and> x \<notin> set (c # xs)"
    using Cons.prems(2,3) by (auto simp: h1)
  from Cons.IH [OF i1 d this] obtain s' where
    r2: "gc_free_chunks cs s1 = Some (Inr s')" and i2: "pools_inv cfg s' (rev cs @ c # xs)"
    and h2: "heap_blocks s' = heap_blocks s1"
    and f2: "\<forall>a. a \<notin> set cs \<longrightarrow> chunk_mem s' a = chunk_mem s1 a"
    by blast
  have "gc_free_chunks (c # cs) s = Some (Inr s')" using r1 r2 by simp
  moreover have "pools_inv cfg s' (rev (c # cs) @ xs)" using i2 by simp
  moreover have "\<forall>a. a \<notin> set (c # cs) \<longrightarrow> chunk_mem s' a = chunk_mem s a"
    using f1 f2 by simp
  ultimately show ?case using h1 h2 by (intro exI [of _ s']) simp
qed

lemma mem_pool_init_noaccess_ok:
  "unat i \<le> MEM_POOL_CHUNKS_NUMBER cfg \<Longrightarrow> MEM_POOL_CHUNKS_NUMBER cfg \<le> 255
     \<Longrightarrow> mem_pool_init_noaccess cfg i = Some ()"
proof (induction "MEM_POOL_CHUNKS_NUMBER cfg - unat i" arbitrary: i)
  case 0
  then show ?case by (subst mem_pool_init_noaccess.simps) simp
next
  case (Suc k)
  then have lt: "unat i < MEM_POOL_CHUNKS_NUMBER cfg" by simp
  with Suc.prems have i: "unat (i + 1) = unat i + 1" by (intro unat_inc8) simp
  with Suc.hyps(2) lt have "k = MEM_POOL_CHUNKS_NUMBER cfg - unat (i + 1)"
    "unat (i + 1) \<le> MEM_POOL_CHUNKS_NUMBER cfg" by simp_all
  from Suc.hyps(1) [OF this Suc.prems(2)] lt show ?case
    by (subst mem_pool_init_noaccess.simps) simp
qed

lemma mem_pool_init_chain_returns:
  assumes "mem_pool_init_chain cfg0 pool_p0 i0 prev0 s0 = Some r0"
  shows "MEM_POOL_CHUNKS_NUMBER cfg0 \<le> 255"
proof (rule mem_pool_init_chain.raw_induct
    [where P = "\<lambda>cfg _ _ _ _ _. MEM_POOL_CHUNKS_NUMBER cfg \<le> 255", OF _ assms], goal_cases)
  case (1 f cfg pool_p i prev s r)
  show ?case
  proof (cases "unat i < MEM_POOL_CHUNKS_NUMBER cfg")
    case True
    with 1(2) have "f cfg pool_p (i + 1) (pool_p + MEM_POOL_CHUNK_SIZE cfg * unat i)
        (if prev \<noteq> 0 then store_ptr prev (pool_p + MEM_POOL_CHUNK_SIZE cfg * unat i) s else s) = Some r"
      by (simp add: Let_def)
    then show ?thesis by (rule 1(1))
  next
    case False
    have "unat i \<le> 255" using unsigned_less [of i, where 'a = nat] by simp
    with False show ?thesis by simp
  qed
qed

lemma chain_addrs:
  fixes addr :: "nat \<Rightarrow> nat"
  assumes "\<forall>j. j + 1 < N \<longrightarrow> f (addr j) = addr (j + 1)" and "f (addr (N - 1)) = 0"
    and "\<forall>j<N. addr j \<noteq> 0"
  shows "i < N \<Longrightarrow> chain f (addr i) (map addr [i..<N]) 0"
proof (induction "N - i" arbitrary: i)
  case 0
  then show ?case by simp
next
  case (Suc k)
  show ?case
  proof (cases "Suc i < N")
    case True
    with Suc.hyps(2) have "k = N - Suc i" by simp
    from Suc.hyps(1) [OF this True] assms(1) True Suc.prems assms(3) show ?thesis
      by (simp add: upt_conv_Cons)
  next
    case False
    with Suc.prems have "i = N - 1" "[i..<N] = [i]" by (simp_all add: upt_conv_Cons)
    with assms(2,3) Suc.prems show ?thesis by simp
  qed
qed

lemma mem_pool_init_chain_loop:
  fixes cfg :: mem_config and pool_p :: nat
  defines "N \<equiv> MEM_POOL_CHUNKS_NUMBER cfg"
  defines "addr \<equiv> \<lambda>j. pool_p + MEM_POOL_CHUNK_SIZE cfg * j"
  assumes N: "N \<le> 255" and p0: "pool_p \<noteq> 0" and lt: "\<forall>j<N. addr j < 2 ^ 64"
    and cs: "0 < MEM_POOL_CHUNK_SIZE cfg"
  shows "unat i \<le> N \<Longrightarrow> prev = (if i = 0 then 0 else addr (unat i - 1))
    \<Longrightarrow> \<exists>s'. mem_pool_init_chain cfg pool_p i prev s = Some (if N = 0 then 0 else addr (N - 1), s')
        \<and> (\<forall>j. unat i \<le> j + 1 \<and> j + 1 < N \<longrightarrow> nx s' (addr j) = addr (j + 1))
        \<and> (\<forall>a. (\<forall>j. unat i \<le> j + 1 \<and> j + 1 < N \<longrightarrow> a \<noteq> addr j) \<longrightarrow> chunk_mem s' a = chunk_mem s a)
        \<and> mem_free_chunk_p s' = mem_free_chunk_p s
        \<and> mem_free_chunks_number s' = mem_free_chunks_number s
        \<and> heap_blocks s' = heap_blocks s"
proof (induction "N - unat i" arbitrary: i prev s)
  case 0
  then have e: "unat i = N" by simp
  have "i = 0 \<longleftrightarrow> N = 0" using e by (auto simp: unat_eq_0)
  with 0(3) e have "prev = (if N = 0 then 0 else addr (N - 1))" by simp
  with e show ?case
    by (subst mem_pool_init_chain.simps) (simp add: N_def [symmetric])
next
  case (Suc k)
  then have il: "unat i < N" by simp
  with N have i1: "unat (i + 1) = unat i + 1" by (intro unat_inc8) simp
  then have i10: "i + 1 \<noteq> 0" by (metis Suc_eq_plus1 nat.simps(3) unat_0 unsigned_0)
  define chunk_p where "chunk_p = addr (unat i)"
  define s1 where "s1 = (if prev \<noteq> 0 then store_ptr prev chunk_p s else s)"
  have inj: "addr j = addr j' \<longleftrightarrow> j = j'" for j j' using cs by (simp add: addr_def)
  have a0: "addr j \<noteq> 0" for j using p0 by (simp add: addr_def)
  have k: "k = N - unat (i + 1)" "unat (i + 1) \<le> N" using Suc.hyps(2) il i1 by simp_all
  have pr: "chunk_p = (if i + 1 = 0 then 0 else addr (unat (i + 1) - 1))"
    using i10 i1 by (simp add: chunk_p_def)
  from Suc.hyps(1) [OF k pr, of s1] obtain s' where
    r: "mem_pool_init_chain cfg pool_p (i + 1) chunk_p s1 = Some (if N = 0 then 0 else addr (N - 1), s')"
    and n: "\<forall>j. unat i + 1 \<le> j + 1 \<and> j + 1 < N \<longrightarrow> nx s' (addr j) = addr (j + 1)"
    and f: "\<forall>a. (\<forall>j. unat i + 1 \<le> j + 1 \<and> j + 1 < N \<longrightarrow> a \<noteq> addr j) \<longrightarrow> chunk_mem s' a = chunk_mem s1 a"
    and o: "mem_free_chunk_p s' = mem_free_chunk_p s1"
      "mem_free_chunks_number s' = mem_free_chunks_number s1" "heap_blocks s' = heap_blocks s1"
    unfolding i1 by blast
  have r': "mem_pool_init_chain cfg pool_p i prev s = Some (if N = 0 then 0 else addr (N - 1), s')"
    using r il unfolding chunk_p_def addr_def s1_def N_def
    by (subst mem_pool_init_chain.simps) (simp add: Let_def)
  have n': "nx s' (addr j) = addr (j + 1)" if j: "unat i \<le> j + 1" "j + 1 < N" for j
  proof (cases "unat i \<le> j")
    case True
    with n j show ?thesis by simp
  next
    case False
    with j have ji: "j + 1 = unat i" by simp
    then have "i \<noteq> 0" by auto
    moreover from ji have "unat i - 1 = j" by simp
    ultimately have prev: "prev = addr j" using Suc.prems(2) by simp
    have "\<forall>j'. unat i + 1 \<le> j' + 1 \<and> j' + 1 < N \<longrightarrow> addr j \<noteq> addr j'"
      using ji by (simp add: inj)
    with f have "chunk_mem s' (addr j) = chunk_mem s1 (addr j)" by blast
    then have "nx s' (addr j) = nx s1 (addr j)" by (simp add: nx_def next_of_def)
    also have "\<dots> = chunk_p"
      using prev a0 [of j] lt il by (simp add: s1_def nx_store_ptr chunk_p_def)
    finally show ?thesis using ji by (simp add: chunk_p_def)
  qed
  have f': "chunk_mem s' a = chunk_mem s a"
    if a: "\<forall>j. unat i \<le> j + 1 \<and> j + 1 < N \<longrightarrow> a \<noteq> addr j" for a
  proof -
    from a have "\<forall>j. unat i + 1 \<le> j + 1 \<and> j + 1 < N \<longrightarrow> a \<noteq> addr j" by simp
    with f have e: "chunk_mem s' a = chunk_mem s1 a" by blast
    show ?thesis
    proof (cases "i = 0")
      case True
      with Suc.prems(2) e show ?thesis by (simp add: s1_def)
    next
      case False
      then have "unat i \<noteq> 0" by (simp add: unat_eq_0)
      with a [rule_format, of "unat i - 1"] il Suc.prems(2) False have "a \<noteq> prev" by simp
      with e show ?thesis by (simp add: s1_def)
    qed
  qed
  have "mem_free_chunk_p s1 = mem_free_chunk_p s"
    "mem_free_chunks_number s1 = mem_free_chunks_number s" "heap_blocks s1 = heap_blocks s"
    by (simp_all add: s1_def)
  with r' n' f' o show ?case by (intro exI [of _ s']) simp
qed

lemma mem_pool_init_returns:
  assumes "mem_pool_init cfg p sz s = Some (Inr r)"
  shows "MEM_POOL_CHUNKS_NUMBER cfg \<le> 255"
    and "MEM_POOL_CHUNKS_NUMBER cfg \<le> 2 ^ CONFIG_MEM_POOL_MAX_CHUNKS_NUMBER_LOG cfg"
    and "sz = MEM_POOL_SIZE cfg"
proof -
  from assms show "MEM_POOL_CHUNKS_NUMBER cfg \<le> 2 ^ CONFIG_MEM_POOL_MAX_CHUNKS_NUMBER_LOG cfg"
    and "sz = MEM_POOL_SIZE cfg"
    by (auto simp: mem_pool_init_def then_do_eq_Inr jerry_assert_def split: if_splits)
  show "MEM_POOL_CHUNKS_NUMBER cfg \<le> 255"
  proof (cases "mem_pool_init_chain cfg p 0 0 s")
    case None
    with assms show ?thesis
      by (auto simp: mem_pool_init_def then_do_eq_Inr jerry_assert_def split: if_splits)
  next
    case (Some r')
    then show ?thesis by (rule mem_pool_init_chain_returns)
  qed
qed

lemma mem_pool_init_correct:
  assumes N: "1 \<le> MEM_POOL_CHUNKS_NUMBER cfg" "MEM_POOL_CHUNKS_NUMBER cfg \<le> 255"
    and b: "block_ok cfg pool_p" and al: "pool_p mod MEM_ALIGNMENT cfg = 0"
    and cs: "0 < MEM_POOL_CHUNK_SIZE cfg"
    and lg: "MEM_POOL_CHUNKS_NUMBER cfg \<le> 2 ^ CONFIG_MEM_POOL_MAX_CHUNKS_NUMBER_LOG cfg"
  shows "\<exists>s'. mem_pool_init cfg pool_p (MEM_POOL_SIZE cfg) s = Some (Inr (pool_p, s'))
      \<and> chain (nx s') pool_p (chunk_addrs cfg pool_p) 0
      \<and> (\<forall>a. a \<notin> set (chunk_addrs cfg pool_p) \<longrightarrow> chunk_mem s' a = chunk_mem s a)
      \<and> mem_free_chunk_p s' = mem_free_chunk_p s
      \<and> mem_free_chunks_number s' = mem_free_chunks_number s
      \<and> heap_blocks s' = heap_blocks s"
proof -
  define N where "N = MEM_POOL_CHUNKS_NUMBER cfg"
  define addr where "addr = (\<lambda>j. pool_p + MEM_POOL_CHUNK_SIZE cfg * j)"
  have ca: "chunk_addrs cfg pool_p = map addr [0..<N]"
    by (simp add: chunk_addrs_def addr_def N_def)
  from b have p0: "pool_p \<noteq> 0" and lt: "\<forall>j<N. addr j < 2 ^ 64"
    by (auto simp: block_ok_def ca)
  have inj: "addr j = addr j' \<longleftrightarrow> j = j'" for j j' using cs by (simp add: addr_def)
  have a0: "addr j \<noteq> 0" for j using p0 by (simp add: addr_def)
  have N1: "N \<noteq> 0" "N - 1 < N" using N(1) by (simp_all add: N_def)
  have "\<exists>s1. mem_pool_init_chain cfg pool_p 0 0 s = Some (addr (N - 1), s1)
      \<and> (\<forall>j. j + 1 < N \<longrightarrow> nx s1 (addr j) = addr (j + 1))
      \<and> (\<forall>a. (\<forall>j. j + 1 < N \<longrightarrow> a \<noteq> addr j) \<longrightarrow> chunk_mem s1 a = chunk_mem s a)
      \<and> mem_free_chunk_p s1 = mem_free_chunk_p s
      \<and> mem_free_chunks_number s1 = mem_free_chunks_number s
      \<and> heap_blocks s1 = heap_blocks s"
    using mem_pool_init_chain_loop [OF N(2) p0 lt [unfolded addr_def N_def] cs, of 0 0 s] N1
    unfolding addr_def N_def by simp
  then obtain s1 where r: "mem_pool_init_chain cfg pool_p 0 0 s = Some (addr (N - 1), s1)"
    and n: "\<forall>j. j + 1 < N \<longrightarrow> nx s1 (addr j) = addr (j + 1)"
    and f: "\<forall>a. (\<forall>j. j + 1 < N \<longrightarrow> a \<noteq> addr j) \<longrightarrow> chunk_mem s1 a = chunk_mem s a"
    and o: "mem_free_chunk_p s1 = mem_free_chunk_p s"
      "mem_free_chunks_number s1 = mem_free_chunks_number s" "heap_blocks s1 = heap_blocks s"
    by blast
  define s' where "s' = store_ptr (addr (N - 1)) 0 s1"
  have na: "mem_pool_init_noaccess cfg 0 = Some ()"
    using N(2) by (intro mem_pool_init_noaccess_ok) simp_all
  have res: "mem_pool_init cfg pool_p (MEM_POOL_SIZE cfg) s = Some (Inr (pool_p, s'))"
    using r na p0 al a0 [of "N - 1"] lg
    by (simp add: mem_pool_init_def s'_def done_with_def MEM_POOL_SIZE_def)
  have n1: "\<forall>j. j + 1 < N \<longrightarrow> nx s' (addr j) = addr (j + 1)"
  proof (intro allI impI)
    fix j assume j: "j + 1 < N"
    then have "j \<noteq> N - 1" by simp
    then have "addr j \<noteq> addr (N - 1)" by (simp only: inj not_False_eq_True)
    moreover from n j have "nx s1 (addr j) = addr (j + 1)" by blast
    ultimately show "nx s' (addr j) = addr (j + 1)" by (simp add: s'_def nx_store_ptr)
  qed
  have n2: "nx s' (addr (N - 1)) = 0" by (simp add: s'_def nx_store_ptr)
  have "chain (nx s') (addr 0) (map addr [0..<N]) 0"
    using N1 a0 by (intro chain_addrs [OF n1 n2]) simp_all
  then have ch: "chain (nx s') pool_p (chunk_addrs cfg pool_p) 0" by (simp add: ca addr_def)
  have fr: "chunk_mem s' a = chunk_mem s a" if "a \<notin> set (chunk_addrs cfg pool_p)" for a
  proof -
    from that have ne: "a \<noteq> addr j" if "j < N" for j using that by (auto simp: ca)
    then have "\<forall>j. j + 1 < N \<longrightarrow> a \<noteq> addr j" by simp
    with f have "chunk_mem s1 a = chunk_mem s a" by blast
    with ne [OF N1(2)] show ?thesis by (simp add: s'_def)
  qed
  from res ch fr o show ?thesis by (intro exI [of _ s']) (simp add: s'_def)
qed

lemma pools_inv_Nil: "pools_inv cfg s [] \<Longrightarrow> mem_free_chunk_p s = 0 \<and> mem_free_chunks_number s = 0"
  by (simp add: pools_inv_def free_list_def)

lemma heap_alloc_correct:
  assumes inv: "pools_inv cfg s xs" and ans: "heap_answer_ok cfg s xs a"
  shows "\<exists>sg. gc_free_chunks (gc_freed a) s = Some (Inr sg)
      \<and> pools_inv cfg sg (rev (gc_freed a) @ xs) \<and> heap_blocks sg = heap_blocks s
      \<and> (\<forall>c. c \<notin> set (gc_freed a) \<longrightarrow> chunk_mem sg c = chunk_mem s c)
      \<and> mem_heap_alloc_chunked_block a s
          = Some (Inr (new_block a, if new_block a = 0 then sg
                        else sg\<lparr>heap_blocks := heap_blocks sg @ [new_block a]\<rparr>))"
proof -
  from ans have "distinct (gc_freed a)"
    "\<forall>c\<in>set (gc_freed a). valid_chunk cfg (heap_blocks s) c \<and> c \<notin> set xs"
    by (simp_all add: heap_answer_ok_def)
  from gc_free_chunks_correct [OF inv this] obtain sg where
    "gc_free_chunks (gc_freed a) s = Some (Inr sg)" "pools_inv cfg sg (rev (gc_freed a) @ xs)"
    "heap_blocks sg = heap_blocks s" "\<forall>c. c \<notin> set (gc_freed a) \<longrightarrow> chunk_mem sg c = chunk_mem s c"
    by blast
  then show ?thesis
    by (intro exI [of _ sg]) (simp add: mem_heap_alloc_chunked_block_def done_with_def)
qed

lemma longpath_gc:
  assumes inv: "pools_inv cfg s []" and ans: "heap_answer_ok cfg s [] a"
    and nb: "new_block a \<noteq> 0" and gc: "gc_freed a \<noteq> []"
    and sz: "MEM_POOL_SIZE cfg \<le> mem_heap_get_chunked_block_data_size cfg"
  shows "\<exists>s1. mem_pools_alloc_longpath cfg a s = Some (Inr s1)
      \<and> gc_free_chunks (gc_freed a) s = Some (Inr s1)
      \<and> pools_inv cfg s1 (rev (gc_freed a)) \<and> heap_blocks s1 = heap_blocks s"
proof -
  from heap_alloc_correct [OF inv ans] nb obtain sg where
    g: "gc_free_chunks (gc_freed a) s = Some (Inr sg)"
    and ig: "pools_inv cfg sg (rev (gc_freed a))" and hg: "heap_blocks sg = heap_blocks s"
    and ha: "mem_heap_alloc_chunked_block a s
          = Some (Inr (new_block a, sg\<lparr>heap_blocks := heap_blocks sg @ [new_block a]\<rparr>))"
    by auto
  from gc obtain c where c: "c \<in> set (gc_freed a)" by (cases "gc_freed a") auto
  with ans have "valid_chunk cfg (heap_blocks s) c" by (simp add: heap_answer_ok_def)
  then have "heap_blocks s \<noteq> []" by (auto simp: valid_chunk_def)
  with inv have N1: "1 \<le> MEM_POOL_CHUNKS_NUMBER cfg" by (simp add: pools_inv_def)
  from ig have cg: "mem_free_chunks_number sg = length (gc_freed a)" by (simp add: pools_inv_def)
  with gc have cg0: "mem_free_chunks_number sg \<noteq> 0" by simp
  from ans nb have "new_block a \<notin> set (heap_blocks sg)" by (simp add: heap_answer_ok_def hg)
  then have "mem_heap_free_block (new_block a) (sg\<lparr>heap_blocks := heap_blocks sg @ [new_block a]\<rparr>) = sg"
    by (simp add: mem_heap_free_block_def remove1_append)
  with pools_inv_check [OF inv] pools_inv_Nil [OF inv] N1 ha nb cg0 sz
  have "mem_pools_alloc_longpath cfg a s = Some (Inr sg)"
    by (simp add: mem_pools_alloc_longpath_def done_with_def)
  with g ig hg show ?thesis by blast
qed

lemma heap_ok_snoc:
  assumes "heap_ok cfg bs" and "block_ok cfg b" and "b \<notin> set bs"
    and "\<forall>q\<in>set bs. blocks_apart cfg b q"
  shows "heap_ok cfg (bs @ [b])"
  using assms by (auto simp: heap_ok_def blocks_apart_def)

lemma longpath_new_pool:
  assumes inv: "pools_inv cfg s []" and ans: "heap_answer_ok cfg s [] a"
    and nb: "new_block a \<noteq> 0" and gc: "gc_freed a = []"
    and N: "1 \<le> MEM_POOL_CHUNKS_NUMBER cfg" "MEM_POOL_CHUNKS_NUMBER cfg \<le> 255"
    and sz: "MEM_POOL_SIZE cfg \<le> mem_heap_get_chunked_block_data_size cfg"
    and lg: "MEM_POOL_CHUNKS_NUMBER cfg \<le> 2 ^ CONFIG_MEM_POOL_MAX_CHUNKS_NUMBER_LOG cfg"
  shows "\<exists>s1. mem_pools_alloc_longpath cfg a s = Some (Inr s1)
      \<and> pools_inv cfg s1 (chunk_addrs cfg (new_block a))
      \<and> heap_blocks s1 = heap_blocks s @ [new_block a]
      \<and> mem_free_chunk_p s1 = new_block a
      \<and> mem_free_chunks_number s1 = MEM_POOL_CHUNKS_NUMBER cfg
      \<and> (\<forall>c. c \<notin> set (chunk_addrs cfg (new_block a)) \<longrightarrow> chunk_mem s1 c = chunk_mem s c)"
proof -
  define b where "b = new_block a"
  define sh where "sh = s\<lparr>heap_blocks := heap_blocks s @ [b]\<rparr>"
  from inv have st: "static_asserts cfg" and ok: "heap_ok cfg (heap_blocks s)"
    by (simp_all add: pools_inv_def)
  have cs: "0 < MEM_POOL_CHUNK_SIZE cfg" using st by (rule static_asserts_pos)
  from ans nb have bo: "block_ok cfg b" and al: "b mod MEM_ALIGNMENT cfg = 0"
    and nin: "b \<notin> set (heap_blocks s)" and ap: "\<forall>q\<in>set (heap_blocks s). blocks_apart cfg b q"
    by (simp_all add: heap_answer_ok_def b_def)
  have ha: "mem_heap_alloc_chunked_block a s = Some (Inr (b, sh))"
    using gc nb by (simp add: mem_heap_alloc_chunked_block_def done_with_def b_def sh_def)
  from mem_pool_init_correct [OF N bo al cs lg, of sh] obtain s2 where
    r2: "mem_pool_init cfg b (MEM_POOL_SIZE cfg) sh = Some (Inr (b, s2))"
    and ch: "chain (nx s2) b (chunk_addrs cfg b) 0"
    and fr: "\<forall>c. c \<notin> set (chunk_addrs cfg b) \<longrightarrow> chunk_mem s2 c = chunk_mem sh c"
    and o: "mem_free_chunk_p s2 = mem_free_chunk_p sh"
      "mem_free_chunks_number s2 = mem_free_chunks_number sh" "heap_blocks s2 = heap_blocks sh"
    by blast
  define s4 where "s4 = s2\<lparr>mem_free_chunks_number := MEM_POOL_CHUNKS_NUMBER cfg,
      mem_free_chunk_p := b\<rparr>"
  have c0: "mem_free_chunks_number s2 = 0" using o(2) pools_inv_Nil [OF inv] by (simp add: sh_def)
  have add: "size_t_add 0 (MEM_POOL_CHUNKS_NUMBER cfg) = MEM_POOL_CHUNKS_NUMBER cfg"
    using N(2) by (intro size_t_add_small [of 0, simplified]) simp
  have fl4: "free_list s4 (chunk_addrs cfg b)" using ch by (simp add: free_list_nx s4_def)
  have cn4: "mem_free_chunks_number s4 = length (chunk_addrs cfg b)" by (simp add: s4_def)
  have c4: "mem_check_pools s4 = Some (Inr ())"
    using N(2) by (intro mem_check_pools_ok [OF fl4 cn4]) simp
  have res: "mem_pools_alloc_longpath cfg a s = Some (Inr s4)"
    using pools_inv_check [OF inv] pools_inv_Nil [OF inv] N(1) ha nb r2 c4 sz
    unfolding s4_def
    by (simp add: mem_pools_alloc_longpath_def done_with_def b_def [symmetric] sh_def c0 add Let_def)
  have hb4: "heap_blocks s4 = heap_blocks s @ [b]" using o(3) by (simp add: s4_def sh_def)
  have ok4: "heap_ok cfg (heap_blocks s4)" unfolding hb4 using ok bo nin ap by (rule heap_ok_snoc)
  have v4: "\<forall>x\<in>set (chunk_addrs cfg b). valid_chunk cfg (heap_blocks s4) x"
    by (auto simp: valid_chunk_def hb4)
  have "pools_inv cfg s4 (chunk_addrs cfg b)"
    unfolding pools_inv_def using st ok4 fl4 cn4 v4 N by simp
  moreover have "\<forall>c. c \<notin> set (chunk_addrs cfg b) \<longrightarrow> chunk_mem s4 c = chunk_mem s c"
    using fr by (simp add: s4_def sh_def)
  moreover have "mem_free_chunk_p s4 = b" "mem_free_chunks_number s4 = MEM_POOL_CHUNKS_NUMBER cfg"
    by (simp_all add: s4_def)
  ultimately show ?thesis using res hb4 unfolding b_def by blast
qed

lemma longpath_returns:
  assumes inv: "pools_inv cfg s []" and ans: "heap_answer_ok cfg s [] a"
    and r: "mem_pools_alloc_longpath cfg a s = Some (Inr s1)"
  shows "new_block a \<noteq> 0" and "1 \<le> MEM_POOL_CHUNKS_NUMBER cfg"
    and "gc_freed a = [] \<Longrightarrow> MEM_POOL_CHUNKS_NUMBER cfg \<le> 255"
    and "MEM_POOL_SIZE cfg \<le> mem_heap_get_chunked_block_data_size cfg"
    and "gc_freed a = []
      \<Longrightarrow> MEM_POOL_CHUNKS_NUMBER cfg \<le> 2 ^ CONFIG_MEM_POOL_MAX_CHUNKS_NUMBER_LOG cfg"
proof -
  from heap_alloc_correct [OF inv ans] obtain sg where
    g: "gc_free_chunks (gc_freed a) s = Some (Inr sg)"
    and ha: "mem_heap_alloc_chunked_block a s
          = Some (Inr (new_block a, if new_block a = 0 then sg
                        else sg\<lparr>heap_blocks := heap_blocks sg @ [new_block a]\<rparr>))"
    by blast
  note c0 = pools_inv_check [OF inv] pools_inv_Nil [OF inv]
  show sz: "MEM_POOL_SIZE cfg \<le> mem_heap_get_chunked_block_data_size cfg"
  proof (rule ccontr)
    assume "\<not> MEM_POOL_SIZE cfg \<le> mem_heap_get_chunked_block_data_size cfg"
    with c0 have "mem_pools_alloc_longpath cfg a s = Some (Inl Assertion_failed)"
      by (simp add: mem_pools_alloc_longpath_def)
    with r show False by simp
  qed
  note c = c0 sz
  show N1: "1 \<le> MEM_POOL_CHUNKS_NUMBER cfg"
  proof (rule ccontr)
    assume "\<not> 1 \<le> MEM_POOL_CHUNKS_NUMBER cfg"
    with c have "mem_pools_alloc_longpath cfg a s = Some (Inl Assertion_failed)"
      by (simp add: mem_pools_alloc_longpath_def)
    with r show False by simp
  qed
  show nb: "new_block a \<noteq> 0"
  proof
    assume "new_block a = 0"
    with c N1 ha have "mem_pools_alloc_longpath cfg a s = Some (Inl Assertion_failed)"
      by (simp add: mem_pools_alloc_longpath_def)
    with r show False by simp
  qed
  have ini: "\<exists>x sh. mem_pool_init cfg (new_block a) (MEM_POOL_SIZE cfg) sh = Some (Inr x)"
    if gc: "gc_freed a = []"
  proof -
    from g gc have sg: "sg = s" by (simp add: done_with_def)
    define sh where "sh = s\<lparr>heap_blocks := heap_blocks s @ [new_block a]\<rparr>"
    have "mem_free_chunks_number sh = 0" using c by (simp add: sh_def)
    with r c N1 ha nb sg
    have "\<exists>x. mem_pool_init cfg (new_block a) (MEM_POOL_SIZE cfg) sh = Some (Inr x)"
      by (simp add: mem_pools_alloc_longpath_def sh_def [symmetric] then_do_eq_Inr) blast
    then show ?thesis by blast
  qed
  show "MEM_POOL_CHUNKS_NUMBER cfg \<le> 255" if gc: "gc_freed a = []"
    using ini [OF gc] mem_pool_init_returns(1) by blast
  show "MEM_POOL_CHUNKS_NUMBER cfg \<le> 2 ^ CONFIG_MEM_POOL_MAX_CHUNKS_NUMBER_LOG cfg"
    if gc: "gc_freed a = []"
    using ini [OF gc] mem_pool_init_returns(2) by blast
qed

lemma longpath_inv:
  assumes inv: "pools_inv cfg s []" and ans: "heap_answer_ok cfg s [] a"
    and r: "mem_pools_alloc_longpath cfg a s = Some (Inr s1)"
  shows "\<exists>x xs. pools_inv cfg s1 (x # xs)"
proof (cases "gc_freed a = []")
  case True
  note b = longpath_returns [OF inv ans r]
  from longpath_new_pool [OF inv ans b(1) True b(2) b(3) [OF True] b(4) b(5) [OF True]] r
  have i: "pools_inv cfg s1 (chunk_addrs cfg (new_block a))" by auto
  have "length (chunk_addrs cfg (new_block a)) \<noteq> 0" using b(2) by simp
  then obtain x xs where "chunk_addrs cfg (new_block a) = x # xs"
    by (cases "chunk_addrs cfg (new_block a)") auto
  with i show ?thesis by auto
next
  case False
  from longpath_gc [OF inv ans longpath_returns(1) [OF inv ans r] False
      longpath_returns(4) [OF inv ans r]] r
  have i: "pools_inv cfg s1 (rev (gc_freed a))" by auto
  from False obtain x xs where "rev (gc_freed a) = x # xs" by (cases "rev (gc_freed a)") auto
  with i show ?thesis by auto
qed

lemma alloc_fast:
  assumes inv: "pools_inv cfg s (x # xs)"
  defines "s' \<equiv> s\<lparr>mem_free_chunks_number := length xs, mem_free_chunk_p := nx s x\<rparr>"
  shows "mem_pools_alloc cfg a s = Some (Inr (x, s'))" and "pools_inv cfg s' xs"
proof -
  from inv have st: "static_asserts cfg" and ok: "heap_ok cfg (heap_blocks s)"
    and fl: "free_list s (x # xs)" and cn: "mem_free_chunks_number s = Suc (length xs)"
    and v: "\<forall>y\<in>set (x # xs). valid_chunk cfg (heap_blocks s) y"
    and Nb: "heap_blocks s \<noteq> [] \<longrightarrow>
           1 \<le> MEM_POOL_CHUNKS_NUMBER cfg \<and> MEM_POOL_CHUNKS_NUMBER cfg \<le> 255"
    by (simp_all add: pools_inv_def)
  from fl have h: "mem_free_chunk_p s = x" "x \<noteq> 0" and ch: "chain (nx s) (nx s x) xs 0"
    by (simp_all add: free_list_nx)
  have len: "length (x # xs) \<le> 2 ^ 16" using inv by (rule pools_inv_length)
  have sub: "size_t_sub (Suc (length xs)) (Suc 0) = length xs"
    using len size_t_sub_small [of 1 "Suc (length xs)"] by simp
  have fl': "free_list s' xs" using ch by (simp add: free_list_nx s'_def)
  have cn': "mem_free_chunks_number s' = length xs" by (simp add: s'_def)
  have "mem_check_pools s' = Some (Inr ())"
    using len by (intro mem_check_pools_ok [OF fl' cn']) simp
  then show "mem_pools_alloc cfg a s = Some (Inr (x, s'))"
    using h unfolding s'_def
    by (simp add: mem_pools_alloc_def cn sub Let_def done_with_def nx_def)
  show "pools_inv cfg s' xs"
    unfolding pools_inv_def using st ok fl' cn' v Nb by (simp add: s'_def)
qed

lemma alloc_after_longpath:
  "mem_free_chunk_p s = 0 \<Longrightarrow> mem_pools_alloc_longpath cfg a s = Some (Inr s1)
     \<Longrightarrow> mem_free_chunk_p s1 \<noteq> 0 \<Longrightarrow> mem_pools_alloc cfg a s = mem_pools_alloc cfg a s1"
  by (simp add: mem_pools_alloc_def done_with_def)

lemma alloc_needs_longpath:
  "mem_free_chunk_p s = 0 \<Longrightarrow> mem_pools_alloc cfg a s = Some (Inr r)
     \<Longrightarrow> \<exists>s1. mem_pools_alloc_longpath cfg a s = Some (Inr s1)"
  by (auto simp: mem_pools_alloc_def then_do_eq_Inr)

lemma alloc_inv:
  assumes inv: "pools_inv cfg s xs" and ans: "heap_answer_ok cfg s xs a"
    and r: "mem_pools_alloc cfg a s = Some (Inr (p, s'))"
  shows "\<exists>xs'. pools_inv cfg s' xs'"
proof (cases xs)
  case (Cons x xs0)
  with inv have i: "pools_inv cfg s (x # xs0)" by simp
  from alloc_fast(1) [OF i, where a = a] alloc_fast(2) [OF i] r show ?thesis by auto
next
  case Nil
  with inv ans have i0: "pools_inv cfg s []" and a0: "heap_answer_ok cfg s [] a" by simp_all
  have h: "mem_free_chunk_p s = 0" using pools_inv_Nil [OF i0] by simp
  from alloc_needs_longpath [OF h r] obtain s1 where
    l: "mem_pools_alloc_longpath cfg a s = Some (Inr s1)" by blast
  from longpath_inv [OF i0 a0 l] obtain y ys where i1: "pools_inv cfg s1 (y # ys)" by blast
  then have "mem_free_chunk_p s1 \<noteq> 0" by (simp add: pools_inv_def free_list_def)
  from alloc_after_longpath [OF h l this] r alloc_fast(1) [OF i1, where a = a] alloc_fast(2) [OF i1] show ?thesis by auto
qed

lemma pools_inv_unique: "pools_inv cfg s xs0 \<Longrightarrow> free_list s xs \<Longrightarrow> xs = xs0"
  by (auto simp: pools_inv_def free_list_def dest: chain_unique)

lemma pools_inv_write:
  assumes inv: "pools_inv cfg s xs" and p: "p \<notin> set xs"
  shows "pools_inv cfg (s\<lparr>chunk_mem := (chunk_mem s)(p := v)\<rparr>) xs"
proof -
  let ?s = "s\<lparr>chunk_mem := (chunk_mem s)(p := v)\<rparr>"
  from inv have "chain (nx s) (mem_free_chunk_p s) xs 0" by (simp add: pools_inv_def free_list_nx)
  moreover have "nx ?s c = nx s c" if "c \<in> set xs" for c
    using that p by (auto simp: nx_def next_of_def)
  ultimately have "chain (nx ?s) (mem_free_chunk_p s) xs 0"
    by (subst chain_cong [of xs _ "nx s"]) simp_all
  then have "free_list ?s xs" by (simp add: free_list_nx)
  with inv show ?thesis by (simp add: pools_inv_def)
qed

lemma pools_inv_init:
  "static_asserts cfg \<Longrightarrow> heap_blocks s = [] \<Longrightarrow> pools_inv cfg (mem_pools_init s) []"
  by (simp add: pools_inv_def mem_pools_init_def free_list_def heap_ok_def)

lemma reachable_inv: "reachable cfg s \<Longrightarrow> \<exists>xs. pools_inv cfg s xs"
proof (induction rule: reachable.induct)
  case (after_init s)
  then show ?case using pools_inv_init by blast
next
  case (after_alloc s xs a p s')
  then obtain xs0 where i: "pools_inv cfg s xs0" by blast
  from pools_inv_unique [OF i after_alloc.hyps(2)] have "xs = xs0" .
  with i after_alloc.hyps(3,4) show ?case using alloc_inv by blast
next
  case (after_free s xs p s')
  then obtain xs0 where i: "pools_inv cfg s xs0" by blast
  from pools_inv_unique [OF i after_free.hyps(2)] have "xs = xs0" .
  with mem_pools_free_correct [OF i after_free.hyps(3)] after_free.hyps(4,5) show ?case by auto
next
  case (after_compact s s')
  then obtain xs0 where i: "pools_inv cfg s xs0" by blast
  from remove_empty_pools_correct [OF i] after_compact.hyps(2) show ?case by auto
next
  case (after_write s xs p v)
  then obtain xs0 where i: "pools_inv cfg s xs0" by blast
  from pools_inv_unique [OF i after_write.hyps(2)] have "xs = xs0" .
  with pools_inv_write [OF i] after_write.hyps(3) show ?case by blast
qed

lemma alloc_new_pool:
  assumes inv: "pools_inv cfg s []" and ans: "heap_answer_ok cfg s [] a"
    and nb: "new_block a \<noteq> 0" and gc: "gc_freed a = []"
    and N: "1 \<le> MEM_POOL_CHUNKS_NUMBER cfg" "MEM_POOL_CHUNKS_NUMBER cfg \<le> 255"
    and sz: "MEM_POOL_SIZE cfg \<le> mem_heap_get_chunked_block_data_size cfg"
    and lg: "MEM_POOL_CHUNKS_NUMBER cfg \<le> 2 ^ CONFIG_MEM_POOL_MAX_CHUNKS_NUMBER_LOG cfg"
  shows "\<exists>s'. mem_pools_alloc cfg a s = Some (Inr (new_block a, s'))
      \<and> pools_inv cfg s' (tl (chunk_addrs cfg (new_block a)))
      \<and> heap_blocks s' = heap_blocks s @ [new_block a]"
proof -
  from longpath_new_pool [OF inv ans nb gc N sz lg] obtain s1 where
    l: "mem_pools_alloc_longpath cfg a s = Some (Inr s1)"
    and i1: "pools_inv cfg s1 (chunk_addrs cfg (new_block a))"
    and hb: "heap_blocks s1 = heap_blocks s @ [new_block a]"
    and h1: "mem_free_chunk_p s1 = new_block a"
    by blast
  have "chunk_addrs cfg (new_block a) \<noteq> []" using N(1) by (auto simp: chunk_addrs_def)
  moreover from this have "hd (chunk_addrs cfg (new_block a)) = new_block a"
    using N(1) by (simp add: chunk_addrs_def hd_map upt_conv_Cons)
  ultimately have ca: "chunk_addrs cfg (new_block a) = new_block a # tl (chunk_addrs cfg (new_block a))"
    by (metis list.collapse)
  from i1 ca have i1': "pools_inv cfg s1 (new_block a # tl (chunk_addrs cfg (new_block a)))" by simp
  have h: "mem_free_chunk_p s = 0" using pools_inv_Nil [OF inv] by simp
  have "mem_free_chunk_p s1 \<noteq> 0" using h1 nb by simp
  from alloc_after_longpath [OF h l this] alloc_fast(1) [OF i1', where a = a] alloc_fast(2) [OF i1'] hb
  show ?thesis by auto
qed

lemma example_answer_ok:
  "heap_answer_ok example_config (mem_pools_init example_empty) [] \<lparr>gc_freed = [], new_block = 64\<rparr>"
  by (simp add: heap_answer_ok_def block_ok_def example_chunk_addrs example_cp_ok
      mem_pools_init_def example_empty_def)
    (simp add: example_config_def)

lemma example_sizes:
  "MEM_POOL_SIZE example_config \<le> mem_heap_get_chunked_block_data_size example_config"
  "MEM_POOL_CHUNKS_NUMBER example_config
     \<le> 2 ^ CONFIG_MEM_POOL_MAX_CHUNKS_NUMBER_LOG example_config"
  by (simp_all add: MEM_POOL_SIZE_def example_config_def)

lemma example_empty_inv: "pools_inv example_config (mem_pools_init example_empty) []"
  by (rule pools_inv_init) (simp_all add: example_static example_empty_def)

text \<open>
  C2: in every state between two calls of \<open>mem_pools_alloc\<close>, \<open>mem_pools_free\<close> and
  \<open>mem_pools_remove_empty_pools\<close>, starting from \<open>mem_pools_init\<close>, the chunks linked from
  \<open>mem_free_chunk_p\<close> through their first words up to \<open>NULL\<close> are pairwise distinct and
  as many as \<open>mem_free_chunks_number\<close> says; the walk that counts them ends with that number.
\<close>

theorem free_list_matches_counter:
  assumes "reachable cfg s"
  shows "\<exists>xs. free_list s xs \<and> distinct xs \<and> length xs = mem_free_chunks_number s
      \<and> met_free_chunks (chunk_mem s) (mem_free_chunk_p s) 0 = Some (mem_free_chunks_number s)"
proof -
  from reachable_inv [OF assms] obtain xs where inv: "pools_inv cfg s xs" by blast
  then have fl: "free_list s xs" and cn: "mem_free_chunks_number s = length xs"
    by (simp_all add: pools_inv_def)
  have "chain (next_of (chunk_mem s)) (mem_free_chunk_p s) xs 0" using fl by (simp add: free_list_def)
  moreover have "0 + length xs < 2 ^ 64" using pools_inv_length [OF inv] by simp
  ultimately have "met_free_chunks (chunk_mem s) (mem_free_chunk_p s) 0 = Some (0 + length xs)"
    by (rule met_free_chunks_correct)
  with fl cn pools_inv_distinct [OF inv] show ?thesis by auto
qed

theorem free_list_matches_counter_witness:
  "\<exists>s1. mem_pools_alloc example_config \<lparr>gc_freed = [], new_block = 64\<rparr> (mem_pools_init example_empty)
        = Some (Inr (64, s1))
     \<and> reachable example_config s1
     \<and> met_free_chunks (chunk_mem s1) (mem_free_chunk_p s1) 0 = Some (mem_free_chunks_number s1)"
proof -
  let ?a = "\<lparr>gc_freed = [], new_block = 64\<rparr>"
  let ?s0 = "mem_pools_init example_empty"
  from alloc_new_pool [OF example_empty_inv example_answer_ok _ _ _ _ example_sizes]
  obtain s1 where r: "mem_pools_alloc example_config ?a ?s0 = Some (Inr (64, s1))"
    by (auto simp: example_static)
  have "reachable example_config ?s0"
    by (rule reachable.after_init) (simp_all add: example_static example_empty_def)
  moreover have "free_list ?s0 []" using example_empty_inv by (simp add: pools_inv_def)
  ultimately have "reachable example_config s1"
    using example_answer_ok r by (rule reachable.after_alloc)
  with free_list_matches_counter [of example_config s1] r show ?thesis by blast
qed

text \<open>
  C4, as the code behaves: with an empty free list and a heap that has no block to give (and
  whose garbage collector frees no chunk), \<open>mem_pools_alloc\<close> does not return \<open>NULL\<close>: the
  assertion \<open>pool_state_p != NULL\<close> of \<open>mem_pools_alloc_longpath\<close> fails. No call of
  \<open>mem_pools_alloc\<close> returns \<open>NULL\<close>, in any state.
\<close>

theorem mem_pools_alloc_heap_exhausted:
  "(mem_free_chunk_p s = 0 \<and> mem_free_chunks_number s = 0 \<and> gc_freed a = [] \<and> new_block a = 0
      \<longrightarrow> mem_pools_alloc cfg a s = Some (Inl Assertion_failed))
   \<and> mem_pools_alloc cfg a s \<noteq> Some (Inr (0, s'))"
proof
  show "mem_free_chunk_p s = 0 \<and> mem_free_chunks_number s = 0 \<and> gc_freed a = [] \<and> new_block a = 0
      \<longrightarrow> mem_pools_alloc cfg a s = Some (Inl Assertion_failed)"
  proof
    assume a: "mem_free_chunk_p s = 0 \<and> mem_free_chunks_number s = 0 \<and> gc_freed a = [] \<and> new_block a = 0"
    have "met_free_chunks (chunk_mem s) 0 0 = Some 0"
      by (subst met_free_chunks.simps) simp
    with a have c: "mem_check_pools s = Some (Inr ())" by (simp add: mem_check_pools_def)
    have "mem_heap_alloc_chunked_block a s = Some (Inr (0, s))"
      using a by (simp add: mem_heap_alloc_chunked_block_def done_with_def)
    with a c have "mem_pools_alloc_longpath cfg a s = Some (Inl Assertion_failed)"
      by (cases "1 \<le> MEM_POOL_CHUNKS_NUMBER cfg";
          cases "MEM_POOL_SIZE cfg \<le> mem_heap_get_chunked_block_data_size cfg")
        (simp_all add: mem_pools_alloc_longpath_def)
    with a show "mem_pools_alloc cfg a s = Some (Inl Assertion_failed)"
      by (simp add: mem_pools_alloc_def)
  qed
  show "mem_pools_alloc cfg a s \<noteq> Some (Inr (0, s'))"
    by (auto simp: mem_pools_alloc_def then_do_eq_Inr Let_def done_with_def jerry_assert_def
        split: if_splits)
qed

theorem mem_pools_alloc_heap_exhausted_witness:
  "mem_free_chunk_p (mem_pools_init example_empty) = 0
   \<and> mem_free_chunks_number (mem_pools_init example_empty) = 0
   \<and> mem_pools_alloc example_config \<lparr>gc_freed = [], new_block = 0\<rparr> (mem_pools_init example_empty)
       = Some (Inl Assertion_failed)"
  using mem_pools_alloc_heap_exhausted
    [of "mem_pools_init example_empty" "\<lparr>gc_freed = [], new_block = 0\<rparr>" example_config]
  by (simp add: mem_pools_init_def)

lemma empty_list_check:
  "mem_free_chunk_p s = 0 \<Longrightarrow> mem_free_chunks_number s = 0 \<Longrightarrow> mem_check_pools s = Some (Inr ())"
proof -
  assume a: "mem_free_chunk_p s = 0" "mem_free_chunks_number s = 0"
  have "met_free_chunks (chunk_mem s) 0 0 = Some 0"
    by (subst met_free_chunks.simps) simp
  with a show ?thesis by (simp add: mem_check_pools_def)
qed

lemma mem_pool_init_chain_diverges:
  "256 \<le> MEM_POOL_CHUNKS_NUMBER cfg \<Longrightarrow> mem_pool_init_chain cfg pool_p i prev s = None"
proof (rule ccontr)
  assume N: "256 \<le> MEM_POOL_CHUNKS_NUMBER cfg"
    and "mem_pool_init_chain cfg pool_p i prev s \<noteq> None"
  then obtain r where "mem_pool_init_chain cfg pool_p i prev s = Some r" by blast
  then have "MEM_POOL_CHUNKS_NUMBER cfg \<le> 255" by (rule mem_pool_init_chain_returns)
  with N show False by simp
qed

lemma longpath_diverges:
  assumes e: "mem_free_chunk_p s = 0" "mem_free_chunks_number s = 0"
    and a: "gc_freed a = []" "new_block a \<noteq> 0" "new_block a mod MEM_ALIGNMENT cfg = 0"
    and sz: "MEM_POOL_SIZE cfg \<le> mem_heap_get_chunked_block_data_size cfg"
    and N: "256 \<le> MEM_POOL_CHUNKS_NUMBER cfg"
      "MEM_POOL_CHUNKS_NUMBER cfg \<le> 2 ^ CONFIG_MEM_POOL_MAX_CHUNKS_NUMBER_LOG cfg"
  shows "mem_pools_alloc_longpath cfg a s = None" and "mem_pools_alloc cfg a s = None"
proof -
  define sh where "sh = s\<lparr>heap_blocks := heap_blocks s @ [new_block a]\<rparr>"
  have c: "mem_check_pools s = Some (Inr ())" using e by (rule empty_list_check)
  have ha: "mem_heap_alloc_chunked_block a s = Some (Inr (new_block a, sh))"
    using a by (simp add: mem_heap_alloc_chunked_block_def done_with_def sh_def)
  have "mem_pool_init_chain cfg (new_block a) 0 0 sh = None"
    using N(1) by (rule mem_pool_init_chain_diverges)
  then have "mem_pool_init cfg (new_block a) (MEM_POOL_SIZE cfg) sh = None"
    using a N(2) by (simp add: mem_pool_init_def MEM_POOL_SIZE_def)
  moreover have "mem_free_chunks_number sh = 0" using e by (simp add: sh_def)
  moreover have "1 \<le> MEM_POOL_CHUNKS_NUMBER cfg" using N(1) by simp
  ultimately show l: "mem_pools_alloc_longpath cfg a s = None"
    using c e ha a sz by (simp add: mem_pools_alloc_longpath_def)
  with c e show "mem_pools_alloc cfg a s = None" by (simp add: mem_pools_alloc_def)
qed

lemma longpath_too_small:
  assumes e: "mem_free_chunk_p s = 0" "mem_free_chunks_number s = 0"
    and sz: "\<not> MEM_POOL_SIZE cfg \<le> mem_heap_get_chunked_block_data_size cfg"
  shows "mem_pools_alloc_longpath cfg a s = Some (Inl Assertion_failed)"
  using empty_list_check [OF e] e sz by (simp add: mem_pools_alloc_longpath_def)

text \<open>
  C5, as the code behaves: \<open>mem_pools_alloc\<close> called with an empty free list takes the long
  path. The long path asserts that a pool fits into the data of a heap block
  (\<open>MEM_POOL_SIZE <= mem_heap_get_chunked_block_data_size ()\<close>), else it stops, and asks the
  heap for one block. If the garbage collector run by the heap freed chunks, the long path
  gives the block back (the blocks held are those held before), the free list is made of the
  freed chunks, and the allocation is served from it: the chunk returned is the one freed
  last. Otherwise \<open>mem_pool_init\<close> formats the block. With at most 255 chunks in a pool the
  \<open>MEM_POOL_CHUNKS_NUMBER\<close> chunks, in the order of their addresses, each linked to the next by
  its first word and the last to \<open>NULL\<close>, are the free list, and the counter has their number.
  With 256 chunks in a pool, which the assertions admit when
  \<open>CONFIG_MEM_POOL_MAX_CHUNKS_NUMBER_LOG\<close> is 8, the loop of \<open>mem_pool_init\<close> never ends: its index
  is a \<open>uint8_t\<close>, which is below 256 after every increment. Then neither the long path nor
  \<open>mem_pools_alloc\<close> returns, and no pool is formatted.
\<close>

theorem mem_pools_alloc_longpath_behaviour:
  "(pools_inv cfg s [] \<and> heap_answer_ok cfg s [] a \<and> new_block a \<noteq> 0
      \<and> MEM_POOL_SIZE cfg \<le> mem_heap_get_chunked_block_data_size cfg \<and> gc_freed a \<noteq> [] \<longrightarrow>
        (\<exists>s1 s'. mem_pools_alloc_longpath cfg a s = Some (Inr s1)
           \<and> heap_blocks s1 = heap_blocks s \<and> free_list s1 (rev (gc_freed a))
           \<and> mem_free_chunks_number s1 = length (gc_freed a)
           \<and> mem_pools_alloc cfg a s = Some (Inr (last (gc_freed a), s'))
           \<and> free_list s' (rev (butlast (gc_freed a)))
           \<and> heap_blocks s' = heap_blocks s))
   \<and> (pools_inv cfg s [] \<and> heap_answer_ok cfg s [] a \<and> new_block a \<noteq> 0
      \<and> MEM_POOL_SIZE cfg \<le> mem_heap_get_chunked_block_data_size cfg \<and> gc_freed a = []
      \<and> 1 \<le> MEM_POOL_CHUNKS_NUMBER cfg \<and> MEM_POOL_CHUNKS_NUMBER cfg \<le> 255
      \<and> MEM_POOL_CHUNKS_NUMBER cfg \<le> 2 ^ CONFIG_MEM_POOL_MAX_CHUNKS_NUMBER_LOG cfg \<longrightarrow>
        (\<exists>s1. mem_pools_alloc_longpath cfg a s = Some (Inr s1)
           \<and> heap_blocks s1 = heap_blocks s @ [new_block a]
           \<and> free_list s1 (chunk_addrs cfg (new_block a))
           \<and> mem_free_chunk_p s1 = new_block a
           \<and> mem_free_chunks_number s1 = MEM_POOL_CHUNKS_NUMBER cfg))
   \<and> (mem_free_chunk_p s = 0 \<and> mem_free_chunks_number s = 0
      \<and> gc_freed a = [] \<and> new_block a \<noteq> 0 \<and> new_block a mod MEM_ALIGNMENT cfg = 0
      \<and> MEM_POOL_SIZE cfg \<le> mem_heap_get_chunked_block_data_size cfg
      \<and> 256 \<le> MEM_POOL_CHUNKS_NUMBER cfg
      \<and> MEM_POOL_CHUNKS_NUMBER cfg \<le> 2 ^ CONFIG_MEM_POOL_MAX_CHUNKS_NUMBER_LOG cfg \<longrightarrow>
        mem_pools_alloc_longpath cfg a s = None \<and> mem_pools_alloc cfg a s = None)
   \<and> (mem_free_chunk_p s = 0 \<and> mem_free_chunks_number s = 0
      \<and> \<not> MEM_POOL_SIZE cfg \<le> mem_heap_get_chunked_block_data_size cfg \<longrightarrow>
        mem_pools_alloc_longpath cfg a s = Some (Inl Assertion_failed))"
proof (intro conjI impI)
  assume h: "pools_inv cfg s [] \<and> heap_answer_ok cfg s [] a \<and> new_block a \<noteq> 0
      \<and> MEM_POOL_SIZE cfg \<le> mem_heap_get_chunked_block_data_size cfg \<and> gc_freed a \<noteq> []"
  then have inv: "pools_inv cfg s []" and ans: "heap_answer_ok cfg s [] a"
    and nb: "new_block a \<noteq> 0" and gc: "gc_freed a \<noteq> []"
    and sz: "MEM_POOL_SIZE cfg \<le> mem_heap_get_chunked_block_data_size cfg" by simp_all
  from longpath_gc [OF inv ans nb gc sz] obtain s1 where
    l: "mem_pools_alloc_longpath cfg a s = Some (Inr s1)"
    and i1: "pools_inv cfg s1 (rev (gc_freed a))" and hb: "heap_blocks s1 = heap_blocks s"
    by blast
  from gc have rv: "rev (gc_freed a) = last (gc_freed a) # rev (butlast (gc_freed a))"
    by (metis append_butlast_last_id rev.simps(2) rev_rev_ident rev_swap singleton_rev_conv append_Cons append_Nil)
  from i1 rv have i1': "pools_inv cfg s1 (last (gc_freed a) # rev (butlast (gc_freed a)))" by simp
  have h0: "mem_free_chunk_p s = 0" using pools_inv_Nil [OF inv] by simp
  from i1' have "mem_free_chunk_p s1 \<noteq> 0" by (simp add: pools_inv_def free_list_def)
  from alloc_after_longpath [OF h0 l this] alloc_fast(1) [OF i1', where a = a] alloc_fast(2) [OF i1']
  obtain s' where "mem_pools_alloc cfg a s = Some (Inr (last (gc_freed a), s'))"
    "pools_inv cfg s' (rev (butlast (gc_freed a)))" "heap_blocks s' = heap_blocks s1"
    by auto
  with l i1 hb
  show "\<exists>s1 s'. mem_pools_alloc_longpath cfg a s = Some (Inr s1)
      \<and> heap_blocks s1 = heap_blocks s \<and> free_list s1 (rev (gc_freed a))
      \<and> mem_free_chunks_number s1 = length (gc_freed a)
      \<and> mem_pools_alloc cfg a s = Some (Inr (last (gc_freed a), s'))
      \<and> free_list s' (rev (butlast (gc_freed a)))
      \<and> heap_blocks s' = heap_blocks s"
    by (intro exI [of _ s1] exI [of _ s']) (simp add: pools_inv_def)
next
  assume h: "pools_inv cfg s [] \<and> heap_answer_ok cfg s [] a \<and> new_block a \<noteq> 0
      \<and> MEM_POOL_SIZE cfg \<le> mem_heap_get_chunked_block_data_size cfg \<and> gc_freed a = []
      \<and> 1 \<le> MEM_POOL_CHUNKS_NUMBER cfg \<and> MEM_POOL_CHUNKS_NUMBER cfg \<le> 255
      \<and> MEM_POOL_CHUNKS_NUMBER cfg \<le> 2 ^ CONFIG_MEM_POOL_MAX_CHUNKS_NUMBER_LOG cfg"
  then have inv: "pools_inv cfg s []" and ans: "heap_answer_ok cfg s [] a"
    and nb: "new_block a \<noteq> 0" and gc: "gc_freed a = []"
    and sz: "MEM_POOL_SIZE cfg \<le> mem_heap_get_chunked_block_data_size cfg"
    and N: "1 \<le> MEM_POOL_CHUNKS_NUMBER cfg" "MEM_POOL_CHUNKS_NUMBER cfg \<le> 255"
    and lg: "MEM_POOL_CHUNKS_NUMBER cfg \<le> 2 ^ CONFIG_MEM_POOL_MAX_CHUNKS_NUMBER_LOG cfg"
    by simp_all
  from longpath_new_pool [OF inv ans nb gc N sz lg] obtain s1 where
    "mem_pools_alloc_longpath cfg a s = Some (Inr s1)"
    "pools_inv cfg s1 (chunk_addrs cfg (new_block a))"
    "heap_blocks s1 = heap_blocks s @ [new_block a]" "mem_free_chunk_p s1 = new_block a"
    "mem_free_chunks_number s1 = MEM_POOL_CHUNKS_NUMBER cfg"
    by blast
  then show "\<exists>s1. mem_pools_alloc_longpath cfg a s = Some (Inr s1)
      \<and> heap_blocks s1 = heap_blocks s @ [new_block a]
      \<and> free_list s1 (chunk_addrs cfg (new_block a))
      \<and> mem_free_chunk_p s1 = new_block a
      \<and> mem_free_chunks_number s1 = MEM_POOL_CHUNKS_NUMBER cfg"
    by (intro exI [of _ s1]) (simp add: pools_inv_def)
next
  assume h: "mem_free_chunk_p s = 0 \<and> mem_free_chunks_number s = 0
      \<and> gc_freed a = [] \<and> new_block a \<noteq> 0 \<and> new_block a mod MEM_ALIGNMENT cfg = 0
      \<and> MEM_POOL_SIZE cfg \<le> mem_heap_get_chunked_block_data_size cfg
      \<and> 256 \<le> MEM_POOL_CHUNKS_NUMBER cfg
      \<and> MEM_POOL_CHUNKS_NUMBER cfg \<le> 2 ^ CONFIG_MEM_POOL_MAX_CHUNKS_NUMBER_LOG cfg"
  then show "mem_pools_alloc_longpath cfg a s = None" by (intro longpath_diverges(1)) simp_all
  from h show "mem_pools_alloc cfg a s = None" by (intro longpath_diverges(2)) simp_all
next
  assume "mem_free_chunk_p s = 0 \<and> mem_free_chunks_number s = 0
      \<and> \<not> MEM_POOL_SIZE cfg \<le> mem_heap_get_chunked_block_data_size cfg"
  then show "mem_pools_alloc_longpath cfg a s = Some (Inl Assertion_failed)"
    by (intro longpath_too_small) simp_all
qed

theorem mem_pools_alloc_longpath_behaviour_witness:
  "(\<exists>s1. mem_pools_alloc_longpath example_config \<lparr>gc_freed = [], new_block = 64\<rparr>
              (mem_pools_init example_empty) = Some (Inr s1)
          \<and> heap_blocks s1 = [64] \<and> free_list s1 [64, 72]
          \<and> mem_free_chunk_p s1 = 64 \<and> mem_free_chunks_number s1 = 2)
   \<and> CONFIG_MEM_POOL_MAX_CHUNKS_NUMBER_LOG example_config_256 = 8
   \<and> MEM_POOL_CHUNKS_NUMBER example_config_256 = 256
   \<and> mem_pools_alloc_longpath example_config_256 \<lparr>gc_freed = [], new_block = 4096\<rparr>
        (mem_pools_init example_empty) = None
   \<and> mem_pools_alloc example_config_256 \<lparr>gc_freed = [], new_block = 4096\<rparr>
        (mem_pools_init example_empty) = None"
proof -
  have "\<exists>s1. mem_pools_alloc_longpath example_config \<lparr>gc_freed = [], new_block = 64\<rparr>
              (mem_pools_init example_empty) = Some (Inr s1)
          \<and> heap_blocks s1 = [64] \<and> free_list s1 [64, 72]
          \<and> mem_free_chunk_p s1 = 64 \<and> mem_free_chunks_number s1 = 2"
    using mem_pools_alloc_longpath_behaviour
      [of example_config "mem_pools_init example_empty" "\<lparr>gc_freed = [], new_block = 64\<rparr>"]
      example_empty_inv example_answer_ok example_sizes
    by (simp add: example_static example_chunk_addrs mem_pools_init_def example_empty_def)
  moreover have "mem_pools_alloc_longpath example_config_256 \<lparr>gc_freed = [], new_block = 4096\<rparr>
        (mem_pools_init example_empty) = None
   \<and> mem_pools_alloc example_config_256 \<lparr>gc_freed = [], new_block = 4096\<rparr>
        (mem_pools_init example_empty) = None"
    using mem_pools_alloc_longpath_behaviour
      [of example_config_256 "mem_pools_init example_empty" "\<lparr>gc_freed = [], new_block = 4096\<rparr>"]
    by (simp add: example_config_256_def example_config_def MEM_POOL_SIZE_def mem_pools_init_def)
  ultimately show ?thesis by (simp add: example_config_256_def example_config_def)
qed

lemma free_chunks_gc: "free_chunks ps = gc_free_chunks ps"
proof (induction ps)
  case Nil
  show ?case by (rule ext) simp
next
  case (Cons p ps)
  show ?case by (rule ext) (simp add: Cons.IH)
qed

lemma alloc_chunks_fast:
  "pools_inv cfg s (xs @ ys) \<Longrightarrow> length as = length xs
    \<Longrightarrow> \<exists>s'. alloc_chunks cfg as s = Some (Inr (xs, s')) \<and> pools_inv cfg s' ys
          \<and> heap_blocks s' = heap_blocks s"
proof (induction xs arbitrary: as s)
  case Nil
  then show ?case by (simp add: done_with_def)
next
  case (Cons x xs)
  from Cons.prems(2) obtain a as' where as: "as = a # as'" "length as' = length xs"
    by (cases as) simp_all
  from Cons.prems(1) have i: "pools_inv cfg s (x # (xs @ ys))" by simp
  define s1 where "s1 = s\<lparr>mem_free_chunks_number := length (xs @ ys), mem_free_chunk_p := nx s x\<rparr>"
  have r1: "mem_pools_alloc cfg a s = Some (Inr (x, s1))"
    using alloc_fast(1) [OF i, where a = a] by (simp add: s1_def)
  have i1: "pools_inv cfg s1 (xs @ ys)" using alloc_fast(2) [OF i] by (simp add: s1_def)
  have h1: "heap_blocks s1 = heap_blocks s" by (simp add: s1_def)
  from Cons.IH [OF i1 as(2)] obtain s' where
    r: "alloc_chunks cfg as' s1 = Some (Inr (xs, s'))" and i': "pools_inv cfg s' ys"
    and h': "heap_blocks s' = heap_blocks s1"
    by blast
  have "alloc_chunks cfg as s = Some (Inr (x # xs, s'))"
    using r1 r by (simp add: as(1) done_with_def)
  with i' h' h1 show ?case by (intro exI [of _ s']) simp
qed

lemma alloc_chunks_append:
  "alloc_chunks cfg as s = Some (Inr (ps, s1)) \<Longrightarrow> alloc_chunks cfg bs s1 = Some (Inr (qs, s2))
    \<Longrightarrow> alloc_chunks cfg (as @ bs) s = Some (Inr (ps @ qs, s2))"
proof (induction as arbitrary: s ps)
  case Nil
  then show ?case by (simp add: done_with_def)
next
  case (Cons a as)
  from Cons.prems(1) obtain p sa ps' where
    r1: "mem_pools_alloc cfg a s = Some (Inr (p, sa))"
    and r2: "alloc_chunks cfg as sa = Some (Inr (ps', s1))" and ps: "ps = p # ps'"
    by (auto simp: then_do_eq_Inr done_with_def)
  from Cons.IH [OF r2 Cons.prems(2)] r1 show ?case by (simp add: ps done_with_def)
qed

lemma chunk_addrs_Cons:
  "1 \<le> MEM_POOL_CHUNKS_NUMBER cfg \<Longrightarrow> chunk_addrs cfg p = p # tl (chunk_addrs cfg p)"
  by (simp add: chunk_addrs_def upt_conv_Cons)

lemma alloc_chunks_pool:
  assumes inv: "pools_inv cfg s []" and ans: "heap_answer_ok cfg s [] a"
    and nb: "new_block a \<noteq> 0" and gc: "gc_freed a = []"
    and N: "1 \<le> MEM_POOL_CHUNKS_NUMBER cfg" "MEM_POOL_CHUNKS_NUMBER cfg \<le> 255"
    and sz: "MEM_POOL_SIZE cfg \<le> mem_heap_get_chunked_block_data_size cfg"
    and lg: "MEM_POOL_CHUNKS_NUMBER cfg \<le> 2 ^ CONFIG_MEM_POOL_MAX_CHUNKS_NUMBER_LOG cfg"
    and len: "length as + 1 = MEM_POOL_CHUNKS_NUMBER cfg"
  shows "\<exists>s'. alloc_chunks cfg (a # as) s = Some (Inr (chunk_addrs cfg (new_block a), s'))
      \<and> pools_inv cfg s' [] \<and> heap_blocks s' = heap_blocks s @ [new_block a]"
proof -
  from alloc_new_pool [OF inv ans nb gc N sz lg] obtain s1 where
    r1: "mem_pools_alloc cfg a s = Some (Inr (new_block a, s1))"
    and i1: "pools_inv cfg s1 (tl (chunk_addrs cfg (new_block a)))"
    and h1: "heap_blocks s1 = heap_blocks s @ [new_block a]"
    by blast
  from i1 have i1': "pools_inv cfg s1 (tl (chunk_addrs cfg (new_block a)) @ [])" by simp
  have "length as = length (tl (chunk_addrs cfg (new_block a)))" using len by simp
  from alloc_chunks_fast [OF i1' this] obtain s' where
    r: "alloc_chunks cfg as s1 = Some (Inr (tl (chunk_addrs cfg (new_block a)), s'))"
    and i': "pools_inv cfg s' []" and h': "heap_blocks s' = heap_blocks s1"
    by blast
  have "alloc_chunks cfg (a # as) s
      = Some (Inr (new_block a # tl (chunk_addrs cfg (new_block a)), s'))"
    using r1 r by (simp add: done_with_def)
  with chunk_addrs_Cons [OF N(1), of "new_block a"] i' h' h1 show ?thesis
    by (intro exI [of _ s']) simp
qed

lemma two_pools_run:
  assumes st: "static_asserts cfg" and e: "heap_blocks s0 = []"
    and ok: "heap_ok cfg [b1, b2]"
    and al: "b1 mod MEM_ALIGNMENT cfg = 0" "b2 mod MEM_ALIGNMENT cfg = 0"
    and N: "1 \<le> MEM_POOL_CHUNKS_NUMBER cfg" "MEM_POOL_CHUNKS_NUMBER cfg \<le> 255"
    and sz: "MEM_POOL_SIZE cfg \<le> mem_heap_get_chunked_block_data_size cfg"
    and lg: "MEM_POOL_CHUNKS_NUMBER cfg \<le> 2 ^ CONFIG_MEM_POOL_MAX_CHUNKS_NUMBER_LOG cfg"
    and len: "length r1 + 1 = MEM_POOL_CHUNKS_NUMBER cfg"
      "length r2 + 1 = MEM_POOL_CHUNKS_NUMBER cfg"
  defines "ps \<equiv> chunk_addrs cfg b1 @ chunk_addrs cfg b2"
  shows "\<exists>s1 s2 s3.
      alloc_chunks cfg (\<lparr>gc_freed = [], new_block = b1\<rparr> # r1 @ \<lparr>gc_freed = [], new_block = b2\<rparr> # r2)
          (mem_pools_init s0) = Some (Inr (ps, s1))
      \<and> heap_blocks s1 = [b1, b2] \<and> mem_free_chunks_number s1 = 0
      \<and> free_chunks (rev ps) s1 = Some (Inr s2)
      \<and> mem_free_chunks_number s2 = 2 * MEM_POOL_CHUNKS_NUMBER cfg
      \<and> heap_blocks s2 = [b1, b2]
      \<and> mem_pools_remove_empty_pools cfg s2 = Some (Inr s3)
      \<and> mem_free_chunks_number s3 = 0 \<and> mem_free_chunk_p s3 = 0 \<and> heap_blocks s3 = []"
proof -
  let ?a1 = "\<lparr>gc_freed = [], new_block = b1\<rparr>" and ?a2 = "\<lparr>gc_freed = [], new_block = b2\<rparr>"
  have cs: "0 < MEM_POOL_CHUNK_SIZE cfg" using st by (rule static_asserts_pos)
  from ok have b: "block_ok cfg b1" "block_ok cfg b2" "b1 \<noteq> b2" "blocks_apart cfg b2 b1"
    by (auto simp: heap_ok_def blocks_apart_def)
  then have b0: "b1 \<noteq> 0" "b2 \<noteq> 0" by (simp_all add: block_ok_def)
  have i0: "pools_inv cfg (mem_pools_init s0) []" using st e by (rule pools_inv_init)
  have h0: "heap_blocks (mem_pools_init s0) = []" using e by (simp add: mem_pools_init_def)
  have a1: "heap_answer_ok cfg (mem_pools_init s0) [] ?a1"
    using b(1) al(1) by (simp add: heap_answer_ok_def h0)
  from alloc_chunks_pool [OF i0 a1 _ _ N sz lg len(1)] b0(1) obtain sa where
    ra: "alloc_chunks cfg (?a1 # r1) (mem_pools_init s0) = Some (Inr (chunk_addrs cfg b1, sa))"
    and ia: "pools_inv cfg sa []" and ha: "heap_blocks sa = [b1]"
    by (auto simp: h0)
  have a2: "heap_answer_ok cfg sa [] ?a2"
    using b(2,3,4) al(2) by (simp add: heap_answer_ok_def ha)
  from alloc_chunks_pool [OF ia a2 _ _ N sz lg len(2)] b0(2) obtain s1 where
    rb: "alloc_chunks cfg (?a2 # r2) sa = Some (Inr (chunk_addrs cfg b2, s1))"
    and i1: "pools_inv cfg s1 []" and h1: "heap_blocks s1 = [b1, b2]"
    by (auto simp: ha)
  from alloc_chunks_append [OF ra rb]
  have r1: "alloc_chunks cfg (?a1 # r1 @ ?a2 # r2) (mem_pools_init s0) = Some (Inr (ps, s1))"
    by (simp add: ps_def)
  have c1: "mem_free_chunks_number s1 = 0" using pools_inv_Nil [OF i1] by simp
  have "set (chunk_addrs cfg b1) \<inter> set (chunk_addrs cfg b2) = {}"
    using ok cs _ _ b(3) by (rule pools_disjoint) simp_all
  then have d: "distinct (rev ps)"
    using distinct_chunk_addrs [OF cs] by (simp add: ps_def Int_commute)
  have v: "\<forall>c\<in>set (rev ps). valid_chunk cfg (heap_blocks s1) c \<and> c \<notin> set []"
    by (auto simp: valid_chunk_def h1 ps_def)
  from gc_free_chunks_correct [OF i1 d v] obtain s2 where
    r2: "gc_free_chunks (rev ps) s1 = Some (Inr s2)" and i2: "pools_inv cfg s2 ps"
    and h2: "heap_blocks s2 = [b1, b2]"
    by (auto simp: h1)
  have c2: "mem_free_chunks_number s2 = 2 * MEM_POOL_CHUNKS_NUMBER cfg"
    using i2 by (simp add: pools_inv_def ps_def)
  from compaction_result [OF i2] obtain s3 xs3 where
    r3: "mem_pools_remove_empty_pools cfg s2 = Some (Inr s3)" and i3: "pools_inv cfg s3 xs3"
    and h3: "heap_blocks s3 = filter (\<lambda>p. \<not> pool_is_free cfg ps p) (heap_blocks s2)"
    by blast
  have "pool_is_free cfg ps b1" "pool_is_free cfg ps b2"
    by (simp_all add: pool_is_free_def ps_def)
  with h3 have e3: "heap_blocks s3 = []" by (simp add: h2)
  have "x \<notin> set xs3" for x
    using i3 e3 by (auto simp: pools_inv_def valid_chunk_def)
  from this [of "hd xs3"] have "xs3 = []" by (cases xs3) simp_all
  with i3 have i3': "pools_inv cfg s3 []" by simp
  from r1 h1 c1 r2 c2 h2 r3 pools_inv_Nil [OF i3'] e3 show ?thesis
    by (intro exI [of _ s1] exI [of _ s2] exI [of _ s3]) (simp add: free_chunks_gc)
qed

lemma first_alloc_returns:
  assumes st: "static_asserts cfg" and e: "heap_blocks s0 = []"
    and b: "block_ok cfg b1" "b1 mod MEM_ALIGNMENT cfg = 0"
    and r: "alloc_chunks cfg (\<lparr>gc_freed = [], new_block = b1\<rparr> # as) (mem_pools_init s0)
              = Some (Inr res)"
  shows "1 \<le> MEM_POOL_CHUNKS_NUMBER cfg" and "MEM_POOL_CHUNKS_NUMBER cfg \<le> 255"
    and "MEM_POOL_SIZE cfg \<le> mem_heap_get_chunked_block_data_size cfg"
    and "MEM_POOL_CHUNKS_NUMBER cfg \<le> 2 ^ CONFIG_MEM_POOL_MAX_CHUNKS_NUMBER_LOG cfg"
proof -
  let ?a1 = "\<lparr>gc_freed = [], new_block = b1\<rparr>"
  have i0: "pools_inv cfg (mem_pools_init s0) []" using st e by (rule pools_inv_init)
  have h0: "heap_blocks (mem_pools_init s0) = []" using e by (simp add: mem_pools_init_def)
  have a1: "heap_answer_ok cfg (mem_pools_init s0) [] ?a1"
    using b by (simp add: heap_answer_ok_def h0)
  from r obtain x where "mem_pools_alloc cfg ?a1 (mem_pools_init s0) = Some (Inr x)"
    by (auto simp: then_do_eq_Inr)
  from alloc_needs_longpath [OF _ this] pools_inv_Nil [OF i0] obtain sl where
    l: "mem_pools_alloc_longpath cfg ?a1 (mem_pools_init s0) = Some (Inr sl)" by auto
  note lr = longpath_returns [OF i0 a1 l]
  show "1 \<le> MEM_POOL_CHUNKS_NUMBER cfg" by (rule lr(2))
  show "MEM_POOL_CHUNKS_NUMBER cfg \<le> 255" by (rule lr(3)) simp
  show "MEM_POOL_SIZE cfg \<le> mem_heap_get_chunked_block_data_size cfg" by (rule lr(4))
  show "MEM_POOL_CHUNKS_NUMBER cfg \<le> 2 ^ CONFIG_MEM_POOL_MAX_CHUNKS_NUMBER_LOG cfg"
    by (rule lr(5)) simp
qed

text \<open>
  C1: called in a consistent state of the pool manager, as every state is that is reached
  from \<open>mem_pools_init\<close> by calls of \<open>mem_pools_alloc\<close>, \<open>mem_pools_free\<close> and
  \<open>mem_pools_remove_empty_pools\<close>, \<open>mem_pools_remove_empty_pools\<close> returns, it gives back to the
  heap exactly the pools all of whose chunks were on the free list, and afterwards no pool
  that is still held has all its chunks on the free list.

  The run of the example: \<open>mem_pools_init\<close> with no pool held, then \<open>2N\<close> calls of
  \<open>mem_pools_alloc\<close>, where \<open>N\<close> is \<open>MEM_POOL_CHUNKS_NUMBER\<close>, the heap answering the first and
  the \<open>(N + 1)\<close>-th with the blocks \<open>b1\<close> and \<open>b2\<close> and no chunk freed by its garbage
  collector (the other calls do not ask the heap). Whenever these calls return, they have
  returned the chunks of \<open>b1\<close> and then those of \<open>b2\<close>, in the order of their addresses, and
  two pools are held. Then the calls of \<open>mem_pools_free\<close> on these chunks in reverse order
  return, with \<open>2N\<close> free chunks counted and the two pools still held, and the call of
  \<open>mem_pools_remove_empty_pools\<close> that follows returns with no free chunk and no pool held:
  both pools went back to the heap. The \<open>2N\<close> calls of \<open>mem_pools_alloc\<close> do return when a
  pool has at most 255 chunks and passes the assertions on its size.
\<close>

theorem remove_empty_pools_releases_free_pools:
  "(pools_inv cfg s xs \<longrightarrow>
      (\<exists>s' xs'. mem_pools_remove_empty_pools cfg s = Some (Inr s')
         \<and> pools_inv cfg s' xs'
         \<and> heap_blocks s' = filter (\<lambda>p. \<not> pool_is_free cfg xs p) (heap_blocks s)
         \<and> (\<forall>p\<in>set (heap_blocks s'). \<not> pool_is_free cfg xs' p)
         \<and> ((\<forall>p\<in>set (heap_blocks s). pool_is_free cfg xs p)
               \<longrightarrow> mem_free_chunks_number s' = 0 \<and> heap_blocks s' = [])))
   \<and> (reachable cfg s \<longrightarrow>
      (\<exists>s' xs'. mem_pools_remove_empty_pools cfg s = Some (Inr s') \<and> free_list s' xs'
         \<and> (\<forall>p\<in>set (heap_blocks s'). \<not> pool_is_free cfg xs' p)))
   \<and> (static_asserts cfg \<and> heap_blocks s0 = [] \<and> heap_ok cfg [b1, b2]
      \<and> b1 mod MEM_ALIGNMENT cfg = 0 \<and> b2 mod MEM_ALIGNMENT cfg = 0
      \<and> length r1 + 1 = MEM_POOL_CHUNKS_NUMBER cfg \<and> length r2 + 1 = MEM_POOL_CHUNKS_NUMBER cfg
      \<and> alloc_chunks cfg
            (\<lparr>gc_freed = [], new_block = b1\<rparr> # r1 @ \<lparr>gc_freed = [], new_block = b2\<rparr> # r2)
            (mem_pools_init s0) = Some (Inr (ps, s1)) \<longrightarrow>
        ps = chunk_addrs cfg b1 @ chunk_addrs cfg b2
        \<and> length ps = 2 * MEM_POOL_CHUNKS_NUMBER cfg
        \<and> heap_blocks s1 = [b1, b2] \<and> mem_free_chunks_number s1 = 0
        \<and> (\<exists>s2 s3. free_chunks (rev ps) s1 = Some (Inr s2)
              \<and> mem_free_chunks_number s2 = 2 * MEM_POOL_CHUNKS_NUMBER cfg
              \<and> heap_blocks s2 = [b1, b2]
              \<and> mem_pools_remove_empty_pools cfg s2 = Some (Inr s3)
              \<and> mem_free_chunks_number s3 = 0 \<and> mem_free_chunk_p s3 = 0
              \<and> heap_blocks s3 = []))
   \<and> (static_asserts cfg \<and> heap_blocks s0 = [] \<and> heap_ok cfg [b1, b2]
      \<and> b1 mod MEM_ALIGNMENT cfg = 0 \<and> b2 mod MEM_ALIGNMENT cfg = 0
      \<and> length r1 + 1 = MEM_POOL_CHUNKS_NUMBER cfg \<and> length r2 + 1 = MEM_POOL_CHUNKS_NUMBER cfg
      \<and> MEM_POOL_CHUNKS_NUMBER cfg \<le> 255
      \<and> MEM_POOL_SIZE cfg \<le> mem_heap_get_chunked_block_data_size cfg
      \<and> MEM_POOL_CHUNKS_NUMBER cfg \<le> 2 ^ CONFIG_MEM_POOL_MAX_CHUNKS_NUMBER_LOG cfg \<longrightarrow>
        (\<exists>s1. alloc_chunks cfg
            (\<lparr>gc_freed = [], new_block = b1\<rparr> # r1 @ \<lparr>gc_freed = [], new_block = b2\<rparr> # r2)
            (mem_pools_init s0) = Some (Inr (chunk_addrs cfg b1 @ chunk_addrs cfg b2, s1))))"
proof (intro conjI impI)
  assume inv: "pools_inv cfg s xs"
  from compaction_result [OF inv] obtain s' xs' where
    r: "mem_pools_remove_empty_pools cfg s = Some (Inr s')" and inv': "pools_inv cfg s' xs'"
    and hb: "heap_blocks s' = filter (\<lambda>p. \<not> pool_is_free cfg xs p) (heap_blocks s)"
    and nf: "\<forall>p\<in>set (heap_blocks s'). \<not> pool_is_free cfg xs' p"
    by blast
  have "mem_free_chunks_number s' = 0 \<and> heap_blocks s' = []"
    if "\<forall>p\<in>set (heap_blocks s). pool_is_free cfg xs p"
  proof -
    from that have e: "heap_blocks s' = []" by (simp add: hb)
    have "x \<notin> set xs'" for x
      using inv' e by (auto simp: pools_inv_def valid_chunk_def)
    from this [of "hd xs'"] have "xs' = []" by (cases xs') simp_all
    with inv' e show ?thesis by (simp add: pools_inv_def)
  qed
  with r inv' hb nf
  show "\<exists>s' xs'. mem_pools_remove_empty_pools cfg s = Some (Inr s')
         \<and> pools_inv cfg s' xs'
         \<and> heap_blocks s' = filter (\<lambda>p. \<not> pool_is_free cfg xs p) (heap_blocks s)
         \<and> (\<forall>p\<in>set (heap_blocks s'). \<not> pool_is_free cfg xs' p)
         \<and> ((\<forall>p\<in>set (heap_blocks s). pool_is_free cfg xs p)
               \<longrightarrow> mem_free_chunks_number s' = 0 \<and> heap_blocks s' = [])"
    by blast
next
  assume "reachable cfg s"
  from reachable_inv [OF this] obtain xs0 where inv: "pools_inv cfg s xs0" by blast
  from compaction_result [OF inv] obtain s' xs' where
    "mem_pools_remove_empty_pools cfg s = Some (Inr s')" "pools_inv cfg s' xs'"
    "\<forall>p\<in>set (heap_blocks s'). \<not> pool_is_free cfg xs' p"
    by blast
  then show "\<exists>s' xs'. mem_pools_remove_empty_pools cfg s = Some (Inr s') \<and> free_list s' xs'
         \<and> (\<forall>p\<in>set (heap_blocks s'). \<not> pool_is_free cfg xs' p)"
    by (intro exI [of _ s'] exI [of _ xs']) (simp add: pools_inv_def)
next
  let ?as = "\<lparr>gc_freed = [], new_block = b1\<rparr> # r1 @ \<lparr>gc_freed = [], new_block = b2\<rparr> # r2"
  assume h: "static_asserts cfg \<and> heap_blocks s0 = [] \<and> heap_ok cfg [b1, b2]
      \<and> b1 mod MEM_ALIGNMENT cfg = 0 \<and> b2 mod MEM_ALIGNMENT cfg = 0
      \<and> length r1 + 1 = MEM_POOL_CHUNKS_NUMBER cfg \<and> length r2 + 1 = MEM_POOL_CHUNKS_NUMBER cfg
      \<and> alloc_chunks cfg ?as (mem_pools_init s0) = Some (Inr (ps, s1))"
  then have st: "static_asserts cfg" and e: "heap_blocks s0 = []" and ok: "heap_ok cfg [b1, b2]"
    and al: "b1 mod MEM_ALIGNMENT cfg = 0" "b2 mod MEM_ALIGNMENT cfg = 0"
    and len: "length r1 + 1 = MEM_POOL_CHUNKS_NUMBER cfg"
      "length r2 + 1 = MEM_POOL_CHUNKS_NUMBER cfg"
    and r: "alloc_chunks cfg ?as (mem_pools_init s0) = Some (Inr (ps, s1))"
    by simp_all
  from ok have b1: "block_ok cfg b1" by (simp add: heap_ok_def)
  note fr = first_alloc_returns [OF st e b1 al(1) r]
  from two_pools_run [OF st e ok al fr(1,2,3,4) len] r
  have "ps = chunk_addrs cfg b1 @ chunk_addrs cfg b2
        \<and> heap_blocks s1 = [b1, b2] \<and> mem_free_chunks_number s1 = 0
        \<and> (\<exists>s2 s3. free_chunks (rev ps) s1 = Some (Inr s2)
              \<and> mem_free_chunks_number s2 = 2 * MEM_POOL_CHUNKS_NUMBER cfg
              \<and> heap_blocks s2 = [b1, b2]
              \<and> mem_pools_remove_empty_pools cfg s2 = Some (Inr s3)
              \<and> mem_free_chunks_number s3 = 0 \<and> mem_free_chunk_p s3 = 0
              \<and> heap_blocks s3 = [])"
    by auto
  then have k1: "ps = chunk_addrs cfg b1 @ chunk_addrs cfg b2"
    and k2: "heap_blocks s1 = [b1, b2]" and k3: "mem_free_chunks_number s1 = 0"
    and k4: "\<exists>s2 s3. free_chunks (rev ps) s1 = Some (Inr s2)
              \<and> mem_free_chunks_number s2 = 2 * MEM_POOL_CHUNKS_NUMBER cfg
              \<and> heap_blocks s2 = [b1, b2]
              \<and> mem_pools_remove_empty_pools cfg s2 = Some (Inr s3)
              \<and> mem_free_chunks_number s3 = 0 \<and> mem_free_chunk_p s3 = 0
              \<and> heap_blocks s3 = []"
    by blast+
  from k1 show "ps = chunk_addrs cfg b1 @ chunk_addrs cfg b2" .
  from k1 show "length ps = 2 * MEM_POOL_CHUNKS_NUMBER cfg" by simp
  from k2 show "heap_blocks s1 = [b1, b2]" .
  from k3 show "mem_free_chunks_number s1 = 0" .
  from k4 show "\<exists>s2 s3. free_chunks (rev ps) s1 = Some (Inr s2)
              \<and> mem_free_chunks_number s2 = 2 * MEM_POOL_CHUNKS_NUMBER cfg
              \<and> heap_blocks s2 = [b1, b2]
              \<and> mem_pools_remove_empty_pools cfg s2 = Some (Inr s3)
              \<and> mem_free_chunks_number s3 = 0 \<and> mem_free_chunk_p s3 = 0
              \<and> heap_blocks s3 = []" .
next
  assume h: "static_asserts cfg \<and> heap_blocks s0 = [] \<and> heap_ok cfg [b1, b2]
      \<and> b1 mod MEM_ALIGNMENT cfg = 0 \<and> b2 mod MEM_ALIGNMENT cfg = 0
      \<and> length r1 + 1 = MEM_POOL_CHUNKS_NUMBER cfg \<and> length r2 + 1 = MEM_POOL_CHUNKS_NUMBER cfg
      \<and> MEM_POOL_CHUNKS_NUMBER cfg \<le> 255
      \<and> MEM_POOL_SIZE cfg \<le> mem_heap_get_chunked_block_data_size cfg
      \<and> MEM_POOL_CHUNKS_NUMBER cfg \<le> 2 ^ CONFIG_MEM_POOL_MAX_CHUNKS_NUMBER_LOG cfg"
  then have st: "static_asserts cfg" and e: "heap_blocks s0 = []" and ok: "heap_ok cfg [b1, b2]"
    and al: "b1 mod MEM_ALIGNMENT cfg = 0" "b2 mod MEM_ALIGNMENT cfg = 0"
    and len: "length r1 + 1 = MEM_POOL_CHUNKS_NUMBER cfg"
      "length r2 + 1 = MEM_POOL_CHUNKS_NUMBER cfg"
    and N: "MEM_POOL_CHUNKS_NUMBER cfg \<le> 255"
    and sz: "MEM_POOL_SIZE cfg \<le> mem_heap_get_chunked_block_data_size cfg"
    and lg: "MEM_POOL_CHUNKS_NUMBER cfg \<le> 2 ^ CONFIG_MEM_POOL_MAX_CHUNKS_NUMBER_LOG cfg"
    by simp_all
  from len(1) have N1: "1 \<le> MEM_POOL_CHUNKS_NUMBER cfg" by simp
  from two_pools_run [OF st e ok al N1 N sz lg len]
  show "\<exists>s1. alloc_chunks cfg
            (\<lparr>gc_freed = [], new_block = b1\<rparr> # r1 @ \<lparr>gc_freed = [], new_block = b2\<rparr> # r2)
            (mem_pools_init s0) = Some (Inr (chunk_addrs cfg b1 @ chunk_addrs cfg b2, s1))"
    by blast
qed

theorem remove_empty_pools_releases_free_pools_witness:
  "\<exists>s1 s2 s3.
     alloc_chunks example_config
        [\<lparr>gc_freed = [], new_block = 64\<rparr>, \<lparr>gc_freed = [], new_block = 0\<rparr>,
         \<lparr>gc_freed = [], new_block = 128\<rparr>, \<lparr>gc_freed = [], new_block = 0\<rparr>]
        (mem_pools_init example_empty) = Some (Inr ([64, 72, 128, 136], s1))
     \<and> heap_blocks s1 = [64, 128] \<and> mem_free_chunks_number s1 = 0
     \<and> free_chunks [136, 128, 72, 64] s1 = Some (Inr s2)
     \<and> mem_free_chunks_number s2 = 4 \<and> heap_blocks s2 = [64, 128]
     \<and> mem_pools_remove_empty_pools example_config s2 = Some (Inr s3)
     \<and> mem_free_chunks_number s3 = 0 \<and> mem_free_chunk_p s3 = 0 \<and> heap_blocks s3 = []"
proof -
  let ?r = "[\<lparr>gc_freed = [], new_block = 0\<rparr>]"
  have al: "64 mod MEM_ALIGNMENT example_config = 0" "128 mod MEM_ALIGNMENT example_config = 0"
    by (simp_all add: example_config_def)
  have len: "length ?r + 1 = MEM_POOL_CHUNKS_NUMBER example_config" by (simp add: example_static)
  have N: "MEM_POOL_CHUNKS_NUMBER example_config \<le> 255" by (simp add: example_static)
  have e: "heap_blocks example_empty = []" by (simp add: example_empty_def)
  note t = remove_empty_pools_releases_free_pools
    [where cfg = example_config and ?s0.0 = example_empty and ?b1.0 = 64 and ?b2.0 = 128
       and ?r1.0 = ?r and ?r2.0 = ?r]
  from t [THEN conjunct2, THEN conjunct2, THEN conjunct2]
    example_static(1) e example_heap_ok(1) al len N example_sizes
  obtain s1 where r: "alloc_chunks example_config
        (\<lparr>gc_freed = [], new_block = 64\<rparr> # ?r @ \<lparr>gc_freed = [], new_block = 128\<rparr> # ?r)
        (mem_pools_init example_empty)
      = Some (Inr (chunk_addrs example_config 64 @ chunk_addrs example_config 128, s1))"
    by blast
  from t [where ps = "chunk_addrs example_config 64 @ chunk_addrs example_config 128" and ?s1.0 = s1,
      THEN conjunct2, THEN conjunct2, THEN conjunct1]
    example_static(1) e example_heap_ok(1) al len r
  have "heap_blocks s1 = [64, 128] \<and> mem_free_chunks_number s1 = 0
        \<and> (\<exists>s2 s3. free_chunks (rev (chunk_addrs example_config 64 @ chunk_addrs example_config 128)) s1
                = Some (Inr s2)
              \<and> mem_free_chunks_number s2 = 2 * MEM_POOL_CHUNKS_NUMBER example_config
              \<and> heap_blocks s2 = [64, 128]
              \<and> mem_pools_remove_empty_pools example_config s2 = Some (Inr s3)
              \<and> mem_free_chunks_number s3 = 0 \<and> mem_free_chunk_p s3 = 0
              \<and> heap_blocks s3 = [])"
    by blast
  with r show ?thesis by (simp add: example_chunk_addrs example_static)
qed

lemma and_then_simps [simp]:
  "and_then (Inl e) f = Inl e" "and_then (Inr x) f = f x"
  by (simp_all add: and_then_def)

lemma JERRY_ASSERT_simps [simp]:
  "JERRY_ASSERT True = Inr ()" "JERRY_ASSERT False = Inl JERRY_ASSERT_failed"
  by (simp_all add: JERRY_ASSERT_def)

lemma tmp_operand_cases:
  assumes "jsp_reg_max_for_local_var st = VM_IDX_EMPTY k" "jsp_reg_max_for_args st = VM_IDX_EMPTY k"
  shows "jsp_reg_next st > VM_REG_GENERAL_LAST k
           \<Longrightarrow> tmp_operand k st = Inl (PARSE_ERROR JSP_EARLY_ERROR_SYNTAX ''Not enough register variables'')"
    and "jsp_reg_next st \<le> VM_REG_GENERAL_LAST k
           \<Longrightarrow> tmp_operand k st = Inr (Reg_operand (jsp_reg_next st),
                 st\<lparr>jsp_reg_next := jsp_reg_next st + 1,
                    jsp_reg_max_for_temps :=
                      (if jsp_reg_max_for_temps st < jsp_reg_next st then jsp_reg_next st
                       else jsp_reg_max_for_temps st)\<rparr>)"
  using assms by (simp_all add: tmp_operand_def jsp_alloc_reg_for_temp_def Let_def not_less [symmetric])

lemma rewrite_call_like_header_cases:
  assumes "jsp_reg_max_for_local_var st = VM_IDX_EMPTY k" "jsp_reg_max_for_args st = VM_IDX_EMPTY k"
  shows "args_count > 255 \<Longrightarrow> rewrite_call_like_header k args_count oc rest om st
           = Inl (PARSE_ERROR JSP_EARLY_ERROR_SYNTAX
               ''No more than 255 formal parameters / arguments are currently supported'')"
    and "args_count \<le> 255 \<Longrightarrow> jsp_reg_next st > VM_REG_GENERAL_LAST k
           \<Longrightarrow> rewrite_call_like_header k args_count oc rest om st
               = Inl (PARSE_ERROR JSP_EARLY_ERROR_SYNTAX ''Not enough register variables'')"
    and "args_count \<le> 255 \<Longrightarrow> jsp_reg_next st \<le> VM_REG_GENERAL_LAST k
           \<Longrightarrow> rewrite_call_like_header k args_count oc rest om st
                 = Inr (Reg_operand (jsp_reg_next st),
                     st\<lparr>jsp_reg_next := jsp_reg_next st + 1,
                        jsp_reg_max_for_temps :=
                          (if jsp_reg_max_for_temps st < jsp_reg_next st then jsp_reg_next st
                           else jsp_reg_max_for_temps st),
                        scope := (scope st)\<lparr>instrs := (instrs (scope st))
                          [oc := om\<lparr>raw_args := (raw_args om)
                             [func_expr_n_arg_list := word_of_nat args_count,
                              func_expr_n_lhs := jsp_reg_next st]\<rparr>]\<rparr>,
                        varg_headers := rest\<rparr>)"
proof -
  show "args_count > 255 \<Longrightarrow> rewrite_call_like_header k args_count oc rest om st
           = Inl (PARSE_ERROR JSP_EARLY_ERROR_SYNTAX
               ''No more than 255 formal parameters / arguments are currently supported'')"
    by (simp add: rewrite_call_like_header_def)
  show "args_count \<le> 255 \<Longrightarrow> jsp_reg_next st > VM_REG_GENERAL_LAST k
           \<Longrightarrow> rewrite_call_like_header k args_count oc rest om st
               = Inl (PARSE_ERROR JSP_EARLY_ERROR_SYNTAX ''Not enough register variables'')"
    using tmp_operand_cases(1) [OF assms] by (simp add: rewrite_call_like_header_def)
  assume a: "args_count \<le> 255" "jsp_reg_next st \<le> VM_REG_GENERAL_LAST k"
  from tmp_operand_cases(2) [OF assms a(2)] a(1)
  show "rewrite_call_like_header k args_count oc rest om st
                 = Inr (Reg_operand (jsp_reg_next st),
                     st\<lparr>jsp_reg_next := jsp_reg_next st + 1,
                        jsp_reg_max_for_temps :=
                          (if jsp_reg_max_for_temps st < jsp_reg_next st then jsp_reg_next st
                           else jsp_reg_max_for_temps st),
                        scope := (scope st)\<lparr>instrs := (instrs (scope st))
                          [oc := om\<lparr>raw_args := (raw_args om)
                             [func_expr_n_arg_list := word_of_nat args_count,
                              func_expr_n_lhs := jsp_reg_next st]\<rparr>]\<rparr>,
                        varg_headers := rest\<rparr>)"
    by (simp add: rewrite_call_like_header_def Let_def serializer_rewrite_op_meta_def
        scopes_tree_set_op_meta_def)
qed

lemma rewrite_literal_header_cases:
  assumes "jsp_reg_max_for_local_var st = VM_IDX_EMPTY k" "jsp_reg_max_for_args st = VM_IDX_EMPTY k"
  shows "args_count > 65535 \<Longrightarrow> rewrite_literal_header k args_count oc rest om st
           = Inl (PARSE_ERROR JSP_EARLY_ERROR_SYNTAX
               ''No more than 65535 formal parameters are currently supported'')"
    and "args_count \<le> 65535 \<Longrightarrow> jsp_reg_next st > VM_REG_GENERAL_LAST k
           \<Longrightarrow> rewrite_literal_header k args_count oc rest om st
               = Inl (PARSE_ERROR JSP_EARLY_ERROR_SYNTAX ''Not enough register variables'')"
    and "args_count \<le> 65535 \<Longrightarrow> jsp_reg_next st \<le> VM_REG_GENERAL_LAST k
           \<Longrightarrow> rewrite_literal_header k args_count oc rest om st
                 = Inr (Reg_operand (jsp_reg_next st),
                     st\<lparr>jsp_reg_next := jsp_reg_next st + 1,
                        jsp_reg_max_for_temps :=
                          (if jsp_reg_max_for_temps st < jsp_reg_next st then jsp_reg_next st
                           else jsp_reg_max_for_temps st),
                        scope := (scope st)\<lparr>instrs := (instrs (scope st))
                          [oc := om\<lparr>raw_args := (raw_args om)
                             [obj_decl_list_1 := word_of_nat (args_count div 256),
                              obj_decl_list_2 := word_of_nat (args_count mod 256),
                              obj_decl_lhs := jsp_reg_next st]\<rparr>]\<rparr>,
                        varg_headers := rest\<rparr>)"
proof -
  show "args_count > 65535 \<Longrightarrow> rewrite_literal_header k args_count oc rest om st
           = Inl (PARSE_ERROR JSP_EARLY_ERROR_SYNTAX
               ''No more than 65535 formal parameters are currently supported'')"
    by (simp add: rewrite_literal_header_def)
  show "args_count \<le> 65535 \<Longrightarrow> jsp_reg_next st > VM_REG_GENERAL_LAST k
           \<Longrightarrow> rewrite_literal_header k args_count oc rest om st
               = Inl (PARSE_ERROR JSP_EARLY_ERROR_SYNTAX ''Not enough register variables'')"
    using tmp_operand_cases(1) [OF assms] by (simp add: rewrite_literal_header_def)
  assume a: "args_count \<le> 65535" "jsp_reg_next st \<le> VM_REG_GENERAL_LAST k"
  from tmp_operand_cases(2) [OF assms a(2)] a(1)
  show "rewrite_literal_header k args_count oc rest om st
                 = Inr (Reg_operand (jsp_reg_next st),
                     st\<lparr>jsp_reg_next := jsp_reg_next st + 1,
                        jsp_reg_max_for_temps :=
                          (if jsp_reg_max_for_temps st < jsp_reg_next st then jsp_reg_next st
                           else jsp_reg_max_for_temps st),
                        scope := (scope st)\<lparr>instrs := (instrs (scope st))
                          [oc := om\<lparr>raw_args := (raw_args om)
                             [obj_decl_list_1 := word_of_nat (args_count div 256),
                              obj_decl_list_2 := word_of_nat (args_count mod 256),
                              obj_decl_lhs := jsp_reg_next st]\<rparr>]\<rparr>,
                        varg_headers := rest\<rparr>)"
    by (simp add: rewrite_literal_header_def Let_def serializer_rewrite_op_meta_def
        scopes_tree_set_op_meta_def)
qed

text \<open>
  C8, amended: when the header of an argument list is rewritten,
  \<open>rewrite_varg_header_set_args_count\<close> raises the SyntaxError for too many elements exactly
  when the count exceeds 255 (headers of function declarations, function expressions,
  constructor calls and calls) or 65535 (headers of array and object literals). With a count
  within the limit the header of a function declaration is always rewritten: the count is
  written to its \<open>arg_list\<close> byte, the header is popped from the stack of headers, nothing
  else changes, and the empty operand is returned. The other headers need a register for
  their result. When \<open>jsp_reg_next\<close> is past \<open>VM_REG_GENERAL_LAST\<close> the SyntaxError ``Not enough
  register variables'' is raised. Otherwise the register \<open>jsp_reg_next\<close> is taken (the cursor
  moves on by one and \<open>jsp_reg_max_for_temps\<close> is raised to the register if it was below),
  the count is written to the \<open>arg_list\<close> byte of the header of a function expression,
  constructor call or call, or its high and low bytes to \<open>list_1\<close> and \<open>list_2\<close> of the header
  of an array or object literal, the register is written to \<open>lhs\<close>, the header is popped,
  and the register is returned.
\<close>

theorem rewrite_varg_header_set_args_count_errors:
  fixes st :: parser_state and k :: vm_consts and args_count :: nat
  assumes "varg_headers st = oc # rest" and "oc < length (instrs (scope st))"
    and "jsp_reg_max_for_local_var st = VM_IDX_EMPTY k"
    and "jsp_reg_max_for_args st = VM_IDX_EMPTY k"
  defines "om \<equiv> instrs (scope st) ! oc"
  defines "result \<equiv> rewrite_varg_header_set_args_count k args_count st"
  defines "no_register \<equiv> Inl (PARSE_ERROR JSP_EARLY_ERROR_SYNTAX ''Not enough register variables'')"
  defines "with_header \<equiv> \<lambda>(s :: parser_state) args.
     s\<lparr>scope := (scope st)\<lparr>instrs := (instrs (scope st))[oc := om\<lparr>raw_args := args\<rparr>]\<rparr>,
       varg_headers := rest\<rparr>"
  defines "with_register \<equiv> st\<lparr>jsp_reg_next := jsp_reg_next st + 1,
     jsp_reg_max_for_temps :=
       (if jsp_reg_max_for_temps st < jsp_reg_next st then jsp_reg_next st
        else jsp_reg_max_for_temps st)\<rparr>"
  shows "(op_idx om = VM_OP_FUNC_DECL_N \<longrightarrow>
            (if args_count > 255
             then result = Inl (PARSE_ERROR JSP_EARLY_ERROR_SYNTAX
                    ''No more than 255 formal parameters are currently supported'')
             else result = Inr (empty_operand,
                    with_header st ((raw_args om)[func_decl_n_arg_list := word_of_nat args_count]))))
       \<and> (op_idx om \<in> {VM_OP_FUNC_EXPR_N, VM_OP_CONSTRUCT_N, VM_OP_CALL_N} \<longrightarrow>
            (if args_count > 255
             then result = Inl (PARSE_ERROR JSP_EARLY_ERROR_SYNTAX
                    ''No more than 255 formal parameters / arguments are currently supported'')
             else if jsp_reg_next st > VM_REG_GENERAL_LAST k then result = no_register
             else result = Inr (Reg_operand (jsp_reg_next st),
                    with_header with_register
                      ((raw_args om)[func_expr_n_arg_list := word_of_nat args_count,
                                     func_expr_n_lhs := jsp_reg_next st]))))
       \<and> (op_idx om \<in> {VM_OP_ARRAY_DECL, VM_OP_OBJ_DECL} \<longrightarrow>
            (if args_count > 65535
             then result = Inl (PARSE_ERROR JSP_EARLY_ERROR_SYNTAX
                    ''No more than 65535 formal parameters are currently supported'')
             else if jsp_reg_next st > VM_REG_GENERAL_LAST k then result = no_register
             else result = Inr (Reg_operand (jsp_reg_next st),
                    with_header with_register
                      ((raw_args om)[obj_decl_list_1 := word_of_nat (args_count div 256),
                                     obj_decl_list_2 := word_of_nat (args_count mod 256),
                                     obj_decl_lhs := jsp_reg_next st]))))"
proof -
  have g: "serializer_get_op_meta oc st = Inr om"
    using assms(2) by (simp add: serializer_get_op_meta_def scopes_tree_op_meta_def om_def)
  note c = rewrite_call_like_header_cases [OF assms(3,4), of args_count oc rest om]
  note l = rewrite_literal_header_cases [OF assms(3,4), of args_count oc rest om]
  have r: "result = (case op_idx om of
              VM_OP_FUNC_EXPR_N \<Rightarrow> rewrite_call_like_header k args_count oc rest om st
            | VM_OP_CONSTRUCT_N \<Rightarrow> rewrite_call_like_header k args_count oc rest om st
            | VM_OP_CALL_N \<Rightarrow> rewrite_call_like_header k args_count oc rest om st
            | VM_OP_FUNC_DECL_N \<Rightarrow>
                if args_count > 255
                then Inl (PARSE_ERROR JSP_EARLY_ERROR_SYNTAX
                       ''No more than 255 formal parameters are currently supported'')
                else
                  let om1 = om\<lparr>raw_args := (raw_args om)[func_decl_n_arg_list := word_of_nat args_count]\<rparr>;
                      st1 = serializer_rewrite_op_meta oc om1 st
                  in Inr (empty_operand, st1\<lparr>varg_headers := rest\<rparr>)
            | VM_OP_ARRAY_DECL \<Rightarrow> rewrite_literal_header k args_count oc rest om st
            | VM_OP_OBJ_DECL \<Rightarrow> rewrite_literal_header k args_count oc rest om st
            | _ \<Rightarrow> Inl JERRY_UNREACHABLE_reached)"
    using assms(1) g by (simp add: result_def rewrite_varg_header_set_args_count_def)
  have le: "\<not> x < y \<longleftrightarrow> y \<le> x" for x y :: nat by auto
  have wle: "\<not> x < y \<longleftrightarrow> y \<le> x" for x y :: vm_idx_t by auto
  show ?thesis
  proof (intro conjI impI)
    assume "op_idx om = VM_OP_FUNC_DECL_N"
    then show "if args_count > 255
             then result = Inl (PARSE_ERROR JSP_EARLY_ERROR_SYNTAX
                    ''No more than 255 formal parameters are currently supported'')
             else result = Inr (empty_operand,
                    with_header st ((raw_args om)[func_decl_n_arg_list := word_of_nat args_count]))"
      by (simp add: r Let_def with_header_def serializer_rewrite_op_meta_def
          scopes_tree_set_op_meta_def)
  next
    assume "op_idx om \<in> {VM_OP_FUNC_EXPR_N, VM_OP_CONSTRUCT_N, VM_OP_CALL_N}"
    then have "result = rewrite_call_like_header k args_count oc rest om st" by (auto simp: r)
    with c show "if args_count > 255
             then result = Inl (PARSE_ERROR JSP_EARLY_ERROR_SYNTAX
                    ''No more than 255 formal parameters / arguments are currently supported'')
             else if jsp_reg_next st > VM_REG_GENERAL_LAST k then result = no_register
             else result = Inr (Reg_operand (jsp_reg_next st),
                    with_header with_register
                      ((raw_args om)[func_expr_n_arg_list := word_of_nat args_count,
                                     func_expr_n_lhs := jsp_reg_next st]))"
      by (simp add: no_register_def le wle with_header_def with_register_def)
  next
    assume "op_idx om \<in> {VM_OP_ARRAY_DECL, VM_OP_OBJ_DECL}"
    then have "result = rewrite_literal_header k args_count oc rest om st" by (auto simp: r)
    with l show "if args_count > 65535
             then result = Inl (PARSE_ERROR JSP_EARLY_ERROR_SYNTAX
                    ''No more than 65535 formal parameters are currently supported'')
             else if jsp_reg_next st > VM_REG_GENERAL_LAST k then result = no_register
             else result = Inr (Reg_operand (jsp_reg_next st),
                    with_header with_register
                      ((raw_args om)[obj_decl_list_1 := word_of_nat (args_count div 256),
                                     obj_decl_list_2 := word_of_nat (args_count mod 256),
                                     obj_decl_lhs := jsp_reg_next st]))"
      by (simp add: no_register_def le wle with_header_def with_register_def)
  qed
qed

theorem rewrite_varg_header_set_args_count_errors_witness:
  "rewrite_varg_header_set_args_count example_vm_consts 255 example_decl_state
     = Inr (empty_operand,
         example_decl_state\<lparr>scope := example_scope
             [\<lparr>op_idx = VM_OP_FUNC_DECL_N, raw_args = [254, 255, 255],
               lit_id = [Literal 1, NOT_A_LITERAL, NOT_A_LITERAL]\<rparr>],
           varg_headers := []\<rparr>)
   \<and> rewrite_varg_header_set_args_count example_vm_consts 256 example_decl_state
       = Inl (PARSE_ERROR JSP_EARLY_ERROR_SYNTAX
           ''No more than 255 formal parameters are currently supported'')
   \<and> rewrite_varg_header_set_args_count example_vm_consts 255 (example_call_state 130)
       = Inr (Reg_operand 130,
           (example_call_state 131)\<lparr>scope := example_scope
               [\<lparr>op_idx = VM_OP_CALL_N, raw_args = [130, 254, 255],
                 lit_id = [NOT_A_LITERAL, Literal 1, NOT_A_LITERAL]\<rparr>],
             varg_headers := []\<rparr>)
   \<and> rewrite_varg_header_set_args_count example_vm_consts 256 (example_call_state 130)
       = Inl (PARSE_ERROR JSP_EARLY_ERROR_SYNTAX
           ''No more than 255 formal parameters / arguments are currently supported'')
   \<and> rewrite_varg_header_set_args_count example_vm_consts 65535 example_array_state
       = Inr (Reg_operand 130,
           example_array_state\<lparr>jsp_reg_next := 131,
             scope := example_scope
               [\<lparr>op_idx = VM_OP_ARRAY_DECL, raw_args = [130, 255, 255],
                 lit_id = [NOT_A_LITERAL, NOT_A_LITERAL, NOT_A_LITERAL]\<rparr>],
             varg_headers := []\<rparr>)
   \<and> rewrite_varg_header_set_args_count example_vm_consts 65536 example_array_state
       = Inl (PARSE_ERROR JSP_EARLY_ERROR_SYNTAX
           ''No more than 65535 formal parameters are currently supported'')"
  using rewrite_varg_header_set_args_count_errors
      [where st = example_decl_state and oc = 0 and rest = "[]" and k = example_vm_consts
        and args_count = 255]
    rewrite_varg_header_set_args_count_errors
      [where st = example_decl_state and oc = 0 and rest = "[]" and k = example_vm_consts
        and args_count = 256]
    rewrite_varg_header_set_args_count_errors
      [where st = "example_call_state 130" and oc = 0 and rest = "[]" and k = example_vm_consts
        and args_count = 255]
    rewrite_varg_header_set_args_count_errors
      [where st = "example_call_state 130" and oc = 0 and rest = "[]" and k = example_vm_consts
        and args_count = 256]
    rewrite_varg_header_set_args_count_errors
      [where st = example_array_state and oc = 0 and rest = "[]" and k = example_vm_consts
        and args_count = 65535]
    rewrite_varg_header_set_args_count_errors
      [where st = example_array_state and oc = 0 and rest = "[]" and k = example_vm_consts
        and args_count = 65536]
  by (simp add: example_decl_state_def example_call_state_def example_array_state_def
      example_scope_def example_vm_consts_def func_decl_n_arg_list_def func_expr_n_arg_list_def
      func_expr_n_lhs_def obj_decl_list_1_def obj_decl_list_2_def obj_decl_lhs_def)

text \<open>
  Against C8 as stated: the header of a call with no argument at all, rewritten when every
  register for intermediate values is taken (\<open>jsp_reg_next\<close> is \<open>VM_REG_GENERAL_LAST + 1\<close>),
  raises a SyntaxError although the count, 0, does not exceed 255.
\<close>

theorem rewrite_varg_header_set_args_count_counterexample:
  "rewrite_varg_header_set_args_count example_vm_consts 0 (example_call_state 253)
     = Inl (PARSE_ERROR JSP_EARLY_ERROR_SYNTAX ''Not enough register variables'')"
  by (simp add: rewrite_varg_header_set_args_count_def rewrite_call_like_header_def
      tmp_operand_def jsp_alloc_reg_for_temp_def serializer_get_op_meta_def
      scopes_tree_op_meta_def example_call_state_def example_scope_def example_vm_consts_def)










text \<open>
  What \<open>rewrite_reg_var_decl\<close> writes when registers were given to local variables and to
  arguments: the number of registers of the arguments is counted from \<open>jsp_reg_max_for_temps\<close>,
  so the registers of the local variables are counted once more.
\<close>

lemma rewrite_reg_var_decl_counts:
  assumes "oc < length (instrs (scope st))"
    and "op_idx (instrs (scope st) ! oc) = VM_OP_REG_VAR_DECL"
    and "jsp_reg_max_for_local_var st \<noteq> VM_IDX_EMPTY k"
    and "jsp_reg_max_for_args st \<noteq> VM_IDX_EMPTY k"
    and "jsp_reg_max_for_temps st \<le> jsp_reg_max_for_local_var st"
    and "jsp_reg_max_for_temps st \<le> jsp_reg_max_for_args st"
  shows "rewrite_reg_var_decl k oc st =
     Inr (st\<lparr>jsp_reg_max_for_local_var := VM_IDX_EMPTY k, jsp_reg_max_for_args := VM_IDX_EMPTY k,
            scope := (scope st)\<lparr>instrs := (instrs (scope st))
              [oc := (instrs (scope st) ! oc)\<lparr>raw_args := (raw_args (instrs (scope st) ! oc))
                 [reg_var_decl_tmp_regs_num :=
                    jsp_reg_max_for_temps st - VM_REG_GENERAL_FIRST k + 1,
                  reg_var_decl_local_var_regs_num :=
                    jsp_reg_max_for_local_var st - jsp_reg_max_for_temps st,
                  reg_var_decl_arg_regs_num :=
                    jsp_reg_max_for_args st - jsp_reg_max_for_temps st]\<rparr>]\<rparr>\<rparr>)"
  using assms
  by (simp add: rewrite_reg_var_decl_def serializer_get_op_meta_def scopes_tree_op_meta_def
      serializer_rewrite_op_meta_def scopes_tree_set_op_meta_def Let_def)




end
